(* ===== verification/MWF_Prelude.thy ===== *)
theory MWF_Prelude
  imports Complex_Main "HOL-Library.Char_ord" "HOL-Library.List_Lexorder" "HOL-Library.Product_Lexorder" "HOL-Library.Sublist"
begin

text \<open>
  Shared vocabulary of the development: the Python exceptions the modelled code raises, the
  result type of fallible code, the types of names and clocks, and the generic lemmas on lists,
  results and relations that the component theories use through the collections declared here.
\<close>

section \<open>Names, time and failure\<close>

text \<open>
  A node name is a Python string, ordered by code point as \<open>sorted\<close> orders it (the instances of
  \<open>Char_ord\<close> and \<open>List_Lexorder\<close>). A component key is a tuple of node names. Readings of
  \<open>time.monotonic\<close> and timeouts are exact rationals.
\<close>

type_synonym node_name = string
type_synonym component = "string list"
type_synonym seconds = rat

text \<open>
  Each constructor is one exception class; the argument is the constant part of the message, which
  identifies the raise statement. Values interpolated into the message are left out.
\<close>

datatype exn =
    ValueError string
  | TypeError string
  | KeyError string
  | RuntimeError string
  | AttributeError string
  | InvalidGraphError string
  | InvalidJobError string
  | JobTimeoutError string
  | JobRestartedError string
  | JobFailedError string
  | NetworkXError string
  | ApiPermitStateError string
  | SqliteError string
  | BaseExn string
  | FutureTimeoutError
  | HandlerError string

type_synonym 'a res = "exn + 'a"

text \<open>
  \<open>BaseExn\<close> stands for the exceptions outside Python's \<open>Exception\<close> (interrupts and exits), which
  \<open>except Exception\<close> does not catch; \<open>HandlerError\<close> for whatever else user code raises.
\<close>

definition is_exception :: "exn \<Rightarrow> bool" where
  "is_exception e = (case e of BaseExn _ \<Rightarrow> False | _ \<Rightarrow> True)"

definition res_bind :: "'a res \<Rightarrow> ('a \<Rightarrow> 'b res) \<Rightarrow> 'b res" where
  "res_bind m f = (case m of Inl e \<Rightarrow> Inl e | Inr x \<Rightarrow> f x)"

text \<open>A guard: \<open>if bad: raise e\<close>.\<close>

definition raise_if :: "bool \<Rightarrow> exn \<Rightarrow> unit res" where
  "raise_if bad e = (if bad then Inl e else Inr ())"

primrec res_map :: "('a \<Rightarrow> 'b res) \<Rightarrow> 'a list \<Rightarrow> 'b list res" where
  "res_map f [] = Inr []"
| "res_map f (x # xs) = res_bind (f x) (\<lambda>y. res_bind (res_map f xs) (\<lambda>ys. Inr (y # ys)))"

named_theorems res_simps "evaluation and inversion of fallible computations"

lemma res_bind_Inl [simp, res_simps]: "res_bind (Inl e) f = Inl e"
  by (simp add: res_bind_def)

lemma res_bind_Inr [simp, res_simps]: "res_bind (Inr x) f = f x"
  by (simp add: res_bind_def)

lemma res_bind_eq_Inr [res_simps]:
  "res_bind m f = Inr y \<longleftrightarrow> (\<exists>x. m = Inr x \<and> f x = Inr y)"
  by (cases m) auto

lemma res_bind_eq_Inl [res_simps]:
  "res_bind m f = Inl e \<longleftrightarrow> m = Inl e \<or> (\<exists>x. m = Inr x \<and> f x = Inl e)"
  by (cases m) auto

lemma raise_if_eq_Inr [simp, res_simps]: "raise_if b e = Inr u \<longleftrightarrow> \<not> b"
  by (simp add: raise_if_def)

lemma raise_if_eq_Inl [simp, res_simps]: "raise_if b e = Inl e' \<longleftrightarrow> b \<and> e' = e"
  by (auto simp: raise_if_def)

lemma raise_if_simps [simp, res_simps]:
  "raise_if True e = Inl e" "raise_if False e = Inr ()"
  by (simp_all add: raise_if_def)

lemma res_map_length: "res_map f xs = Inr ys \<Longrightarrow> length ys = length xs"
  by (induction xs arbitrary: ys) (auto simp: res_bind_eq_Inr)

lemma res_map_nth:
  "res_map f xs = Inr ys \<Longrightarrow> i < length xs \<Longrightarrow> f (xs ! i) = Inr (ys ! i)"
proof (induction xs arbitrary: ys i)
  case (Cons x xs)
  then show ?case by (cases i) (auto simp: res_bind_eq_Inr)
qed simp

lemma res_map_set:
  "res_map f xs = Inr ys \<Longrightarrow> y \<in> set ys \<longleftrightarrow> (\<exists>x\<in>set xs. f x = Inr y)"
  by (induction xs arbitrary: ys) (auto simp: res_bind_eq_Inr)

lemma res_map_total:
  "(\<And>x. x \<in> set xs \<Longrightarrow> f x = Inr (g x)) \<Longrightarrow> res_map f xs = Inr (map g xs)"
  by (induction xs) auto

text \<open>\<open>FileStorageBase.validate_node_name\<close>: a name is one safe part of a path.\<close>

definition validate_node_name :: "string \<Rightarrow> string res" where
  "validate_node_name n =
     (if n = [] \<or> n = ''.'' \<or> n = ''..'' then Inl (ValueError ''Invalid node name'')
      else if CHR 0x2F \<in> set n \<or> CHR 0x5C \<in> set n \<or> sublist ''..'' n then Inl (ValueError ''Unsafe node name: '')
      else Inr n)"

lemma validate_node_name_Inr: "validate_node_name n = Inr m \<Longrightarrow> m = n \<and> n \<noteq> []"
  by (auto simp: validate_node_name_def split: if_splits)

section \<open>Python collections\<close>

text \<open>\<open>tuple(sorted(set(xs)))\<close> for an iterable \<open>xs\<close> of ordered values.\<close>

definition sorted_set :: "'a::linorder list \<Rightarrow> 'a list" where
  "sorted_set xs = sort (remdups xs)"

lemma set_sorted_set [simp]: "set (sorted_set xs) = set xs"
  by (simp add: sorted_set_def)

lemma distinct_sorted_set [simp]: "distinct (sorted_set xs)"
  by (simp add: sorted_set_def)

lemma sorted_sorted_set [simp]: "sorted (sorted_set xs)"
  by (simp add: sorted_set_def)

lemma sorted_set_unique:
  "sorted ys \<Longrightarrow> distinct ys \<Longrightarrow> set ys = set xs \<Longrightarrow> sorted_set xs = ys"
  by (rule sorted_distinct_set_unique) auto

lemma sorted_set_eq_iff: "sorted_set xs = sorted_set ys \<longleftrightarrow> set xs = set ys"
  by (metis set_sorted_set sorted_set_unique sorted_sorted_set distinct_sorted_set)

lemma sorted_set_idem [simp]: "sorted_set (sorted_set xs) = sorted_set xs"
  by (simp add: sorted_set_eq_iff)

lemma sorted_set_Nil [simp]: "sorted_set xs = [] \<longleftrightarrow> xs = []"
  by (metis set_sorted_set set_empty)

text \<open>A Python \<open>dict\<close> with its insertion order: an association list with distinct keys.\<close>

definition dict_keys :: "('k \<times> 'v) list \<Rightarrow> 'k list" where
  "dict_keys d = map fst d"

definition dict_get :: "('k \<times> 'v) list \<Rightarrow> 'k \<Rightarrow> 'v option" where
  "dict_get d k = map_of d k"

fun dict_set :: "('k \<times> 'v) list \<Rightarrow> 'k \<Rightarrow> 'v \<Rightarrow> ('k \<times> 'v) list" where
  "dict_set [] k v = [(k, v)]"
| "dict_set ((k', v') # d) k v = (if k' = k then (k, v) # d else (k', v') # dict_set d k v)"

definition dict_pop :: "('k \<times> 'v) list \<Rightarrow> 'k \<Rightarrow> ('k \<times> 'v) list" where
  "dict_pop d k = filter (\<lambda>(k', v). k' \<noteq> k) d"

named_theorems dict_simps "lookups after updates of insertion-ordered dictionaries"

lemma dict_get_set [dict_simps]:
  "dict_get (dict_set d k v) k' = (if k' = k then Some v else dict_get d k')"
  by (induction d k v rule: dict_set.induct) (auto simp: dict_get_def)

lemma dict_get_pop [dict_simps]:
  "dict_get (dict_pop d k) k' = (if k' = k then None else dict_get d k')"
  by (induction d) (auto simp: dict_get_def dict_pop_def)

lemma dict_keys_set [dict_simps]:
  "dict_keys (dict_set d k v) = (if k \<in> set (dict_keys d) then dict_keys d else dict_keys d @ [k])"
  by (induction d k v rule: dict_set.induct) (auto simp: dict_keys_def)

lemma dict_keys_pop [dict_simps]: "dict_keys (dict_pop d k) = filter (\<lambda>k'. k' \<noteq> k) (dict_keys d)"
  by (induction d) (auto simp: dict_keys_def dict_pop_def)

lemma distinct_dict_set: "distinct (dict_keys d) \<Longrightarrow> distinct (dict_keys (dict_set d k v))"
  by (simp add: dict_keys_set)

lemma distinct_dict_pop: "distinct (dict_keys d) \<Longrightarrow> distinct (dict_keys (dict_pop d k))"
  by (simp add: dict_keys_pop)

lemma dict_get_None_iff: "dict_get d k = None \<longleftrightarrow> k \<notin> set (dict_keys d)"
  by (auto simp: dict_get_def dict_keys_def map_of_eq_None_iff)

lemma dict_get_SomeD: "dict_get d k = Some v \<Longrightarrow> k \<in> set (dict_keys d)"
  by (metis dict_get_None_iff option.distinct(1))

lemma dict_get_in: "distinct (dict_keys d) \<Longrightarrow> (k, v) \<in> set d \<Longrightarrow> dict_get d k = Some v"
  by (auto simp: dict_get_def dict_keys_def)

section \<open>Python values\<close>

text \<open>
  A value handed to a numeric parameter: \<open>None\<close>, a \<open>bool\<close>, an \<open>int\<close>, a finite \<open>float\<close>, one of the
  infinities, NaN, or any other object.
\<close>

datatype pynum = PyNone | PyBool bool | PyInt int | PyFloat rat | PyPosInf | PyNegInf | PyNan | PyOther

text \<open>\<open>str.isspace\<close> on the code points below 256, and \<open>str.strip()\<close>.\<close>

definition py_space :: "char \<Rightarrow> bool" where
  "py_space c \<longleftrightarrow> (let n = of_char c :: nat in n \<in> {9..13} \<or> n \<in> {28..32} \<or> n = 133 \<or> n = 160)"

definition py_strip :: "string \<Rightarrow> string" where
  "py_strip s = rev (dropWhile py_space (rev (dropWhile py_space s)))"

text \<open>Python's \<open>a or b\<close> on an optional number: \<open>None\<close> and zero are false.\<close>

definition or_else :: "rat option \<Rightarrow> rat option \<Rightarrow> rat option" where
  "or_else a b = (case a of Some x \<Rightarrow> if x = 0 then b else a | None \<Rightarrow> b)"

section \<open>Relations\<close>

lemma acyclic_no_self: "acyclic r \<Longrightarrow> (x, x) \<notin> r\<^sup>+"
  by (simp add: acyclic_def)

end
