(* ===== verification/Graph_Edges.thy ===== *)
theory Graph_Edges
  imports MWF_Prelude
begin

text \<open>
  The raw graph declaration of a project (\<open>micro_workflow_manager/graph.py\<close>): an \<open>EDGES\<close>
  list of ordinary edges and one-sided directed fans, expanded by \<open>normalize_edges\<close>.
\<close>

section \<open>Declared values\<close>

text \<open>
  The graph file is user code, so the entries are arbitrary Python values. A member of a collection
  is a string or anything else; one side of an edge is a string, an iterable, or a value that
  \<open>list\<close> refuses; an entry is a \<open>DirectedFan\<close>, a value with a length and that many parts
  (a tuple, a list, or a string, whose parts are one-character strings), or a value on which
  \<open>len\<close> or unpacking raises \<open>TypeError\<close>.
\<close>

datatype member = MStr string | MOther
datatype node_group = GStr string | GColl "member list" | GOther
datatype edge_item = DirectedFan node_group node_group | ISized "node_group list" | IUnsized

definition fan :: "node_group \<Rightarrow> node_group \<Rightarrow> edge_item" where
  "fan start end = DirectedFan start end"

primrec member_name :: "member \<Rightarrow> string res" where
  "member_name (MStr s) = Inr s"
| "member_name MOther = Inl (RuntimeError ''Node names must be strings'')"

fun node_group_values :: "node_group \<Rightarrow> string list res" where
  "node_group_values (GStr s) = Inr [s]"
| "node_group_values (GColl values) =
     (if values = [] then Inl (RuntimeError ''A directed fan node collection cannot be empty'')
      else res_map member_name values)"
| "node_group_values GOther = Inl (RuntimeError ''Expected a node name or node collection'')"

fun item_sides :: "edge_item \<Rightarrow> (node_group \<times> node_group) res" where
  "item_sides (DirectedFan start end) = Inr (start, end)"
| "item_sides (ISized [start, end]) = Inr (start, end)"
| "item_sides (ISized _) = Inl (RuntimeError ''Invalid edge or fan'')"
| "item_sides IUnsized = Inl (RuntimeError ''Invalid edge or fan'')"

definition item_edges :: "edge_item \<Rightarrow> (string \<times> string) list res" where
  "item_edges item =
     res_bind (item_sides item) (\<lambda>(start, end).
     res_bind (node_group_values start) (\<lambda>starts.
     res_bind (node_group_values end) (\<lambda>ends.
     res_bind (raise_if (length starts > 1 \<and> length ends > 1)
                 (RuntimeError ''A directed fan may have a node collection on only one side.''))
       (\<lambda>_. Inr (concat (map (\<lambda>source. map (\<lambda>target. (source, target)) ends) starts))))))"

text \<open>The loop over the entries, with \<open>result\<close> as its accumulator.\<close>

fun normalize_items :: "edge_item list \<Rightarrow> (string \<times> string) list \<Rightarrow> (string \<times> string) list res" where
  "normalize_items [] result = Inr result"
| "normalize_items (item # items) result =
     res_bind (item_edges item) (\<lambda>es. normalize_items items (result @ es))"

definition normalize_edges :: "edge_item list option \<Rightarrow> (string \<times> string) list res" where
  "normalize_edges items = (case items of
     None \<Rightarrow> Inl (RuntimeError ''graph.py must define EDGES or edges'')
   | Some xs \<Rightarrow> res_bind (normalize_items xs []) (\<lambda>result.
       if result = [] then Inl (RuntimeError ''graph.py must define at least one edge'')
       else Inr result))"

section \<open>What expansion computes\<close>

text \<open>The edges one entry stands for: every start to every end.\<close>

definition denotes :: "edge_item \<Rightarrow> string \<Rightarrow> string \<Rightarrow> bool" where
  "denotes item a b \<longleftrightarrow> (\<exists>start end starts ends.
     item_sides item = Inr (start, end) \<and> node_group_values start = Inr starts \<and>
     node_group_values end = Inr ends \<and> a \<in> set starts \<and> b \<in> set ends)"

definition one_sided :: "edge_item \<Rightarrow> bool" where
  "one_sided item \<longleftrightarrow> (\<exists>start end starts ends.
     item_sides item = Inr (start, end) \<and> node_group_values start = Inr starts \<and>
     node_group_values end = Inr ends \<and> (length starts = 1 \<or> length ends = 1))"

lemma node_group_values_nonempty: "node_group_values g = Inr xs \<Longrightarrow> xs \<noteq> []"
  by (cases g) (auto split: if_splits dest: res_map_length)

lemma item_edges_nonempty: "item_edges item = Inr es \<Longrightarrow> es \<noteq> []"
  by (auto simp: item_edges_def res_simps dest!: node_group_values_nonempty)

lemma item_edges_denotes: "item_edges item = Inr es \<Longrightarrow> (a, b) \<in> set es \<longleftrightarrow> denotes item a b"
  by (force simp: item_edges_def denotes_def res_simps)

lemma item_edges_one_sided: "(\<exists>es. item_edges item = Inr es) \<longleftrightarrow> one_sided item"
proof
  assume "\<exists>es. item_edges item = Inr es"
  then obtain start end' starts ends where
    *: "item_sides item = Inr (start, end')" "node_group_values start = Inr starts"
       "node_group_values end' = Inr ends" "\<not> (length starts > 1 \<and> length ends > 1)"
    by (auto simp: item_edges_def res_simps)
  then have "starts \<noteq> []" "ends \<noteq> []" by (auto dest: node_group_values_nonempty)
  with *(4) have "length starts = 1 \<or> length ends = 1"
    by (cases starts; cases ends) auto
  with * show "one_sided item" by (auto simp: one_sided_def)
qed (auto simp: item_edges_def one_sided_def)

lemma normalize_items_append:
  "normalize_items xs acc = Inr es \<longleftrightarrow> (\<exists>ess. res_map item_edges xs = Inr ess \<and> es = acc @ concat ess)"
proof (induction xs arbitrary: acc)
  case (Cons x xs)
  then show ?case by (cases "item_edges x") (auto simp: res_bind_eq_Inr)
qed auto

lemma res_map_Inr_iff: "(\<exists>ys. res_map f xs = Inr ys) \<longleftrightarrow> (\<forall>x\<in>set xs. \<exists>y. f x = Inr y)"
  by (induction xs) (auto simp: res_bind_eq_Inr)

lemma normalize_items_Inr_iff:
  "(\<exists>es. normalize_items xs acc = Inr es) \<longleftrightarrow> (\<forall>x\<in>set xs. one_sided x)"
  by (auto simp: normalize_items_append res_map_Inr_iff simp flip: item_edges_one_sided)

lemma normalize_items_nonempty:
  "normalize_items xs [] = Inr es \<Longrightarrow> es = [] \<longleftrightarrow> xs = []"
proof (cases xs)
  case (Cons x ys)
  moreover assume "normalize_items xs [] = Inr es"
  ultimately show ?thesis
    by (auto simp: normalize_items_append res_bind_eq_Inr dest: item_edges_nonempty)
qed auto

lemma normalize_edges_eq_Inr:
  "normalize_edges (Some xs) = Inr es \<longleftrightarrow> xs \<noteq> [] \<and> (\<exists>ess. res_map item_edges xs = Inr ess \<and> es = concat ess)"
proof -
  have "normalize_edges (Some xs) = Inr es \<longleftrightarrow> normalize_items xs [] = Inr es \<and> es \<noteq> []"
    by (auto simp: normalize_edges_def res_bind_eq_Inr)
  also have "\<dots> \<longleftrightarrow> xs \<noteq> [] \<and> normalize_items xs [] = Inr es"
    using normalize_items_nonempty by blast
  finally show ?thesis by (simp add: normalize_items_append)
qed

lemma normalize_edges_set:
  assumes "normalize_edges (Some items) = Inr es"
  shows "(a, b) \<in> set es \<longleftrightarrow> (\<exists>item\<in>set items. denotes item a b)"
proof -
  obtain ess where ess: "res_map item_edges items = Inr ess" and es: "es = concat ess"
    using assms by (auto simp: normalize_edges_eq_Inr)
  have *: "\<exists>e. item_edges item = Inr e" if "item \<in> set items" for item
    using ess that res_map_Inr_iff [of item_edges items] by auto
  have "(a, b) \<in> set es \<longleftrightarrow> (\<exists>e. (\<exists>item\<in>set items. item_edges item = Inr e) \<and> (a, b) \<in> set e)"
    using res_map_set [OF ess] by (auto simp: es)
  also have "\<dots> \<longleftrightarrow> (\<exists>item\<in>set items. denotes item a b)"
    using * by (metis item_edges_denotes)
  finally show ?thesis .
qed

lemma normalize_edges_accepts:
  "(\<exists>es. normalize_edges (Some items) = Inr es) \<longleftrightarrow> items \<noteq> [] \<and> (\<forall>item\<in>set items. one_sided item)"
  by (auto simp: normalize_edges_eq_Inr res_map_Inr_iff simp flip: item_edges_one_sided)

text \<open>
  C18. \<open>normalize_edges\<close> accepts exactly the nonempty declarations in which every entry is a
  one-sided fan of string names (an ordinary edge included); the edges it returns are exactly those
  the entries denote, so nothing is lost, invented or turned into a complete bipartite graph.
\<close>

theorem normalize_edges_correct:
  "case normalize_edges (Some items) of
     Inl e \<Rightarrow> items = [] \<or> (\<exists>item\<in>set items. \<not> one_sided item)
   | Inr es \<Rightarrow> items \<noteq> [] \<and> (\<forall>item\<in>set items. one_sided item) \<and>
       (\<forall>a b. (a, b) \<in> set es \<longleftrightarrow> (\<exists>item\<in>set items. denotes item a b))"
  using normalize_edges_accepts [of items] normalize_edges_set [of items]
  by (auto split: sum.split)

theorem normalize_edges_correct_witness:
  "normalize_edges (Some [ISized [GStr ''a'', GStr ''b''], fan (GColl [MStr ''b'', MStr ''c'']) (GStr ''d'')])
     = Inr [(''a'', ''b''), (''b'', ''d''), (''c'', ''d'')] \<and>
   (\<exists>item\<in>set [ISized [GStr ''a'', GStr ''b''], fan (GColl [MStr ''b'', MStr ''c'']) (GStr ''d'')].
      denotes item ''c'' ''d'')"
proof -
  let ?items = "[ISized [GStr ''a'', GStr ''b''], fan (GColl [MStr ''b'', MStr ''c'']) (GStr ''d'')]"
  have eval: "normalize_edges (Some ?items) = Inr [(''a'', ''b''), (''b'', ''d''), (''c'', ''d'')]"
    by (simp add: normalize_edges_def item_edges_def fan_def)
  then show ?thesis
    using normalize_edges_correct [of ?items] by fastforce
qed

text \<open>
  A declaration made of ordinary \<open>(source, target)\<close> pairs is returned unchanged, in order
  and with repetitions, and an empty declaration is refused: the compact fan notation costs the plain
  notation nothing.
\<close>

theorem normalize_edges_plain:
  "normalize_edges (Some (map (\<lambda>(a, b). ISized [GStr a, GStr b]) es)) =
     (if es = [] then Inl (RuntimeError ''graph.py must define at least one edge'') else Inr es)"
proof -
  have "res_map item_edges (map (\<lambda>(a, b). ISized [GStr a, GStr b]) es) = Inr (map (\<lambda>e. [e]) es)"
    by (induction es) (auto simp: item_edges_def)
  then have "normalize_items (map (\<lambda>(a, b). ISized [GStr a, GStr b]) es) [] = Inr es"
    by (simp add: normalize_items_append)
  then show ?thesis by (simp add: normalize_edges_def)
qed

end
