(* ===== verification/Nx_Digraph.thy ===== *)
theory Nx_Digraph
  imports MWF_Prelude
begin

text \<open>
  Directed graphs as the workflow code sees them and the interface to the \<open>networkx\<close> package.
  \<open>networkx\<close> is not part of the repository: its graph algorithms are fields of a record that the
  modelled functions take as an argument, and the locale \<open>networkx\<close> states what its documentation
  promises of the five functions the code calls. A Kahn-style reference implementation interprets
  the locale, which shows that the contract can be met and lets concrete inputs be evaluated.
\<close>

section \<open>Directed graphs\<close>

text \<open>The nodes in insertion order and the edges, both without repetition.\<close>

record 'a digraph =
  dnodes :: "'a list"
  dedges :: "('a \<times> 'a) list"

definition empty_digraph :: "'a digraph" where
  "empty_digraph = \<lparr>dnodes = [], dedges = []\<rparr>"

definition has_edge :: "'a digraph \<Rightarrow> 'a \<Rightarrow> 'a \<Rightarrow> bool" where
  "has_edge g u v \<longleftrightarrow> (u, v) \<in> set (dedges g)"

definition add_node :: "'a digraph \<Rightarrow> 'a \<Rightarrow> 'a digraph" where
  "add_node g n = (if n \<in> set (dnodes g) then g else g\<lparr>dnodes := dnodes g @ [n]\<rparr>)"

definition add_edge :: "'a digraph \<Rightarrow> 'a \<Rightarrow> 'a \<Rightarrow> 'a digraph" where
  "add_edge g u v = (let g' = add_node (add_node g u) v in
     if (u, v) \<in> set (dedges g') then g' else g'\<lparr>dedges := dedges g' @ [(u, v)]\<rparr>)"

definition subgraph :: "'a digraph \<Rightarrow> 'a set \<Rightarrow> 'a digraph" where
  "subgraph g S = \<lparr>dnodes = filter (\<lambda>n. n \<in> S) (dnodes g),
                   dedges = filter (\<lambda>(u, v). u \<in> S \<and> v \<in> S) (dedges g)\<rparr>"

definition wf_digraph :: "'a digraph \<Rightarrow> bool" where
  "wf_digraph g \<longleftrightarrow> distinct (dnodes g) \<and> distinct (dedges g) \<and>
     set (dedges g) \<subseteq> set (dnodes g) \<times> set (dnodes g)"

named_theorems digraph_simps "nodes and edges after graph updates"

lemma empty_digraph_simps [digraph_simps]: "dnodes empty_digraph = []" "dedges empty_digraph = []"
  by (simp_all add: empty_digraph_def)

lemma set_dnodes_add_node [digraph_simps]: "set (dnodes (add_node g n)) = insert n (set (dnodes g))"
  by (auto simp: add_node_def)

lemma dedges_add_node [digraph_simps]: "dedges (add_node g n) = dedges g"
  by (simp add: add_node_def)

lemma set_dnodes_add_edge [digraph_simps]:
  "set (dnodes (add_edge g u v)) = insert v (insert u (set (dnodes g)))"
  by (auto simp: add_edge_def Let_def add_node_def)

lemma set_dedges_add_edge [digraph_simps]:
  "set (dedges (add_edge g u v)) = insert (u, v) (set (dedges g))"
  by (auto simp: add_edge_def Let_def add_node_def)

lemma wf_empty_digraph [simp]: "wf_digraph empty_digraph"
  by (simp add: wf_digraph_def empty_digraph_def)

lemma wf_add_node [simp]: "wf_digraph g \<Longrightarrow> wf_digraph (add_node g n)"
  by (auto simp: wf_digraph_def add_node_def)

lemma wf_add_edge [simp]: "wf_digraph g \<Longrightarrow> wf_digraph (add_edge g u v)"
  by (auto simp: wf_digraph_def add_edge_def add_node_def Let_def)

lemma wf_subgraph [simp]: "wf_digraph g \<Longrightarrow> wf_digraph (subgraph g S)"
  by (auto simp: wf_digraph_def subgraph_def)

lemma set_dnodes_subgraph [digraph_simps]: "set (dnodes (subgraph g S)) = set (dnodes g) \<inter> S"
  by (auto simp: subgraph_def)

lemma set_dedges_subgraph [digraph_simps]: "set (dedges (subgraph g S)) = set (dedges g) \<inter> S \<times> S"
  by (auto simp: subgraph_def)

lemma wf_digraph_edgeD:
  "wf_digraph g \<Longrightarrow> (u, v) \<in> set (dedges g) \<Longrightarrow> u \<in> set (dnodes g) \<and> v \<in> set (dnodes g)"
  by (auto simp: wf_digraph_def)

section \<open>The package interface\<close>

text \<open>\<open>scc_of g v\<close>: the strongly connected component of \<open>v\<close>.\<close>

definition scc_of :: "'a digraph \<Rightarrow> 'a \<Rightarrow> 'a set" where
  "scc_of g v = {w \<in> set (dnodes g). (v, w) \<in> (set (dedges g))\<^sup>* \<and> (w, v) \<in> (set (dedges g))\<^sup>*}"

text \<open>A topological order: no edge from a later to an earlier node.\<close>

definition topo_order :: "'a digraph \<Rightarrow> 'a list \<Rightarrow> bool" where
  "topo_order g xs \<longleftrightarrow> distinct xs \<and> set xs = set (dnodes g) \<and>
     sorted_wrt (\<lambda>u v. (v, u) \<notin> set (dedges g)) xs"

record networkx_api =
  nx_strongly_connected_components :: "node_name digraph \<Rightarrow> node_name set list"
  nx_topological_sort :: "component digraph \<Rightarrow> component list res"
  nx_lexicographical_topological_sort :: "component digraph \<Rightarrow> component list res"
  nx_descendants :: "component digraph \<Rightarrow> component \<Rightarrow> component set res"
  nx_ancestors :: "component digraph \<Rightarrow> component \<Rightarrow> component set res"

locale networkx =
  fixes nx :: networkx_api
  assumes scc_set: "wf_digraph g \<Longrightarrow>
      set (nx_strongly_connected_components nx g) = scc_of g ` set (dnodes g)"
    and scc_distinct: "wf_digraph g \<Longrightarrow> distinct (nx_strongly_connected_components nx g)"
    and topological_sort: "wf_digraph q \<Longrightarrow> acyclic (set (dedges q)) \<Longrightarrow>
      \<exists>xs. nx_topological_sort nx q = Inr xs \<and> topo_order q xs"
    and lexicographical_topological_sort: "wf_digraph q \<Longrightarrow> acyclic (set (dedges q)) \<Longrightarrow>
      \<exists>xs. nx_lexicographical_topological_sort nx q = Inr xs \<and> topo_order q xs"
    and descendants: "wf_digraph q \<Longrightarrow> c \<in> set (dnodes q) \<Longrightarrow>
      nx_descendants nx q c = Inr {d. (c, d) \<in> (set (dedges q))\<^sup>+ \<and> d \<noteq> c}"
    and ancestors: "wf_digraph q \<Longrightarrow> c \<in> set (dnodes q) \<Longrightarrow>
      nx_ancestors nx q c = Inr {d. (d, c) \<in> (set (dedges q))\<^sup>+ \<and> d \<noteq> c}"
begin

lemma scc_member:
  assumes "wf_digraph g" and "c \<in> set (nx_strongly_connected_components nx g)" and "u \<in> c"
  shows "c = scc_of g u"
proof -
  obtain v where "c = scc_of g v"
    using assms(1,2) scc_set by blast
  with assms(3) show ?thesis
    by (auto simp: scc_of_def intro: rtrancl_trans)
qed

lemma scc_nonempty:
  assumes "wf_digraph g" and "c \<in> set (nx_strongly_connected_components nx g)"
  shows "c \<noteq> {}"
  using assms scc_set by (force simp: scc_of_def)

lemma scc_covers:
  assumes "wf_digraph g" and "v \<in> set (dnodes g)"
  shows "\<exists>c\<in>set (nx_strongly_connected_components nx g). v \<in> c"
  using assms scc_set by (force simp: scc_of_def)

lemma scc_nodes:
  assumes "wf_digraph g" and "c \<in> set (nx_strongly_connected_components nx g)"
  shows "c \<subseteq> set (dnodes g)"
  using assms scc_set by (force simp: scc_of_def)

lemma scc_finite:
  "wf_digraph g \<Longrightarrow> c \<in> set (nx_strongly_connected_components nx g) \<Longrightarrow> finite c"
  using scc_nodes finite_subset by blast

end

section \<open>A reference implementation\<close>

definition ref_scc :: "'a digraph \<Rightarrow> 'a set list" where
  "ref_scc g = remdups (map (\<lambda>v. set (filter (\<lambda>w. w = v \<or>
     ((v, w) \<in> (set (dedges g))\<^sup>+ \<and> (w, v) \<in> (set (dedges g))\<^sup>+)) (dnodes g))) (dnodes g))"

fun kahn :: "('a \<times> 'a) set \<Rightarrow> nat \<Rightarrow> 'a list \<Rightarrow> 'a list option" where
  "kahn E 0 xs = (if xs = [] then Some [] else None)"
| "kahn E (Suc n) xs = (if xs = [] then Some [] else
     case filter (\<lambda>x. \<forall>y\<in>set xs. (y, x) \<notin> E) xs of
       [] \<Rightarrow> None
     | x # _ \<Rightarrow> map_option (Cons x) (kahn E n (removeAll x xs)))"

definition ref_topo :: "'a digraph \<Rightarrow> 'a list \<Rightarrow> 'a list res" where
  "ref_topo g order = (case kahn (set (dedges g)) (length order) order of
     None \<Rightarrow> Inl (NetworkXError ''Graph contains a cycle'') | Some xs \<Rightarrow> Inr xs)"

definition ref_reach :: "('a \<times> 'a) set \<Rightarrow> 'a digraph \<Rightarrow> 'a \<Rightarrow> 'a set res" where
  "ref_reach E g c = (if c \<in> set (dnodes g)
     then Inr (set (filter (\<lambda>d. (c, d) \<in> E\<^sup>+ \<and> d \<noteq> c) (dnodes g)))
     else Inl (NetworkXError ''The node is not in the graph''))"

definition ref_networkx :: networkx_api where
  "ref_networkx = \<lparr>
     nx_strongly_connected_components = ref_scc,
     nx_topological_sort = (\<lambda>g. ref_topo g (dnodes g)),
     nx_lexicographical_topological_sort = (\<lambda>g. ref_topo g (sort (dnodes g))),
     nx_descendants = (\<lambda>g. ref_reach (set (dedges g)) g),
     nx_ancestors = (\<lambda>g. ref_reach (set (map prod.swap (dedges g))) g)\<rparr>"

lemma ref_scc_set: "set (ref_scc g) = scc_of g ` set (dnodes g)"
proof -
  have "set (filter (\<lambda>w. w = v \<or> ((v, w) \<in> (set (dedges g))\<^sup>+ \<and> (w, v) \<in> (set (dedges g))\<^sup>+)) (dnodes g))
        = scc_of g v" if "v \<in> set (dnodes g)" for v
    using that by (auto simp: scc_of_def rtrancl_eq_or_trancl)
  then show ?thesis by (simp add: ref_scc_def)
qed

lemma acyclic_source:
  assumes "acyclic E" and "finite E" and "xs \<noteq> []"
  shows "filter (\<lambda>x. \<forall>y\<in>set xs. (y, x) \<notin> E) xs \<noteq> []"
proof -
  have "wf E" using assms by (simp add: finite_acyclic_wf)
  moreover have "hd xs \<in> set xs" using assms(3) by simp
  ultimately obtain z where "z \<in> set xs" "\<And>y. (y, z) \<in> E \<Longrightarrow> y \<notin> set xs"
    by (rule wfE_min) blast
  then show ?thesis by (auto simp: filter_empty_conv)
qed

lemma kahn_sound:
  assumes "acyclic E" and "finite E" and "distinct xs" and "length xs \<le> n"
  shows "\<exists>ys. kahn E n xs = Some ys \<and> distinct ys \<and> set ys = set xs \<and> sorted_wrt (\<lambda>u v. (v, u) \<notin> E) ys"
  using assms(3,4)
proof (induction n arbitrary: xs)
  case (Suc n)
  show ?case
  proof (cases "xs = []")
    case False
    obtain x zs where f: "filter (\<lambda>x. \<forall>y\<in>set xs. (y, x) \<notin> E) xs = x # zs"
      using acyclic_source [OF assms(1,2) False] by (meson list.exhaust)
    then have "x \<in> set (filter (\<lambda>x. \<forall>y\<in>set xs. (y, x) \<notin> E) xs)" by simp
    then have x: "x \<in> set xs" "\<forall>y\<in>set xs. (y, x) \<notin> E" by auto
    have len: "length (removeAll x xs) \<le> n"
      using Suc.prems x(1) length_removeAll_less [OF x(1)] by simp
    obtain ys where ys: "kahn E n (removeAll x xs) = Some ys" "distinct ys"
      "set ys = set (removeAll x xs)" "sorted_wrt (\<lambda>u v. (v, u) \<notin> E) ys"
      using Suc.IH [OF distinct_removeAll [OF Suc.prems(1)] len] by blast
    have "kahn E (Suc n) xs = Some (x # ys)" using False f ys(1) by simp
    then show ?thesis using ys x by auto
  qed simp
qed simp

lemma ref_topo_order:
  assumes "wf_digraph g" and "acyclic (set (dedges g))" and "distinct order" and "set order = set (dnodes g)"
  shows "\<exists>xs. ref_topo g order = Inr xs \<and> topo_order g xs"
proof -
  obtain ys where "kahn (set (dedges g)) (length order) order = Some ys" "distinct ys"
    "set ys = set order" "sorted_wrt (\<lambda>u v. (v, u) \<notin> set (dedges g)) ys"
    using kahn_sound [OF assms(2) _ assms(3) order_refl] by auto
  then show ?thesis using assms(4) by (simp add: ref_topo_def topo_order_def)
qed

lemma trancl_in_nodes:
  "wf_digraph g \<Longrightarrow> (c, d) \<in> (set (dedges g))\<^sup>+ \<Longrightarrow> c \<in> set (dnodes g) \<and> d \<in> set (dnodes g)"
  by (meson tranclD tranclD2 wf_digraph_edgeD)

lemma trancl_swap: "(c, d) \<in> (set (map prod.swap es))\<^sup>+ \<longleftrightarrow> (d, c) \<in> (set es)\<^sup>+"
proof -
  have "set (map prod.swap es) = (set es)\<inverse>" by auto
  then show ?thesis by (simp add: trancl_converse)
qed

interpretation refnx: networkx ref_networkx
proof (unfold_locales, goal_cases)
  case (1 g) then show ?case by (simp add: ref_networkx_def ref_scc_set)
next
  case (2 g) then show ?case by (simp add: ref_networkx_def ref_scc_def)
next
  case (3 q) then show ?case by (auto simp: ref_networkx_def wf_digraph_def intro!: ref_topo_order)
next
  case (4 q) then show ?case by (auto simp: ref_networkx_def wf_digraph_def intro!: ref_topo_order)
next
  case (5 q c) then show ?case
    by (auto simp: ref_networkx_def ref_reach_def dest: trancl_in_nodes)
next
  case (6 q c)
  then have "{d \<in> set (dnodes q). (c, d) \<in> (set (map prod.swap (dedges q)))\<^sup>+ \<and> d \<noteq> c} =
      {d. (d, c) \<in> (set (dedges q))\<^sup>+ \<and> d \<noteq> c}"
    unfolding trancl_swap by (auto dest: trancl_in_nodes)
  with 6 show ?case by (simp add: ref_networkx_def ref_reach_def)
qed

end
