(* ===== verification/Json_Text.thy ===== *)
theory Json_Text
  imports MWF_Prelude
begin

text \<open>
  The part of \<open>json.dumps\<close> that the stored identities use: strings, arrays and objects, with or
  without \<open>ensure_ascii\<close>, and with the two separator settings of the code. Characters stand for
  the code points 0 to 255. The text of a value is decodable, so equal texts mean equal values.
\<close>

datatype json = JStr string | JArr "json list" | JObj "(string \<times> json) list"

record json_style =
  ensure_ascii :: bool
  item_sep :: string
  key_sep :: string

definition default_style :: json_style where
  "default_style = \<lparr>ensure_ascii = True, item_sep = '', '', key_sep = '': ''\<rparr>"

definition compact_style :: json_style where
  "compact_style = \<lparr>ensure_ascii = False, item_sep = '','', key_sep = '':''\<rparr>"

definition hex_digit :: "nat \<Rightarrow> char" where
  "hex_digit n = ''0123456789abcdef'' ! n"

definition quote_char :: char where "quote_char = CHR 0x22"
definition backslash :: char where "backslash = CHR 0x5C"

definition json_char :: "bool \<Rightarrow> char \<Rightarrow> string" where
  "json_char ascii c =
     (if c = quote_char \<or> c = backslash then [backslash, c]
      else if c = CHR 0x0A then [backslash, CHR ''n'']
      else if c = CHR 0x0D then [backslash, CHR ''r'']
      else if c = CHR 0x09 then [backslash, CHR ''t'']
      else if c = CHR 0x0C then [backslash, CHR ''f'']
      else if c = CHR 0x08 then [backslash, CHR ''b'']
      else let n = of_char c :: nat in
        if n < 32 \<or> (ascii \<and> 126 < n)
        then [backslash, CHR ''u'', CHR ''0'', CHR ''0'', hex_digit (n div 16), hex_digit (n mod 16)]
        else [c])"

definition json_string :: "bool \<Rightarrow> string \<Rightarrow> string" where
  "json_string ascii s = [quote_char] @ concat (map (json_char ascii) s) @ [quote_char]"

fun json_join :: "string \<Rightarrow> string list \<Rightarrow> string" where
  "json_join sep [] = []"
| "json_join sep [x] = x"
| "json_join sep (x # y # xs) = x @ sep @ json_join sep (y # xs)"

fun json_dumps :: "json_style \<Rightarrow> json \<Rightarrow> string" where
  "json_dumps st (JStr s) = json_string (ensure_ascii st) s"
| "json_dumps st (JArr xs) = ''['' @ json_join (item_sep st) (map (json_dumps st) xs) @ '']''"
| "json_dumps st (JObj kvs) = ''{'' @ json_join (item_sep st)
     (map (\<lambda>(k, v). json_string (ensure_ascii st) k @ key_sep st @ json_dumps st v) kvs) @ ''}''"

section \<open>Texts are decodable\<close>

text \<open>\<open>decodable f\<close>: the text of a value ends where it ends, whatever follows.\<close>

definition decodable :: "('a \<Rightarrow> string) \<Rightarrow> 'a set \<Rightarrow> bool" where
  "decodable f A \<longleftrightarrow> (\<forall>x\<in>A. \<forall>y\<in>A. \<forall>r s. f x @ r = f y @ s \<longrightarrow> x = y \<and> r = s)"

lemma decodableD: "decodable f A \<Longrightarrow> x \<in> A \<Longrightarrow> y \<in> A \<Longrightarrow> f x @ r = f y @ s \<Longrightarrow> x = y \<and> r = s"
  unfolding decodable_def by blast

lemma decodableI:
  "(\<And>x y r s. x \<in> A \<Longrightarrow> y \<in> A \<Longrightarrow> f x @ r = f y @ s \<Longrightarrow> x = y \<and> r = s) \<Longrightarrow> decodable f A"
  unfolding decodable_def by blast

lemma hex_digit_inject: "m < 16 \<Longrightarrow> n < 16 \<Longrightarrow> hex_digit m = hex_digit n \<longleftrightarrow> m = n"
proof -
  have "distinct ''0123456789abcdef''" by simp
  then show "m < 16 \<Longrightarrow> n < 16 \<Longrightarrow> hex_digit m = hex_digit n \<longleftrightarrow> m = n"
    unfolding hex_digit_def by (subst nth_eq_iff_index_eq) auto
qed

lemma of_char_nibbles:
  assumes "(of_char c :: nat) div 16 = of_char d div 16" and "(of_char c :: nat) mod 16 = of_char d mod 16"
  shows "c = d"
proof -
  have "(of_char c :: nat) = of_char d"
    using assms by (metis div_mult_mod_eq)
  then show ?thesis by (metis char_of_char)
qed

lemma of_char_div_16: "(of_char c :: nat) div 16 < 16"
  using nat_of_char_less_256 [of c] by (simp only: less_mult_imp_div_less)

lemma json_char_not_quote: "hd (json_char b c) \<noteq> quote_char \<and> json_char b c \<noteq> []"
  by (auto simp: json_char_def Let_def quote_char_def backslash_def)

lemma json_char_decodable: "decodable (json_char b) UNIV"
proof -
  have *: "x = y \<and> r = s" if "json_char b x @ r = json_char b y @ s" for x y r s
    using that hex_digit_inject [OF of_char_div_16 of_char_div_16, of x y]
      hex_digit_inject [of "of_char x mod 16" "of_char y mod 16"]
    by (auto simp: json_char_def Let_def quote_char_def backslash_def
          split: if_splits intro: of_char_nibbles)
  show ?thesis by (rule decodableI, rule *)
qed

lemma json_string_decodable: "decodable (json_string b) UNIV"
proof -
  have *: "x = y \<and> r = s"
    if "concat (map (json_char b) x) @ quote_char # r = concat (map (json_char b) y) @ quote_char # s"
    for x y r s
    using that
  proof (induction x arbitrary: y)
    case Nil
    then show ?case
      using json_char_not_quote [of b "hd y"]
      by (cases y; cases "json_char b (hd y)") auto
  next
    case (Cons c x)
    show ?case
    proof (cases y)
      case Nil
      with Cons.prems json_char_not_quote [of b c] show ?thesis
        by (cases "json_char b c") auto
    next
      case (Cons d z)
      have "c = d \<and> concat (map (json_char b) x) @ quote_char # r
          = concat (map (json_char b) z) @ quote_char # s"
        using decodableD [OF json_char_decodable [of b], of c d
            "concat (map (json_char b) x) @ quote_char # r" "concat (map (json_char b) z) @ quote_char # s"]
          Cons.prems Cons by (simp only: list.map concat.simps append_assoc UNIV_I simp_thms)
      then have "c = d" and "x = z \<and> r = s" using Cons.IH [of z] by simp_all
      with Cons show ?thesis by simp
    qed
  qed
  show ?thesis
    by (rule decodableI, rule *) (simp add: json_string_def)
qed

lemma json_join_Nil_iff: "(\<And>x. x \<in> set xs \<Longrightarrow> x \<noteq> []) \<Longrightarrow> json_join sep xs = [] \<longleftrightarrow> xs = []"
  by (induction sep xs rule: json_join.induct) auto

text \<open>
  A bracketed, separated list of decodable texts is decodable when no text starts with the closing
  bracket and the separator does not either.
\<close>

lemma json_join_decodable:
  assumes f: "decodable f A" and start: "\<And>x. x \<in> A \<Longrightarrow> f x \<noteq> [] \<and> hd (f x) \<noteq> close"
    and sep: "sep = a # sep'" "a \<noteq> close"
    and "set xs \<subseteq> A" and "set ys \<subseteq> A"
    and "json_join sep (map f xs) @ close # r = json_join sep (map f ys) @ close # s"
  shows "xs = ys \<and> r = s"
  using assms(5-7)
proof (induction xs arbitrary: ys)
  case Nil
  then show ?case
  proof (cases ys)
    case (Cons y zs)
    with Nil.prems start [of y] show ?thesis
      by (cases zs; cases "f y") auto
  qed simp
next
  case (Cons x xs)
  show ?case
  proof (cases ys)
    case Nil
    with Cons.prems start [of x] show ?thesis
      by (cases xs; cases "f x") auto
  next
    case ys: (Cons y zs)
    define t where "t = (\<lambda>us. if us = [] then [] else sep @ json_join sep (map f us))"
    have split: "json_join sep (map f (u # us)) = f u @ t us" for u us
      by (cases us) (auto simp: t_def)
    have "x = y \<and> t xs @ close # r = t zs @ close # s"
      using Cons.prems ys split by (intro decodableD [OF f]) auto
    moreover from this have "xs = zs \<and> r = s"
      using Cons.IH [of zs] Cons.prems ys sep by (auto simp: t_def split: if_splits)
    ultimately show ?thesis using ys by simp
  qed
qed

lemma json_string_hd: "json_string b s \<noteq> [] \<and> hd (json_string b s) = quote_char"
  by (simp add: json_string_def)

text \<open>The two shapes the code stores: an array of strings, and an array of pairs of strings.\<close>

definition string_array :: "json_style \<Rightarrow> string list \<Rightarrow> string" where
  "string_array st xs = json_dumps st (JArr (map JStr xs))"

definition pair_array :: "json_style \<Rightarrow> (string \<times> string) list \<Rightarrow> string" where
  "pair_array st xs = json_dumps st (JArr (map (\<lambda>(a, b). JArr [JStr a, JStr b]) xs))"

definition good_style :: "json_style \<Rightarrow> bool" where
  "good_style st \<longleftrightarrow> item_sep st \<noteq> [] \<and> hd (item_sep st) = CHR '',''"

lemma good_styles [simp]: "good_style default_style" "good_style compact_style"
  by (simp_all add: good_style_def default_style_def compact_style_def)

lemma string_array_decodable:
  assumes "good_style st" shows "decodable (string_array st) UNIV"
proof -
  have *: "xs = ys \<and> r = s" if "string_array st xs @ r = string_array st ys @ s" for xs ys r s
  proof (rule json_join_decodable)
    show "decodable (json_string (ensure_ascii st)) UNIV" by (rule json_string_decodable)
    show "\<And>x. x \<in> UNIV \<Longrightarrow> json_string (ensure_ascii st) x \<noteq> [] \<and> hd (json_string (ensure_ascii st) x) \<noteq> CHR '']''"
      by (simp add: json_string_hd quote_char_def)
    show "item_sep st = CHR '','' # tl (item_sep st)"
      using assms by (metis good_style_def list.collapse)
    show "json_join (item_sep st) (map (json_string (ensure_ascii st)) xs) @ CHR '']'' # r =
          json_join (item_sep st) (map (json_string (ensure_ascii st)) ys) @ CHR '']'' # s"
      using that by (simp add: string_array_def comp_def)
  qed simp_all
  show ?thesis by (rule decodableI, rule *)
qed

lemma pair_array_decodable:
  assumes "good_style st" shows "decodable (pair_array st) UNIV"
proof -
  let ?f = "\<lambda>(a, b). string_array st [a, b]"
  have dec: "decodable ?f UNIV"
    unfolding decodable_def using decodableD [OF string_array_decodable [OF assms]] by fastforce
  have *: "xs = ys \<and> r = s" if "pair_array st xs @ r = pair_array st ys @ s" for xs ys r s
  proof (rule json_join_decodable [OF dec])
    show "\<And>x. x \<in> UNIV \<Longrightarrow> ?f x \<noteq> [] \<and> hd (?f x) \<noteq> CHR '']''"
      by (auto simp: string_array_def)
    show "item_sep st = CHR '','' # tl (item_sep st)"
      using assms by (metis good_style_def list.collapse)
    show "json_join (item_sep st) (map ?f xs) @ CHR '']'' # r = json_join (item_sep st) (map ?f ys) @ CHR '']'' # s"
      using that by (simp add: pair_array_def string_array_def comp_def case_prod_unfold)
  qed simp_all
  show ?thesis by (rule decodableI, rule *)
qed

lemma string_array_inject: "good_style st \<Longrightarrow> string_array st xs = string_array st ys \<longleftrightarrow> xs = ys"
  using decodableD [OF string_array_decodable UNIV_I UNIV_I, of st xs "[]" ys "[]"] by auto

lemma pair_array_inject: "good_style st \<Longrightarrow> pair_array st xs = pair_array st ys \<longleftrightarrow> xs = ys"
  using decodableD [OF pair_array_decodable UNIV_I UNIV_I, of st xs "[]" ys "[]"] by auto

end
