(* ===== verification/Topology.thy ===== *)
theory Topology
  imports Nx_Digraph Json_Text
begin

text \<open>
  Components and quotient selections (\<open>topology.py\<close>, \<open>component_identity.py\<close>): the Hoeflein
  graph with its reversed autostart arcs, its strongly connected components, their keys, the quotient
  graph, and the selections of components that the commands and the scheduler use. Proved: the
  components partition the nodes, the quotient is acyclic, so every topological sort the code asks
  for succeeds, and the selections are exactly the reachability sets they are documented to be.
\<close>

section \<open>Component identity\<close>

definition component_key :: "node_name set \<Rightarrow> component" where
  "component_key members = sorted_list_of_set members"

definition encode_component_key :: "node_name set \<Rightarrow> string" where
  "encode_component_key members = json_dumps default_style (JArr (map JStr (component_key members)))"

section \<open>Component calculations\<close>

record topology =
  graph_obj :: "node_name digraph"
  autostart_edges :: "(node_name \<times> node_name) list"

record topology_snapshot =
  shape_json :: string
  snapshot_components :: "component list"

definition hoeflein_graph :: "topology \<Rightarrow> node_name digraph" where
  "hoeflein_graph t = foldl (\<lambda>g (start, end). if has_edge g start end then add_edge g end start else g)
     (graph_obj t) (autostart_edges t)"

definition hoeflein_components :: "networkx_api \<Rightarrow> topology \<Rightarrow> node_name set list" where
  "hoeflein_components nx t = nx_strongly_connected_components nx (hoeflein_graph t)"

definition graph_shape :: "topology \<Rightarrow> string" where
  "graph_shape t = json_dumps compact_style (JObj [
     (''nodes'', JArr (map JStr (sort (dnodes (graph_obj t))))),
     (''edges'', JArr (map (\<lambda>(a, b). JArr [JStr a, JStr b]) (sort (dedges (graph_obj t))))),
     (''autostart_edges'', JArr (map (\<lambda>(a, b). JArr [JStr a, JStr b])
        (sorted_set (filter (\<lambda>(start, end). has_edge (graph_obj t) start end) (autostart_edges t)))))])"

definition snapshot :: "networkx_api \<Rightarrow> topology \<Rightarrow> topology_snapshot" where
  "snapshot nx t = \<lparr>shape_json = graph_shape t,
     snapshot_components = sort (map component_key (hoeflein_components nx t))\<rparr>"

definition component_for :: "networkx_api \<Rightarrow> topology \<Rightarrow> node_name \<Rightarrow> node_name set" where
  "component_for nx t node = (case find (\<lambda>c. node \<in> c) (hoeflein_components nx t) of
     Some c \<Rightarrow> c | None \<Rightarrow> {node})"

definition component_id :: "networkx_api \<Rightarrow> topology \<Rightarrow> node_name \<Rightarrow> component" where
  "component_id nx t node = component_key (component_for nx t node)"

text \<open>
  \<open>component_map\<close>: the components and the index of each node, a dict comprehension in which a
  later component would overwrite an earlier one.
\<close>

definition component_map :: "networkx_api \<Rightarrow> topology \<Rightarrow> node_name set list \<times> (node_name \<Rightarrow> nat option)" where
  "component_map nx t = (let components = hoeflein_components nx t in
     (components, \<lambda>node. find (\<lambda>i. node \<in> components ! i) (rev [0..<length components])))"

definition dag_endpoint :: "node_name set list \<times> (node_name \<Rightarrow> nat option) \<Rightarrow> node_name \<Rightarrow> component res" where
  "dag_endpoint m node = (case snd m node of
     None \<Rightarrow> Inl (KeyError node) | Some i \<Rightarrow> Inr (component_key (fst m ! i)))"

fun dag_edges :: "node_name set list \<times> (node_name \<Rightarrow> nat option) \<Rightarrow> (node_name \<times> node_name) list \<Rightarrow>
    component digraph \<Rightarrow> component digraph res" where
  "dag_edges m [] dag = Inr dag"
| "dag_edges m ((start, end) # es) dag =
     res_bind (dag_endpoint m start) (\<lambda>start_key.
     res_bind (dag_endpoint m end) (\<lambda>end_key.
       dag_edges m es (if start_key \<noteq> end_key then add_edge dag start_key end_key else dag)))"

definition component_dag :: "networkx_api \<Rightarrow> topology \<Rightarrow> component digraph res" where
  "component_dag nx t = (let m = component_map nx t in
     dag_edges m (dedges (graph_obj t)) (foldl add_node empty_digraph (map component_key (fst m))))"

definition component_descendants :: "networkx_api \<Rightarrow> topology \<Rightarrow> node_name set \<Rightarrow> component list res" where
  "component_descendants nx t component = (let key = component_key component in
     res_bind (component_dag nx t) (\<lambda>dag.
     res_bind (nx_descendants nx dag key) (\<lambda>descendants.
     res_bind (nx_topological_sort nx dag) (\<lambda>order.
       Inr (filter (\<lambda>item. item \<in> descendants) order)))))"

definition component_interval :: "networkx_api \<Rightarrow> topology \<Rightarrow> node_name \<Rightarrow> node_name \<Rightarrow> component list res" where
  "component_interval nx t start_node end_node =
     res_bind (raise_if (start_node \<notin> set (dnodes (graph_obj t))) (InvalidGraphError ''Unknown interval endpoint node'')) (\<lambda>_.
     res_bind (raise_if (end_node \<notin> set (dnodes (graph_obj t))) (InvalidGraphError ''Unknown interval endpoint node'')) (\<lambda>_.
     res_bind (component_dag nx t) (\<lambda>dag.
     let start = component_id nx t start_node; end = component_id nx t end_node in
     res_bind (nx_descendants nx dag start) (\<lambda>descendants.
     res_bind (raise_if (end \<notin> descendants) (InvalidGraphError ''End component must be a strict directed descendant'')) (\<lambda>_.
     res_bind (nx_ancestors nx dag end) (\<lambda>ancestors.
     let selected = (({start} \<union> descendants) \<inter> ({end} \<union> ancestors)) - {end} in
     nx_lexicographical_topological_sort nx (subgraph dag selected)))))))"

definition component_is_cyclic :: "topology \<Rightarrow> node_name set \<Rightarrow> bool" where
  "component_is_cyclic t component \<longleftrightarrow> card component > 1 \<or>
     (\<exists>node\<in>component. has_edge (graph_obj t) node node)"

definition predecessors :: "node_name digraph \<Rightarrow> node_name \<Rightarrow> node_name set" where
  "predecessors g node = set (map fst (filter (\<lambda>(u, v). v = node) (dedges g)))"

text \<open>\<open>graph.predecessors\<close> raises for a node that is not in the graph.\<close>

definition component_predecessors :: "topology \<Rightarrow> node_name set \<Rightarrow> node_name set res" where
  "component_predecessors t component =
     (if component \<subseteq> set (dnodes (graph_obj t))
      then Inr ((\<Union>node\<in>component. predecessors (graph_obj t) node) - component)
      else Inl (NetworkXError ''The node is not in the digraph''))"

definition component_predecessor_components :: "networkx_api \<Rightarrow> topology \<Rightarrow> node_name set \<Rightarrow> component set res" where
  "component_predecessor_components nx t component =
     res_bind (component_predecessors t component) (\<lambda>nodes. Inr (component_id nx t ` nodes))"

definition execution_components :: "networkx_api \<Rightarrow> topology \<Rightarrow> node_name list option \<Rightarrow> component list res" where
  "execution_components nx t nodes =
     (let selected = set (case nodes of None \<Rightarrow> dnodes (graph_obj t) | Some ns \<Rightarrow> ns) in
      if selected = {} then Inr []
      else res_bind (component_dag nx t) (\<lambda>dag.
           res_bind (nx_topological_sort nx dag) (\<lambda>order.
             Inr (filter (\<lambda>component. set component \<inter> selected \<noteq> {}) order))))"

section \<open>The Hoeflein graph\<close>

definition wf_topology :: "topology \<Rightarrow> bool" where
  "wf_topology t \<longleftrightarrow> wf_digraph (graph_obj t)"

lemma hoeflein_step:
  fixes g :: "node_name digraph" and u v :: node_name
  assumes "wf_digraph g"
  defines "g' \<equiv> if has_edge g u v then add_edge g v u else g"
  shows "wf_digraph g'" and "set (dnodes g') = set (dnodes g)"
    and "set (dedges g') = set (dedges g) \<union> (if (u, v) \<in> set (dedges g) then {(v, u)} else {})"
  using assms by (auto simp: has_edge_def digraph_simps dest: wf_digraph_edgeD)

lemma hoeflein_fold:
  fixes arcs :: "(node_name \<times> node_name) list"
  defines "step \<equiv> \<lambda>g (start, end). if has_edge g start end then add_edge g end start else g"
  shows "wf_digraph g \<Longrightarrow> wf_digraph (foldl step g arcs) \<and>
         set (dnodes (foldl step g arcs)) = set (dnodes g) \<and>
         set (dedges (foldl step g arcs)) = set (dedges g) \<union>
           {(v, u). (u, v) \<in> set arcs \<and> (u, v) \<in> set (dedges g)}"
proof (induction arcs arbitrary: g)
  case (Cons a arcs)
  obtain u v where a: "a = (u, v)" by force
  have eq: "step g a = (if has_edge g u v then add_edge g v u else g)"
    by (simp add: step_def a)
  note step = hoeflein_step [OF Cons.prems, of u v, folded eq]
  show ?case
    using Cons.IH [OF step(1)] by (auto simp: step(2,3) simp flip: a split: if_splits) (auto simp: a)
qed auto

lemma hoeflein_graph_facts:
  assumes "wf_topology t"
  shows wf_hoeflein_graph: "wf_digraph (hoeflein_graph t)"
    and dnodes_hoeflein_graph: "set (dnodes (hoeflein_graph t)) = set (dnodes (graph_obj t))"
    and dedges_hoeflein_graph: "set (dedges (hoeflein_graph t)) = set (dedges (graph_obj t)) \<union>
      {(v, u). (u, v) \<in> set (autostart_edges t) \<and> (u, v) \<in> set (dedges (graph_obj t))}"
  using hoeflein_fold [of "graph_obj t" "autostart_edges t"] assms
  by (simp_all add: wf_topology_def hoeflein_graph_def)

section \<open>Components partition the nodes\<close>

abbreviation nodes_of :: "topology \<Rightarrow> node_name set" where
  "nodes_of t \<equiv> set (dnodes (graph_obj t))"

abbreviation raw_edges :: "topology \<Rightarrow> (node_name \<times> node_name) set" where
  "raw_edges t \<equiv> set (dedges (graph_obj t))"

abbreviation hedges :: "topology \<Rightarrow> (node_name \<times> node_name) set" where
  "hedges t \<equiv> set (dedges (hoeflein_graph t))"

context networkx
begin

abbreviation comps :: "topology \<Rightarrow> node_name set set" where
  "comps t \<equiv> set (hoeflein_components nx t)"

lemma comps_member:
  "wf_topology t \<Longrightarrow> c \<in> comps t \<Longrightarrow> u \<in> c \<Longrightarrow> c = scc_of (hoeflein_graph t) u"
  unfolding hoeflein_components_def by (rule scc_member [OF wf_hoeflein_graph])

lemma comps_unique:
  "wf_topology t \<Longrightarrow> c \<in> comps t \<Longrightarrow> d \<in> comps t \<Longrightarrow> u \<in> c \<Longrightarrow> u \<in> d \<Longrightarrow> c = d"
  using comps_member by blast

lemma comps_subset: "wf_topology t \<Longrightarrow> c \<in> comps t \<Longrightarrow> c \<subseteq> nodes_of t"
  unfolding hoeflein_components_def
  using scc_nodes [OF wf_hoeflein_graph, of t c] dnodes_hoeflein_graph by blast

lemma comps_finite: "wf_topology t \<Longrightarrow> c \<in> comps t \<Longrightarrow> finite c"
  using comps_subset finite_subset by blast

lemma comps_nonempty: "wf_topology t \<Longrightarrow> c \<in> comps t \<Longrightarrow> c \<noteq> {}"
  unfolding hoeflein_components_def by (rule scc_nonempty [OF wf_hoeflein_graph])

lemma component_for_comps:
  assumes "wf_topology t" and "v \<in> nodes_of t"
  shows "component_for nx t v \<in> comps t \<and> v \<in> component_for nx t v"
proof -
  have "\<exists>c\<in>comps t. v \<in> c"
    unfolding hoeflein_components_def
    using assms by (intro scc_covers [OF wf_hoeflein_graph]) (simp_all add: dnodes_hoeflein_graph)
  then have "find (\<lambda>c. v \<in> c) (hoeflein_components nx t) \<noteq> None"
    by (auto simp: find_None_iff)
  then obtain c where c: "find (\<lambda>c. v \<in> c) (hoeflein_components nx t) = Some c" by blast
  then have "c \<in> comps t" "v \<in> c" by (auto simp: find_Some_iff)
  with c show ?thesis by (simp add: component_for_def)
qed

lemma component_for_eq:
  assumes "wf_topology t" and "c \<in> comps t" and "v \<in> c"
  shows "component_for nx t v = c"
  using assms comps_subset component_for_comps comps_unique by (meson subsetD)

lemma component_for_scc:
  assumes "wf_topology t" and "v \<in> nodes_of t"
  shows "component_for nx t v = scc_of (hoeflein_graph t) v"
  using component_for_comps [OF assms] comps_member assms(1) by blast

lemma component_key_inj:
  assumes "wf_topology t" and "c \<in> comps t" and "d \<in> comps t" and "component_key c = component_key d"
  shows "c = d"
  using assms comps_finite unfolding component_key_def
  by (metis set_sorted_list_of_set)

lemma set_component_key: "wf_topology t \<Longrightarrow> c \<in> comps t \<Longrightarrow> set (component_key c) = c"
  using comps_finite by (simp add: component_key_def)

lemma component_map_index:
  assumes "wf_topology t" and "v \<in> nodes_of t"
  shows "dag_endpoint (component_map nx t) v = Inr (component_id nx t v)"
proof -
  let ?cs = "hoeflein_components nx t"
  have "component_for nx t v \<in> set ?cs" "v \<in> component_for nx t v"
    using component_for_comps [OF assms] by auto
  then have "find (\<lambda>i. v \<in> ?cs ! i) (rev [0..<length ?cs]) \<noteq> None"
    by (auto simp: find_None_iff in_set_conv_nth)
  then obtain i where i: "find (\<lambda>i. v \<in> ?cs ! i) (rev [0..<length ?cs]) = Some i" by blast
  then have "i < length ?cs" "v \<in> ?cs ! i"
    by (auto simp: find_Some_iff rev_nth)
  then have "?cs ! i = component_for nx t v"
    using component_for_eq [OF assms(1)] nth_mem by metis
  then show ?thesis
    by (simp add: dag_endpoint_def component_map_def Let_def i component_id_def)
qed

end

section \<open>The quotient graph\<close>

definition quotient_edges :: "networkx_api \<Rightarrow> topology \<Rightarrow> (component \<times> component) set" where
  "quotient_edges nx t = {(component_id nx t u, component_id nx t v) |u v.
     (u, v) \<in> raw_edges t \<and> component_id nx t u \<noteq> component_id nx t v}"

lemma foldl_add_node:
  "wf_digraph g \<Longrightarrow> wf_digraph (foldl add_node g ks) \<and> dedges (foldl add_node g ks) = dedges g \<and>
     set (dnodes (foldl add_node g ks)) = set (dnodes g) \<union> set ks"
  by (induction ks arbitrary: g) (auto simp: digraph_simps)

lemma foldl_add_edge:
  fixes ps :: "('a \<times> 'a) list"
  defines "step \<equiv> \<lambda>d (a, b). if a \<noteq> b then add_edge d a b else d"
  shows "wf_digraph g \<Longrightarrow> set ps \<subseteq> set (dnodes g) \<times> set (dnodes g) \<Longrightarrow>
     wf_digraph (foldl step g ps) \<and> set (dnodes (foldl step g ps)) = set (dnodes g) \<and>
     set (dedges (foldl step g ps)) = set (dedges g) \<union> {(a, b) \<in> set ps. a \<noteq> b}"
proof (induction ps arbitrary: g)
  case (Cons p ps)
  obtain a b where p: "p = (a, b)" by force
  let ?g = "step g p"
  have wf: "wf_digraph ?g" using Cons.prems(1) by (simp add: step_def p)
  have nodes: "set (dnodes ?g) = set (dnodes g)"
    using Cons.prems(2) by (auto simp: step_def p digraph_simps)
  have edges: "set (dedges ?g) = set (dedges g) \<union> (if a \<noteq> b then {(a, b)} else {})"
    by (auto simp: step_def p digraph_simps)
  have "set ps \<subseteq> set (dnodes ?g) \<times> set (dnodes ?g)" using Cons.prems(2) nodes by auto
  from Cons.IH [OF wf this] show ?case unfolding nodes edges by (auto simp: p)
qed auto

context networkx
begin

lemma dag_edges_foldl:
  assumes "wf_topology t" and "set es \<subseteq> raw_edges t"
  shows "dag_edges (component_map nx t) es dag =
     Inr (foldl (\<lambda>d (a, b). if a \<noteq> b then add_edge d a b else d) dag
       (map (\<lambda>(u, v). (component_id nx t u, component_id nx t v)) es))"
  using assms(2)
proof (induction es arbitrary: dag)
  case (Cons e es)
  obtain u v where e: "e = (u, v)" by force
  then have "u \<in> nodes_of t" "v \<in> nodes_of t"
    using Cons.prems(1) assms(1) by (auto simp: wf_topology_def dest: wf_digraph_edgeD)
  then show ?case
    using Cons by (simp add: e component_map_index [OF assms(1)])
qed simp

lemma component_keys_eq:
  assumes "wf_topology t"
  shows "component_key ` comps t = component_id nx t ` nodes_of t"
proof
  show "component_key ` comps t \<subseteq> component_id nx t ` nodes_of t"
  proof
    fix k assume "k \<in> component_key ` comps t"
    then obtain c where c: "c \<in> comps t" "k = component_key c" by blast
    then obtain v where v: "v \<in> c" using comps_nonempty [OF assms] by blast
    then have "v \<in> nodes_of t" "component_id nx t v = k"
      using c comps_subset [OF assms c(1)] component_for_eq [OF assms c(1) v]
      by (auto simp: component_id_def)
    then show "k \<in> component_id nx t ` nodes_of t" by blast
  qed
  show "component_id nx t ` nodes_of t \<subseteq> component_key ` comps t"
    using component_for_comps [OF assms] by (auto simp: component_id_def)
qed

lemma component_dag_spec:
  assumes "wf_topology t"
  shows "\<exists>dag. component_dag nx t = Inr dag \<and> wf_digraph dag \<and>
     set (dnodes dag) = component_id nx t ` nodes_of t \<and> set (dedges dag) = quotient_edges nx t"
proof -
  let ?g = "foldl add_node empty_digraph (map component_key (hoeflein_components nx t))"
  let ?ps = "map (\<lambda>(u, v). (component_id nx t u, component_id nx t v)) (dedges (graph_obj t))"
  let ?dag = "foldl (\<lambda>d (a, b). if a \<noteq> b then add_edge d a b else d) ?g ?ps"
  have g: "wf_digraph ?g" "dedges ?g = []" "set (dnodes ?g) = component_id nx t ` nodes_of t"
    using foldl_add_node [of empty_digraph "map component_key (hoeflein_components nx t)"]
      component_keys_eq [OF assms] by (auto simp: digraph_simps)
  have "set ?ps \<subseteq> set (dnodes ?g) \<times> set (dnodes ?g)"
    using assms unfolding g(3) by (auto simp: wf_topology_def dest!: wf_digraph_edgeD)
  from foldl_add_edge [OF g(1) this] have dag: "wf_digraph ?dag" "set (dnodes ?dag) = set (dnodes ?g)"
    "set (dedges ?dag) = {(a, b) \<in> set ?ps. a \<noteq> b}"
    unfolding g(2) by auto
  have "component_dag nx t = Inr ?dag"
    using dag_edges_foldl [OF assms order_refl] by (simp add: component_dag_def Let_def) (simp add: component_map_def Let_def)
  moreover have "set (dedges ?dag) = quotient_edges nx t"
    unfolding dag(3) by (auto simp: quotient_edges_def)
  ultimately show ?thesis using dag g(3) by simp
qed

lemma component_id_eq_iff:
  assumes "wf_topology t" and "u \<in> nodes_of t" and "v \<in> nodes_of t"
  shows "component_id nx t u = component_id nx t v \<longleftrightarrow> (u, v) \<in> (hedges t)\<^sup>* \<and> (v, u) \<in> (hedges t)\<^sup>*"
proof -
  have "component_id nx t u = component_id nx t v \<longleftrightarrow> component_for nx t u = component_for nx t v"
    using component_key_inj [OF assms(1)] component_for_comps assms by (auto simp: component_id_def)
  also have "\<dots> \<longleftrightarrow> v \<in> component_for nx t u"
    using component_for_eq [OF assms(1)] component_for_comps assms by metis
  also have "\<dots> \<longleftrightarrow> (u, v) \<in> (hedges t)\<^sup>* \<and> (v, u) \<in> (hedges t)\<^sup>*"
    using assms by (simp add: component_for_scc scc_of_def dnodes_hoeflein_graph)
  finally show ?thesis .
qed

lemma quotient_edge_lifts:
  assumes "wf_topology t" and "(a, b) \<in> quotient_edges nx t"
    and "u \<in> nodes_of t" and "v \<in> nodes_of t" and "component_id nx t u = a" and "component_id nx t v = b"
  shows "(u, v) \<in> (hedges t)\<^sup>*"
proof -
  obtain x y where xy: "(x, y) \<in> raw_edges t" "a = component_id nx t x" "b = component_id nx t y"
    using assms(2) unfolding quotient_edges_def by blast
  then have n: "x \<in> nodes_of t" "y \<in> nodes_of t"
    using assms(1) by (auto simp: wf_topology_def dest: wf_digraph_edgeD)
  have "(u, x) \<in> (hedges t)\<^sup>*" "(y, v) \<in> (hedges t)\<^sup>*"
    using component_id_eq_iff [OF assms(1)] assms(3-6) xy n by simp_all
  moreover have "(x, y) \<in> hedges t" using xy dedges_hoeflein_graph [OF assms(1)] by blast
  ultimately show ?thesis by (meson r_into_rtrancl rtrancl_trans)
qed

lemma quotient_path_lifts:
  assumes "wf_topology t" and "(a, b) \<in> (quotient_edges nx t)\<^sup>+"
  shows "\<forall>u\<in>nodes_of t. \<forall>v\<in>nodes_of t. component_id nx t u = a \<longrightarrow> component_id nx t v = b \<longrightarrow>
    (u, v) \<in> (hedges t)\<^sup>*"
  using assms(2)
proof (induction rule: trancl_induct)
  case (base b)
  then show ?case using quotient_edge_lifts [OF assms(1)] by blast
next
  case (step b c)
  then obtain x where "x \<in> nodes_of t" "b = component_id nx t x"
    using assms(1) unfolding quotient_edges_def wf_topology_def by (auto dest: wf_digraph_edgeD)
  then show ?case
    using step.IH quotient_edge_lifts [OF assms(1) step.hyps(2)]
    by (blast intro: rtrancl_trans [of _ x])
qed

lemma quotient_acyclic:
  assumes "wf_topology t"
  shows "acyclic (quotient_edges nx t)"
proof (rule acyclicI, intro allI notI)
  fix a assume "(a, a) \<in> (quotient_edges nx t)\<^sup>+"
  then obtain b where ab: "(a, b) \<in> quotient_edges nx t" and ba: "(b, a) \<in> (quotient_edges nx t)\<^sup>*"
    by (meson tranclD)
  obtain u v where uv: "(u, v) \<in> raw_edges t" "a = component_id nx t u" "b = component_id nx t v" "a \<noteq> b"
    using ab unfolding quotient_edges_def by blast
  have n: "u \<in> nodes_of t" "v \<in> nodes_of t"
    using uv(1) assms by (auto simp: wf_topology_def dest: wf_digraph_edgeD)
  have "(b, a) \<in> (quotient_edges nx t)\<^sup>+" using ba uv(4) by (simp add: rtrancl_eq_or_trancl)
  then have "(v, u) \<in> (hedges t)\<^sup>*" using quotient_path_lifts [OF assms] uv n by blast
  moreover have "(u, v) \<in> (hedges t)\<^sup>*" using uv(1) dedges_hoeflein_graph [OF assms] by blast
  ultimately show False using component_id_eq_iff [OF assms n] uv by simp
qed

section \<open>Selections\<close>

lemma topo_filter:
  assumes "topo_order g xs"
  shows "distinct (filter P xs) \<and> set (filter P xs) = {x \<in> set (dnodes g). P x} \<and>
     sorted_wrt (\<lambda>u v. (v, u) \<notin> set (dedges g)) (filter P xs)"
  using assms by (auto simp: topo_order_def intro: sorted_wrt_filter)

lemma component_dag_sorted:
  assumes "wf_topology t"
  shows "\<exists>dag order. component_dag nx t = Inr dag \<and> wf_digraph dag \<and>
     set (dnodes dag) = component_id nx t ` nodes_of t \<and> set (dedges dag) = quotient_edges nx t \<and>
     nx_topological_sort nx dag = Inr order \<and> topo_order dag order"
  using component_dag_spec [OF assms] quotient_acyclic [OF assms] topological_sort by metis

lemma descendants_exact:
  assumes "wf_topology t" and "v \<in> nodes_of t"
  shows "\<exists>xs. component_descendants nx t (component_for nx t v) = Inr xs \<and> distinct xs \<and>
     set xs = {d. (component_id nx t v, d) \<in> (quotient_edges nx t)\<^sup>+} \<and>
     sorted_wrt (\<lambda>a b. (b, a) \<notin> quotient_edges nx t) xs"
proof -
  obtain dag order where d: "component_dag nx t = Inr dag" "wf_digraph dag"
    "set (dnodes dag) = component_id nx t ` nodes_of t" "set (dedges dag) = quotient_edges nx t"
    "nx_topological_sort nx dag = Inr order" "topo_order dag order"
    using component_dag_sorted [OF assms(1)] by blast
  let ?k = "component_id nx t v"
  have k: "?k \<in> set (dnodes dag)" using assms(2) d(3) by blast
  let ?D = "{d. (?k, d) \<in> (quotient_edges nx t)\<^sup>+ \<and> d \<noteq> ?k}"
  have D: "?D = {d. (?k, d) \<in> (quotient_edges nx t)\<^sup>+}"
    using acyclic_no_self [OF quotient_acyclic [OF assms(1)]] by auto
  have "component_descendants nx t (component_for nx t v) = Inr (filter (\<lambda>x. x \<in> ?D) order)"
    using d descendants [OF d(2) k] by (simp add: component_descendants_def Let_def component_id_def)
  moreover have "{x \<in> set (dnodes dag). x \<in> ?D} = {d. (?k, d) \<in> (quotient_edges nx t)\<^sup>+}"
    using D trancl_in_nodes [OF d(2)] d(4) by auto
  ultimately show ?thesis
    using topo_filter [OF d(6), of "\<lambda>x. x \<in> ?D"] d(4) by simp
qed

lemma interval_exact:
  assumes "wf_topology t" and "s \<in> nodes_of t" and "e \<in> nodes_of t"
    and path: "(component_id nx t s, component_id nx t e) \<in> (quotient_edges nx t)\<^sup>+"
  shows "\<exists>xs. component_interval nx t s e = Inr xs \<and> distinct xs \<and>
     set xs = {c. (component_id nx t s, c) \<in> (quotient_edges nx t)\<^sup>* \<and>
                  (c, component_id nx t e) \<in> (quotient_edges nx t)\<^sup>+} \<and>
     sorted_wrt (\<lambda>a b. (b, a) \<notin> quotient_edges nx t) xs"
proof -
  let ?Q = "quotient_edges nx t" and ?s = "component_id nx t s" and ?e = "component_id nx t e"
  note acyc = acyclic_no_self [OF quotient_acyclic [OF assms(1)]]
  obtain dag where d: "component_dag nx t = Inr dag" "wf_digraph dag"
    "set (dnodes dag) = component_id nx t ` nodes_of t" "set (dedges dag) = ?Q"
    using component_dag_spec [OF assms(1)] by blast
  have k: "?s \<in> set (dnodes dag)" "?e \<in> set (dnodes dag)" using assms(2,3) d(3) by auto
  let ?sel = "(({?s} \<union> {d. (?s, d) \<in> ?Q\<^sup>+ \<and> d \<noteq> ?s}) \<inter> ({?e} \<union> {d. (d, ?e) \<in> ?Q\<^sup>+ \<and> d \<noteq> ?e})) - {?e}"
  let ?sub = "subgraph dag ?sel"
  have sel: "?sel = {c. (?s, c) \<in> ?Q\<^sup>* \<and> (c, ?e) \<in> ?Q\<^sup>+}"
    using acyc path by (auto simp: rtrancl_eq_or_trancl)
  have "acyclic (set (dedges ?sub))"
    using quotient_acyclic [OF assms(1)] by (rule acyclic_subset) (auto simp: digraph_simps d(4))
  then obtain xs where xs: "nx_lexicographical_topological_sort nx ?sub = Inr xs" "topo_order ?sub xs"
    using lexicographical_topological_sort [OF wf_subgraph [OF d(2)]] by blast
  have e: "(?e \<in> {d. (?s, d) \<in> ?Q\<^sup>+ \<and> d \<noteq> ?s}) = True" using path acyc by auto
  have res: "component_interval nx t s e = Inr xs"
    by (simp only: component_interval_def Let_def assms(2,3) d(1) descendants [OF d(2) k(1)]
          ancestors [OF d(2) k(2)] d(4) e xs(1) res_bind_Inr raise_if_simps not_True_eq_False)
  have nodes: "set (dnodes ?sub) = {c. (?s, c) \<in> ?Q\<^sup>* \<and> (c, ?e) \<in> ?Q\<^sup>+}"
    using sel trancl_in_nodes [OF d(2)] d(4) by (auto simp: digraph_simps)
  have "sorted_wrt (\<lambda>a b. (b, a) \<notin> ?Q) xs"
    using xs(2) unfolding topo_order_def
    by (elim conjE, elim sorted_wrt_mono_rel [rotated]) (auto simp: digraph_simps d(4))
  with res nodes xs(2) show ?thesis by (simp add: topo_order_def)
qed

lemma interval_refused:
  assumes "wf_topology t"
    and "\<not> (s \<in> nodes_of t \<and> e \<in> nodes_of t \<and> (component_id nx t s, component_id nx t e) \<in> (quotient_edges nx t)\<^sup>+)"
  shows "\<exists>msg. component_interval nx t s e = Inl (InvalidGraphError msg)"
proof (cases "s \<in> nodes_of t \<and> e \<in> nodes_of t")
  case True
  obtain dag where d: "component_dag nx t = Inr dag" "wf_digraph dag"
    "set (dnodes dag) = component_id nx t ` nodes_of t" "set (dedges dag) = quotient_edges nx t"
    using component_dag_spec [OF assms(1)] by blast
  have "component_id nx t s \<in> set (dnodes dag)" using True d(3) by blast
  from descendants [OF d(2) this] show ?thesis
    using True assms(2) d(1,4) by (simp add: component_interval_def Let_def)
qed (auto simp: component_interval_def raise_if_def)

lemma execution_exact:
  assumes "wf_topology t"
  shows "\<exists>xs. execution_components nx t nodes = Inr xs \<and> distinct xs \<and>
     set xs = component_id nx t ` (nodes_of t \<inter> (case nodes of None \<Rightarrow> nodes_of t | Some ns \<Rightarrow> set ns)) \<and>
     sorted_wrt (\<lambda>a b. (b, a) \<notin> quotient_edges nx t) xs"
proof -
  let ?sel = "set (case nodes of None \<Rightarrow> dnodes (graph_obj t) | Some ns \<Rightarrow> ns)"
  have sel: "(case nodes of None \<Rightarrow> nodes_of t | Some ns \<Rightarrow> set ns) = ?sel" by (cases nodes) auto
  obtain dag order where d: "component_dag nx t = Inr dag" "wf_digraph dag"
    "set (dnodes dag) = component_id nx t ` nodes_of t" "set (dedges dag) = quotient_edges nx t"
    "nx_topological_sort nx dag = Inr order" "topo_order dag order"
    using component_dag_sorted [OF assms(1)] by blast
  have "{c \<in> component_id nx t ` nodes_of t. set c \<inter> ?sel \<noteq> {}} = component_id nx t ` (nodes_of t \<inter> ?sel)"
  proof (intro subset_antisym subsetI)
    fix c assume "c \<in> {c \<in> component_id nx t ` nodes_of t. set c \<inter> ?sel \<noteq> {}}"
    then obtain v where v: "v \<in> nodes_of t" and c: "c = component_id nx t v"
      and ne: "set (component_id nx t v) \<inter> ?sel \<noteq> {}" by blast
    have "set (component_id nx t v) = component_for nx t v"
      using component_for_comps [OF assms v] set_component_key [OF assms] by (simp add: component_id_def)
    then obtain w where w: "w \<in> component_for nx t v" "w \<in> ?sel" using ne by blast
    have "component_for nx t w = component_for nx t v" "w \<in> nodes_of t"
      using component_for_eq [OF assms] component_for_comps [OF assms v] w comps_subset [OF assms] by auto
    then show "c \<in> component_id nx t ` (nodes_of t \<inter> ?sel)"
      unfolding c using w(2) by (intro image_eqI [of _ _ w]) (simp_all add: component_id_def)
  next
    fix c assume "c \<in> component_id nx t ` (nodes_of t \<inter> ?sel)"
    then obtain v where v: "v \<in> nodes_of t" "v \<in> ?sel" "c = component_id nx t v" by blast
    then have "v \<in> set c"
      using component_for_comps [OF assms] set_component_key [OF assms] by (simp add: component_id_def)
    with v show "c \<in> {c \<in> component_id nx t ` nodes_of t. set c \<inter> ?sel \<noteq> {}}" by blast
  qed
  with topo_filter [OF d(6), of "\<lambda>c. set c \<inter> ?sel \<noteq> {}"] d show ?thesis
    by (auto simp: execution_components_def Let_def sel)
qed

end

section \<open>Properties\<close>

definition demo_topology :: topology where
  "demo_topology = \<lparr>graph_obj = \<lparr>dnodes = [''a'', ''b'', ''c'', ''d''],
     dedges = [(''a'', ''b''), (''b'', ''c''), (''c'', ''d'')]\<rparr>, autostart_edges = [(''b'', ''c'')]\<rparr>"

lemma wf_demo_topology: "wf_topology demo_topology"
  by code_simp

text \<open>
  C11. Component construction: for every node the code finds the component that contains it, and two
  nodes get the same component identity exactly when each reaches the other in the raw graph extended
  by the reverses of the declared autostart edges. In particular the two ends of an autostart edge of
  the graph always fall into one component.
\<close>

theorem component_identity_correct:
  assumes "networkx nx" and "wf_topology t" and "u \<in> nodes_of t" and "v \<in> nodes_of t"
  shows "u \<in> component_for nx t u \<and>
     (component_id nx t u = component_id nx t v \<longleftrightarrow>
        (u, v) \<in> (raw_edges t \<union> (set (autostart_edges t) \<inter> raw_edges t)\<inverse>)\<^sup>* \<and>
        (v, u) \<in> (raw_edges t \<union> (set (autostart_edges t) \<inter> raw_edges t)\<inverse>)\<^sup>*) \<and>
     ((u, v) \<in> set (autostart_edges t) \<inter> raw_edges t \<longrightarrow> component_id nx t u = component_id nx t v)"
proof -
  have h: "hedges t = raw_edges t \<union> (set (autostart_edges t) \<inter> raw_edges t)\<inverse>"
    unfolding dedges_hoeflein_graph [OF assms(2)] by auto
  note iff = networkx.component_id_eq_iff [OF assms]
  have "component_id nx t u = component_id nx t v" if "(u, v) \<in> set (autostart_edges t) \<inter> raw_edges t"
    using iff that unfolding h by auto
  with iff networkx.component_for_comps [OF assms(1-3)] show ?thesis unfolding h by simp
qed

theorem component_identity_correct_witness:
  "component_id ref_networkx demo_topology ''b'' = component_id ref_networkx demo_topology ''c''"
proof -
  have "''b'' \<in> nodes_of demo_topology" "''c'' \<in> nodes_of demo_topology"
    "(''b'', ''c'') \<in> set (autostart_edges demo_topology) \<inter> raw_edges demo_topology"
    by (simp_all add: demo_topology_def)
  with component_identity_correct [OF refnx.networkx_axioms wf_demo_topology] show ?thesis by blast
qed

text \<open>
  The quotient is a DAG: \<open>component_dag\<close> always returns (no lookup of a node's component
  fails), its vertices are the component keys, its edges are the raw edges between different components,
  and it has no directed cycle, whatever cycles the raw graph and the autostart edges form.
\<close>

theorem component_dag_acyclic:
  assumes "networkx nx" and "wf_topology t"
  shows "\<exists>dag. component_dag nx t = Inr dag \<and>
     set (dnodes dag) = component_id nx t ` nodes_of t \<and>
     set (dedges dag) = {(component_id nx t u, component_id nx t v) |u v.
        (u, v) \<in> raw_edges t \<and> component_id nx t u \<noteq> component_id nx t v} \<and>
     acyclic (set (dedges dag))"
proof -
  obtain dag where "component_dag nx t = Inr dag" "set (dnodes dag) = component_id nx t ` nodes_of t"
    and edges: "set (dedges dag) = quotient_edges nx t"
    using networkx.component_dag_spec [OF assms] by blast
  moreover have "acyclic (set (dedges dag))"
    unfolding edges by (rule networkx.quotient_acyclic [OF assms])
  ultimately show ?thesis by (auto simp: quotient_edges_def)
qed

theorem component_dag_acyclic_witness:
  "component_dag ref_networkx demo_topology = Inr \<lparr>dnodes = [[''a''], [''b'', ''c''], [''d'']],
     dedges = [([''a''], [''b'', ''c'']), ([''b'', ''c''], [''d''])]\<rparr> \<and>
   acyclic {([''a''], [''b'', ''c'']), ([''b'', ''c''], [''d''])}"
proof -
  have eval: "component_dag ref_networkx demo_topology = Inr \<lparr>dnodes = [[''a''], [''b'', ''c''], [''d'']],
     dedges = [([''a''], [''b'', ''c'']), ([''b'', ''c''], [''d''])]\<rparr>"
    by code_simp
  obtain dag where "component_dag ref_networkx demo_topology = Inr dag" and ac: "acyclic (set (dedges dag))"
    using component_dag_acyclic [OF refnx.networkx_axioms wf_demo_topology] by blast
  then have "dag = \<lparr>dnodes = [[''a''], [''b'', ''c''], [''d'']],
     dedges = [([''a''], [''b'', ''c'']), ([''b'', ''c''], [''d''])]\<rparr>"
    unfolding eval by (simp only: sum.inject)
  from ac [unfolded this] have "acyclic {([''a''], [''b'', ''c'']), ([''b'', ''c''], [''d''])}"
    by (simp only: digraph.simps list.set)
  with eval show ?thesis by (rule conjI)
qed

text \<open>
  C9. \<open>component_interval(A, B)\<close> returns exactly when both endpoints are nodes and B's component is
  a strict descendant of A's; it then lists, once each and in an order compatible with the quotient edges,
  exactly the components on directed quotient paths from A's component (included) to B's component
  (excluded). In every other case it raises \<open>InvalidGraphError\<close> and nothing else.
\<close>

theorem component_interval_correct:
  assumes "networkx nx" and "wf_topology t"
  shows "case component_interval nx t s e of
      Inr xs \<Rightarrow> s \<in> nodes_of t \<and> e \<in> nodes_of t \<and>
        (component_id nx t s, component_id nx t e) \<in> (quotient_edges nx t)\<^sup>+ \<and> distinct xs \<and>
        set xs = {c. (component_id nx t s, c) \<in> (quotient_edges nx t)\<^sup>* \<and>
                     (c, component_id nx t e) \<in> (quotient_edges nx t)\<^sup>+} \<and>
        sorted_wrt (\<lambda>a b. (b, a) \<notin> quotient_edges nx t) xs
    | Inl err \<Rightarrow> (\<exists>msg. err = InvalidGraphError msg) \<and> \<not> (s \<in> nodes_of t \<and> e \<in> nodes_of t \<and>
        (component_id nx t s, component_id nx t e) \<in> (quotient_edges nx t)\<^sup>+)"
  using networkx.interval_exact [OF assms, of s e] networkx.interval_refused [OF assms, of s e]
  by (cases "s \<in> nodes_of t \<and> e \<in> nodes_of t \<and>
        (component_id nx t s, component_id nx t e) \<in> (quotient_edges nx t)\<^sup>+") auto

theorem component_interval_correct_witness:
  "component_interval ref_networkx demo_topology ''a'' ''d'' = Inr [[''a''], [''b'', ''c'']] \<and>
   ([''b'', ''c''], component_id ref_networkx demo_topology ''d'') \<in> (quotient_edges ref_networkx demo_topology)\<^sup>+"
proof -
  have eval: "component_interval ref_networkx demo_topology ''a'' ''d'' = Inr [[''a''], [''b'', ''c'']]"
    by code_simp
  with component_interval_correct [OF refnx.networkx_axioms wf_demo_topology, of "''a''" "''d''"]
  show ?thesis by auto
qed

text \<open>
  C10. \<open>execution_components(nodes)\<close> never fails: it lists each component that has a selected node
  exactly once, in an order in which no component comes before one of its quotient predecessors, so the
  scheduler can run the list front to back.
\<close>

theorem execution_components_correct:
  assumes "networkx nx" and "wf_topology t"
  shows "\<exists>xs. execution_components nx t nodes = Inr xs \<and> distinct xs \<and>
     set xs = component_id nx t ` (nodes_of t \<inter> (case nodes of None \<Rightarrow> nodes_of t | Some ns \<Rightarrow> set ns)) \<and>
     sorted_wrt (\<lambda>a b. (b, a) \<notin> quotient_edges nx t) xs"
  by (rule networkx.execution_exact [OF assms])

theorem execution_components_correct_witness:
  "execution_components ref_networkx demo_topology (Some [''c'', ''a'']) = Inr [[''a''], [''b'', ''c'']] \<and>
   ([''b'', ''c''], [''a'']) \<notin> quotient_edges ref_networkx demo_topology"
proof -
  have eval: "execution_components ref_networkx demo_topology (Some [''c'', ''a'']) = Inr [[''a''], [''b'', ''c'']]"
    by code_simp
  with execution_components_correct [OF refnx.networkx_axioms wf_demo_topology, of "Some [''c'', ''a'']"]
  show ?thesis by auto
qed

lemma graph_shape_unfold:
  "graph_shape t = ''{'' @ json_string False ''nodes'' @ '':'' @
     string_array compact_style (sort (dnodes (graph_obj t))) @ '','' @ json_string False ''edges'' @ '':'' @
     pair_array compact_style (sort (dedges (graph_obj t))) @ '','' @ json_string False ''autostart_edges'' @ '':'' @
     pair_array compact_style
       (sorted_set (filter (\<lambda>(start, end). has_edge (graph_obj t) start end) (autostart_edges t))) @ ''}''"
  by (simp add: graph_shape_def string_array_def pair_array_def compact_style_def)

text \<open>
  The stored graph shape identifies the topology: two well-formed topologies get the same
  \<open>graph_shape\<close> text exactly when they have the same nodes, the same edges and the same effective
  autostart edges, in whatever order they were declared.
\<close>

theorem graph_shape_identifies:
  assumes "wf_topology t" and "wf_topology t'"
  shows "graph_shape t = graph_shape t' \<longleftrightarrow>
     nodes_of t = nodes_of t' \<and> raw_edges t = raw_edges t' \<and>
     set (autostart_edges t) \<inter> raw_edges t = set (autostart_edges t') \<inter> raw_edges t'"
proof -
  let ?a = "\<lambda>t. sorted_set (filter (\<lambda>(start, end). has_edge (graph_obj t) start end) (autostart_edges t))"
  have sort_eq: "sort xs = sort ys \<longleftrightarrow> set xs = set ys" if "distinct xs" "distinct ys" for xs ys :: "'x::linorder list"
    using that by (metis distinct_sort set_sort sorted_distinct_set_unique sorted_sort)
  have auto_eq: "?a t = ?a t' \<longleftrightarrow> set (autostart_edges t) \<inter> raw_edges t = set (autostart_edges t') \<inter> raw_edges t'"
    by (simp add: sorted_set_eq_iff has_edge_def) (auto simp: case_prod_unfold)
  note sd = decodableD [OF string_array_decodable [OF good_styles(2)] UNIV_I UNIV_I]
  note pd = decodableD [OF pair_array_decodable [OF good_styles(2)] UNIV_I UNIV_I]
  have "graph_shape t = graph_shape t' \<longleftrightarrow>
      sort (dnodes (graph_obj t)) = sort (dnodes (graph_obj t')) \<and>
      sort (dedges (graph_obj t)) = sort (dedges (graph_obj t')) \<and> ?a t = ?a t'"
    unfolding graph_shape_unfold
    by (auto simp: pair_array_inject simp del: sorted_set_eq_iff dest!: sd pd)
  then show ?thesis
    using assms by (simp add: sort_eq auto_eq wf_topology_def wf_digraph_def)
qed

theorem graph_shape_identifies_witness:
  "graph_shape demo_topology =
   graph_shape \<lparr>graph_obj = \<lparr>dnodes = [''d'', ''c'', ''b'', ''a''],
     dedges = [(''c'', ''d''), (''b'', ''c''), (''a'', ''b'')]\<rparr>,
     autostart_edges = [(''b'', ''c''), (''d'', ''a''), (''b'', ''c'')]\<rparr>"
proof -
  let ?t = "\<lparr>graph_obj = \<lparr>dnodes = [''d'', ''c'', ''b'', ''a''],
     dedges = [(''c'', ''d''), (''b'', ''c''), (''a'', ''b'')]\<rparr>,
     autostart_edges = [(''b'', ''c''), (''d'', ''a''), (''b'', ''c'')]\<rparr>"
  have "wf_topology ?t" by code_simp
  from graph_shape_identifies [OF wf_demo_topology this] show ?thesis
    by (auto simp: demo_topology_def)
qed

text \<open>
  The stored spelling of a component key loses nothing: two finite member sets are encoded to the same
  text exactly when they are equal.
\<close>

theorem encode_component_key_injective:
  assumes "finite c" and "finite d"
  shows "encode_component_key c = encode_component_key d \<longleftrightarrow> c = d"
proof -
  have "encode_component_key c = encode_component_key d \<longleftrightarrow> component_key c = component_key d"
    unfolding encode_component_key_def string_array_def [symmetric]
    by (rule string_array_inject [OF good_styles(1)])
  also have "\<dots> \<longleftrightarrow> c = d"
    using assms sorted_list_of_set_inject by (auto simp: component_key_def)
  finally show ?thesis .
qed

theorem encode_component_key_injective_witness:
  "encode_component_key {''b'', ''a''} \<noteq> encode_component_key {''a'', ''c''}"
proof -
  have ne: "{''b'', ''a''} \<noteq> {''a'', ''c''}" by code_simp
  have "finite {''b'', ''a''}" "finite {''a'', ''c''}" by simp_all
  from encode_component_key_injective [OF this] ne show ?thesis by (simp only: not_False_eq_True)
qed

end
