(* ===== verification/Graph_Commands.thy ===== *)
theory Graph_Commands
  imports Topology
begin

text \<open>
  Selections of the nine graph commands (\<open>workflow/graph_command_selection.py\<close>) and the node lists
  of the command line (\<open>cli/graph_utils.py\<close>), on top of the component calculations. Proved: every
  selection is a convex set of whole components in execution order with exact boundary edges, and each
  scope selects exactly the components its name promises.
\<close>

section \<open>The command table\<close>

record graph_command_spec =
  spec_operation :: string
  spec_scope :: string
  spec_preview_attribute :: string

definition commands :: "(string \<times> graph_command_spec) list" where
  "commands = [
     (''run'', \<lparr>spec_operation = ''run'', spec_scope = ''one'', spec_preview_attribute = ''plan''\<rparr>),
     (''runfrom'', \<lparr>spec_operation = ''run'', spec_scope = ''from'', spec_preview_attribute = ''plan''\<rparr>),
     (''runbetween'', \<lparr>spec_operation = ''run'', spec_scope = ''between'', spec_preview_attribute = ''plan''\<rparr>),
     (''resume'', \<lparr>spec_operation = ''resume'', spec_scope = ''one'', spec_preview_attribute = ''plan''\<rparr>),
     (''resumefrom'', \<lparr>spec_operation = ''resume'', spec_scope = ''from'', spec_preview_attribute = ''plan''\<rparr>),
     (''resumebetween'', \<lparr>spec_operation = ''resume'', spec_scope = ''between'', spec_preview_attribute = ''plan''\<rparr>),
     (''reset'', \<lparr>spec_operation = ''reset'', spec_scope = ''one'', spec_preview_attribute = ''dry_run''\<rparr>),
     (''resetfrom'', \<lparr>spec_operation = ''reset'', spec_scope = ''from'', spec_preview_attribute = ''dry_run''\<rparr>),
     (''resetbetween'', \<lparr>spec_operation = ''reset'', spec_scope = ''between'', spec_preview_attribute = ''dry_run''\<rparr>)]"

definition graph_command_spec_of :: "string \<Rightarrow> graph_command_spec option" where
  "graph_command_spec_of command = dict_get commands command"

section \<open>Selections\<close>

record graph_command_selection =
  sel_command :: string
  sel_operation :: string
  sel_scope :: string
  sel_start_component :: "component option"
  sel_components :: "component list"
  sel_nodes :: "node_name list"
  sel_excluded_end :: "component option"
  sel_entering :: "(node_name \<times> node_name) list"
  sel_leaving :: "(node_name \<times> node_name) list"

definition node_set :: "graph_command_selection \<Rightarrow> node_name set" where
  "node_set s = set (sel_nodes s)"

definition entering_edges :: "topology \<Rightarrow> node_name set \<Rightarrow> (node_name \<times> node_name) list" where
  "entering_edges t selected = sort (filter (\<lambda>(source, target).
     source \<notin> selected \<and> target \<in> selected) (dedges (graph_obj t)))"

definition leaving_edges :: "topology \<Rightarrow> node_name set \<Rightarrow> (node_name \<times> node_name) list" where
  "leaving_edges t selected = sort (filter (\<lambda>(source, target).
     source \<in> selected \<and> target \<notin> selected) (dedges (graph_obj t)))"

text \<open>The components of an ordinary selection and the excluded end, by scope.\<close>

definition scope_components :: "networkx_api \<Rightarrow> topology \<Rightarrow> string \<Rightarrow> node_name \<Rightarrow> node_name option \<Rightarrow>
    (component list \<times> component option) res" where
  "scope_components nx t scope start end =
     (if scope = ''between'' then
        (case end of
           None \<Rightarrow> Inl (ValueError ''requires an end node'')
         | Some e \<Rightarrow> res_bind (component_interval nx t start e) (\<lambda>components.
             Inr (components, Some (component_id nx t e))))
      else if end \<noteq> None then Inl (ValueError ''does not accept an end node'')
      else let first = component_id nx t start in
        if scope = ''from'' then res_bind (component_descendants nx t (set first)) (\<lambda>rest.
          Inr (first # rest, None))
        else Inr ([first], None))"

definition select_graph_command :: "networkx_api \<Rightarrow> topology \<Rightarrow> string \<Rightarrow> node_name \<Rightarrow> node_name option \<Rightarrow>
    graph_command_selection res" where
  "select_graph_command nx t command start end =
     (case dict_get commands command of
        None \<Rightarrow> Inl (ValueError ''Unknown graph command'')
      | Some spec \<Rightarrow>
          if command \<in> {''reset'', ''resetfrom''} \<and> start = ''*'' then
            res_bind (raise_if (end \<noteq> None) (ValueError ''does not accept an end node'')) (\<lambda>_.
            res_bind (execution_components nx t None) (\<lambda>components.
            let selected = set (concat components) in
            Inr \<lparr>sel_command = command, sel_operation = spec_operation spec, sel_scope = ''all'',
                 sel_start_component = None, sel_components = components, sel_nodes = concat components,
                 sel_excluded_end = None, sel_entering = [], sel_leaving = leaving_edges t selected\<rparr>))
          else
            res_bind (raise_if (start \<notin> set (dnodes (graph_obj t))) (InvalidGraphError ''Unknown start node'')) (\<lambda>_.
            res_bind (scope_components nx t (spec_scope spec) start end) (\<lambda>(components, excluded_end).
            let selected = set (concat components) in
            Inr \<lparr>sel_command = command, sel_operation = spec_operation spec, sel_scope = spec_scope spec,
                 sel_start_component = Some (component_id nx t start), sel_components = components,
                 sel_nodes = concat components, sel_excluded_end = excluded_end,
                 sel_entering = entering_edges t selected, sel_leaving = leaving_edges t selected\<rparr>)))"

section \<open>Node lists of the command line\<close>

definition expand_to_components :: "networkx_api \<Rightarrow> topology \<Rightarrow> node_name set \<Rightarrow> node_name set" where
  "expand_to_components nx t nodes = (\<Union>node\<in>nodes. component_for nx t node)"

definition descendants_in_order :: "networkx_api \<Rightarrow> topology \<Rightarrow> node_name \<Rightarrow> node_name list res" where
  "descendants_in_order nx t node =
     res_bind (component_descendants nx t (component_for nx t node)) (\<lambda>cs. Inr (concat cs))"

text \<open>
  The code passes \<open>list(selected)\<close>, whose order the set iteration picks; only its membership is used.
\<close>

definition component_topological_nodes :: "networkx_api \<Rightarrow> topology \<Rightarrow> node_name list option \<Rightarrow> node_name list res" where
  "component_topological_nodes nx t nodes =
     (let selected = (case nodes of None \<Rightarrow> dnodes (graph_obj t) | Some ns \<Rightarrow> ns) in
      res_bind (execution_components nx t (Some selected)) (\<lambda>cs.
        Inr (concat (map (filter (\<lambda>node. node \<in> set selected)) cs))))"

definition topo_subset :: "networkx_api \<Rightarrow> topology \<Rightarrow> node_name list \<Rightarrow> node_name list res" where
  "topo_subset nx t nodes = component_topological_nodes nx t (Some nodes)"

text \<open>\<open>node_complete\<close> reads storage: an argument here.\<close>

definition direct_incomplete_inputs :: "networkx_api \<Rightarrow> topology \<Rightarrow> (node_name \<Rightarrow> bool) \<Rightarrow> node_name list \<Rightarrow>
    node_name set res" where
  "direct_incomplete_inputs nx t node_complete nodes =
     res_bind (execution_components nx t (Some nodes)) (\<lambda>cs.
     res_bind (res_map (\<lambda>component. component_predecessors t (set component)) cs) (\<lambda>previous.
       Inr {p \<in> \<Union> (set previous). p \<notin> set nodes \<and> \<not> node_complete p}))"

section \<open>Selections are convex sets of whole components\<close>

text \<open>The quotient path order, and what every selection guarantees of its component list.\<close>

definition convex_components :: "networkx_api \<Rightarrow> topology \<Rightarrow> component set \<Rightarrow> bool" where
  "convex_components nx t C \<longleftrightarrow> (\<forall>a\<in>C. \<forall>c\<in>C. \<forall>b. (a, b) \<in> (quotient_edges nx t)\<^sup>* \<and>
     (b, c) \<in> (quotient_edges nx t)\<^sup>* \<longrightarrow> b \<in> C)"

lemma convex_componentsI:
  "(\<And>a b c. a \<in> C \<Longrightarrow> c \<in> C \<Longrightarrow> (a, b) \<in> (quotient_edges nx t)\<^sup>* \<Longrightarrow> (b, c) \<in> (quotient_edges nx t)\<^sup>* \<Longrightarrow> b \<in> C)
   \<Longrightarrow> convex_components nx t C"
  unfolding convex_components_def by blast

lemma set_entering_edges [simp]:
  "set (entering_edges t S) = {(u, v) \<in> raw_edges t. u \<notin> S \<and> v \<in> S}"
  by (auto simp: entering_edges_def)

lemma set_leaving_edges [simp]:
  "set (leaving_edges t S) = {(u, v) \<in> raw_edges t. u \<in> S \<and> v \<notin> S}"
  by (auto simp: leaving_edges_def)

context networkx
begin

lemma component_id_set: "wf_topology t \<Longrightarrow> v \<in> nodes_of t \<Longrightarrow> set (component_id nx t v) = component_for nx t v"
  using component_for_comps set_component_key by (simp add: component_id_def)

lemma component_id_distinct: "distinct (component_id nx t v)"
  by (simp add: component_id_def component_key_def)

lemma component_id_member:
  assumes "wf_topology t" and "v \<in> nodes_of t"
  shows "w \<in> set (component_id nx t v) \<longleftrightarrow> w \<in> nodes_of t \<and> component_id nx t w = component_id nx t v"
proof
  assume "w \<in> set (component_id nx t v)"
  then have "w \<in> component_for nx t v" using component_id_set assms by blast
  then show "w \<in> nodes_of t \<and> component_id nx t w = component_id nx t v"
    using component_for_comps [OF assms] comps_subset component_for_eq assms(1) by (metis component_id_def subsetD)
next
  assume "w \<in> nodes_of t \<and> component_id nx t w = component_id nx t v"
  then show "w \<in> set (component_id nx t v)"
    using component_id_set component_for_comps assms(1) by metis
qed

lemma quotient_edge_ids:
  assumes "wf_topology t" and "(a, b) \<in> quotient_edges nx t"
  shows "a \<in> component_id nx t ` nodes_of t" and "b \<in> component_id nx t ` nodes_of t"
  using assms by (auto simp: quotient_edges_def wf_topology_def dest!: wf_digraph_edgeD)

lemma quotient_path_ids:
  assumes "wf_topology t" and "(a, b) \<in> (quotient_edges nx t)\<^sup>+"
  shows "a \<in> component_id nx t ` nodes_of t" and "b \<in> component_id nx t ` nodes_of t"
  using assms by (meson tranclD tranclD2 quotient_edge_ids)+

text \<open>The nodes of a list of component keys, in the list's order.\<close>

lemma concat_components:
  assumes "wf_topology t" and "distinct cs" and "set cs \<subseteq> component_id nx t ` nodes_of t"
  shows "distinct (concat cs)" and "set (concat cs) = {v \<in> nodes_of t. component_id nx t v \<in> set cs}"
proof -
  have mem: "w \<in> set c \<longleftrightarrow> w \<in> nodes_of t \<and> component_id nx t w = c" if c: "c \<in> set cs" for c w
    using c assms(3) component_id_member [OF assms(1)] by blast
  show "set (concat cs) = {v \<in> nodes_of t. component_id nx t v \<in> set cs}" using mem by auto
  have d: "distinct c" if "c \<in> set cs" for c using that assms(3) component_id_distinct by blast
  show "distinct (concat cs)"
    using assms(2) d mem by (auto intro!: distinct_concat)
qed

lemma descendants_of_id:
  "wf_topology t \<Longrightarrow> v \<in> nodes_of t \<Longrightarrow>
     component_descendants nx t (set (component_id nx t v)) = component_descendants nx t (component_for nx t v)"
  by (simp add: component_id_set)

text \<open>Each scope's components, as the reachability set it stands for.\<close>

definition selection_ok :: "topology \<Rightarrow> component list \<Rightarrow> bool" where
  "selection_ok t cs \<longleftrightarrow> distinct cs \<and> set cs \<subseteq> component_id nx t ` nodes_of t \<and>
     sorted_wrt (\<lambda>a b. (b, a) \<notin> quotient_edges nx t) cs \<and> convex_components nx t (set cs)"

lemma selection_one:
  assumes "wf_topology t" and "v \<in> nodes_of t"
  shows "selection_ok t [component_id nx t v]"
proof -
  have "b = a" if "(a, b) \<in> (quotient_edges nx t)\<^sup>*" "(b, a) \<in> (quotient_edges nx t)\<^sup>*" for a b
    using that acyclic_no_self [OF quotient_acyclic [OF assms(1)]]
    by (metis rtranclD trancl_rtrancl_trancl)
  then show ?thesis using assms(2) by (auto simp: selection_ok_def intro: convex_componentsI)
qed

lemma selection_from:
  assumes "wf_topology t" and "v \<in> nodes_of t"
  shows "\<exists>rest. component_descendants nx t (set (component_id nx t v)) = Inr rest \<and>
     selection_ok t (component_id nx t v # rest) \<and>
     set (component_id nx t v # rest) = {c. (component_id nx t v, c) \<in> (quotient_edges nx t)\<^sup>*}"
proof -
  let ?k = "component_id nx t v" and ?Q = "quotient_edges nx t"
  obtain xs where xs: "component_descendants nx t (set ?k) = Inr xs" "distinct xs"
    "set xs = {d. (?k, d) \<in> ?Q\<^sup>+}" "sorted_wrt (\<lambda>a b. (b, a) \<notin> ?Q) xs"
    using descendants_exact [OF assms] descendants_of_id [OF assms] by auto
  note acyc = acyclic_no_self [OF quotient_acyclic [OF assms(1)]]
  have set: "set (?k # xs) = {c. (?k, c) \<in> ?Q\<^sup>*}"
    using xs(3) by (auto simp: rtrancl_eq_or_trancl)
  have "?k \<notin> set xs" using xs(3) acyc by auto
  moreover have "(b, ?k) \<notin> ?Q" if "b \<in> set xs" for b
    using that xs(3) acyc [of ?k] by (metis mem_Collect_eq trancl_into_trancl)
  moreover have "set xs \<subseteq> component_id nx t ` nodes_of t"
    using xs(3) quotient_path_ids(2) [OF assms(1)] by blast
  moreover have "convex_components nx t (set (?k # xs))"
    unfolding set by (rule convex_componentsI) (auto intro: rtrancl_trans)
  ultimately have "selection_ok t (?k # xs)"
    using xs(2,4) assms(2) by (simp add: selection_ok_def)
  with xs(1) set show ?thesis by blast
qed

lemma selection_between:
  assumes "wf_topology t" and "component_interval nx t s e = Inr xs"
  shows "selection_ok t xs" and "s \<in> nodes_of t" and "e \<in> nodes_of t"
    and "set xs = {c. (component_id nx t s, c) \<in> (quotient_edges nx t)\<^sup>* \<and>
                      (c, component_id nx t e) \<in> (quotient_edges nx t)\<^sup>+}"
    and "(component_id nx t s, component_id nx t e) \<in> (quotient_edges nx t)\<^sup>+"
proof -
  let ?Q = "quotient_edges nx t"
  have path: "s \<in> nodes_of t \<and> e \<in> nodes_of t \<and> (component_id nx t s, component_id nx t e) \<in> ?Q\<^sup>+"
    using interval_refused [OF assms(1), of s e] assms(2) by auto
  then show "s \<in> nodes_of t" "e \<in> nodes_of t" "(component_id nx t s, component_id nx t e) \<in> ?Q\<^sup>+" by auto
  have x: "distinct xs" "sorted_wrt (\<lambda>a b. (b, a) \<notin> ?Q) xs"
    "set xs = {c. (component_id nx t s, c) \<in> ?Q\<^sup>* \<and> (c, component_id nx t e) \<in> ?Q\<^sup>+}"
    using interval_exact [OF assms(1), of s e] path assms(2) by auto
  then show "set xs = {c. (component_id nx t s, c) \<in> ?Q\<^sup>* \<and> (c, component_id nx t e) \<in> ?Q\<^sup>+}" by blast
  have "convex_components nx t (set xs)"
    unfolding x(3) by (rule convex_componentsI) (auto intro: rtrancl_trans rtrancl_trancl_trancl)
  then show "selection_ok t xs"
    using x quotient_path_ids(1) [OF assms(1)] by (auto simp: selection_ok_def)
qed

lemma selection_all:
  assumes "wf_topology t"
  shows "\<exists>xs. execution_components nx t None = Inr xs \<and> selection_ok t xs \<and>
    set xs = component_id nx t ` nodes_of t"
proof -
  obtain xs where xs: "execution_components nx t None = Inr xs" "distinct xs"
    "set xs = component_id nx t ` nodes_of t" "sorted_wrt (\<lambda>a b. (b, a) \<notin> quotient_edges nx t) xs"
    using execution_exact [OF assms, of None] by auto
  have "convex_components nx t (set xs)"
    unfolding xs(3) by (rule convex_componentsI) (metis imageI imageE rtranclD quotient_path_ids(2) [OF assms])
  with xs show ?thesis by (auto simp: selection_ok_def)
qed

lemma command_scopes:
  "dict_get commands command = Some spec \<Longrightarrow> spec_scope spec \<in> {''one'', ''from'', ''between''}"
  by (auto simp: commands_def dict_get_def split: if_splits)

text \<open>Inversion of a successful selection: the wildcard or one of the three scopes.\<close>

lemma select_cases:
  assumes wf: "wf_topology t" and sel: "select_graph_command nx t command start end = Inr s"
  obtains (all) "sel_scope s = ''all''" "start = ''*''" "end = None" "selection_ok t (sel_components s)"
      "set (sel_components s) = component_id nx t ` nodes_of t" "sel_entering s = []"
    | (one) "sel_scope s = ''one''" "start \<in> nodes_of t" "end = None"
      "sel_components s = [component_id nx t start]"
    | (downstream) "sel_scope s = ''from''" "start \<in> nodes_of t" "end = None" "selection_ok t (sel_components s)"
      "set (sel_components s) = {c. (component_id nx t start, c) \<in> (quotient_edges nx t)\<^sup>*}"
    | (between) e where "sel_scope s = ''between''" "end = Some e"
      "component_interval nx t start e = Inr (sel_components s)"
proof -
  obtain spec where spec: "dict_get commands command = Some spec"
    using sel by (auto simp: select_graph_command_def split: option.splits)
  show thesis
  proof (cases "command \<in> {''reset'', ''resetfrom''} \<and> start = ''*''")
    case True
    obtain xs where xs: "execution_components nx t None = Inr xs" "selection_ok t xs"
      "set xs = component_id nx t ` nodes_of t" using selection_all [OF wf] by blast
    show thesis
    proof (rule all)
      show "end = None"
        using sel True spec by (simp add: select_graph_command_def raise_if_def split: if_splits)
      then have s: "s = \<lparr>sel_command = command, sel_operation = spec_operation spec, sel_scope = ''all'',
         sel_start_component = None, sel_components = xs, sel_nodes = concat xs,
         sel_excluded_end = None, sel_entering = [], sel_leaving = leaving_edges t (set (concat xs))\<rparr>"
        using sel True spec xs(1) by (simp add: select_graph_command_def Let_def)
      show "sel_scope s = ''all''" "selection_ok t (sel_components s)" "sel_entering s = []"
        "set (sel_components s) = component_id nx t ` nodes_of t" using xs s by simp_all
    qed (use True in simp)
  next
    case False
    let ?r = "scope_components nx t (spec_scope spec) start end"
    have start: "start \<in> nodes_of t"
      using sel spec False by (simp add: select_graph_command_def raise_if_def split: if_splits)
    obtain cs ex where r: "?r = Inr (cs, ex)" and s: "sel_scope s = spec_scope spec" "sel_components s = cs"
      using sel spec False start by (auto simp: select_graph_command_def Let_def res_bind_eq_Inr)
    consider "spec_scope spec = ''one''" | "spec_scope spec = ''from''" | "spec_scope spec = ''between''"
      using command_scopes [OF spec] by blast
    then show thesis
    proof cases
      case 1
      then show thesis using one r s start by (simp add: scope_components_def split: if_splits)
    next
      case 2
      obtain rest where rest: "component_descendants nx t (set (component_id nx t start)) = Inr rest"
        "selection_ok t (component_id nx t start # rest)"
        "set (component_id nx t start # rest) = {c. (component_id nx t start, c) \<in> (quotient_edges nx t)\<^sup>*}"
        using selection_from [OF wf start] by blast
      have "end = None \<and> cs = component_id nx t start # rest"
        using r 2 rest(1) by (simp add: scope_components_def Let_def split: if_splits)
      then show thesis using downstream 2 start s rest(2,3) by metis
    next
      case 3
      then show thesis using between r s
        by (auto simp: scope_components_def res_bind_eq_Inr split: if_splits option.splits)
    qed
  qed
qed

lemma selection_ok_select:
  assumes "wf_topology t" and "select_graph_command nx t command start end = Inr s"
  shows "selection_ok t (sel_components s)"
  using assms by (rule select_cases) (use assms(1) selection_one selection_between(1) in auto)

end

lemma select_shape:
  assumes "select_graph_command nx t command start end = Inr s"
  shows "sel_nodes s = concat (sel_components s)" and "sel_leaving s = leaving_edges t (node_set s)"
    and "sel_scope s = ''all'' \<or> sel_entering s = entering_edges t (node_set s)"
  using assms by (auto simp: select_graph_command_def Let_def node_set_def res_bind_eq_Inr
      split: option.splits if_splits)

lemma select_nodes:
  assumes "networkx nx" and "wf_topology t" and "select_graph_command nx t command start end = Inr s"
  shows "node_set s = {v \<in> nodes_of t. component_id nx t v \<in> set (sel_components s)}"
  using networkx.concat_components(2) [OF assms(1,2)] networkx.selection_ok_select [OF assms]
  unfolding node_set_def select_shape(1) [OF assms(3)] networkx.selection_ok_def [OF assms(1)] by blast

section \<open>Properties\<close>

text \<open>
  C19. Every selection a graph command makes is a convex set of whole components in execution order:
  each component once, no component before one of its quotient predecessors, no directed quotient path
  leaves the selection and comes back; the nodes are exactly the members of those components, each once;
  and the recorded boundary edges are exactly the raw edges that enter and that leave the node set.
\<close>

theorem select_graph_command_convex:
  assumes "networkx nx" and "wf_topology t" and "select_graph_command nx t command start end = Inr s"
  shows "distinct (sel_components s) \<and> convex_components nx t (set (sel_components s)) \<and>
     sorted_wrt (\<lambda>a b. (b, a) \<notin> quotient_edges nx t) (sel_components s) \<and>
     distinct (sel_nodes s) \<and>
     node_set s = {v \<in> nodes_of t. component_id nx t v \<in> set (sel_components s)} \<and>
     set (sel_entering s) = {(u, v) \<in> raw_edges t. u \<notin> node_set s \<and> v \<in> node_set s} \<and>
     set (sel_leaving s) = {(u, v) \<in> raw_edges t. u \<in> node_set s \<and> v \<notin> node_set s}"
proof -
  have ok: "distinct (sel_components s)" "set (sel_components s) \<subseteq> component_id nx t ` nodes_of t"
    "sorted_wrt (\<lambda>a b. (b, a) \<notin> quotient_edges nx t) (sel_components s)"
    "convex_components nx t (set (sel_components s))"
    using networkx.selection_ok_select [OF assms] unfolding networkx.selection_ok_def [OF assms(1)] by auto
  note nodes = networkx.concat_components [OF assms(1,2) ok(1,2), folded select_shape(1) [OF assms(3)]]
  have enter: "set (sel_entering s) = {(u, v) \<in> raw_edges t. u \<notin> node_set s \<and> v \<in> node_set s}"
  proof (cases "sel_scope s = ''all''")
    case True
    have "raw_edges t \<subseteq> nodes_of t \<times> nodes_of t"
      using assms(2) by (auto simp: wf_topology_def dest: wf_digraph_edgeD)
    moreover have "sel_entering s = []" "set (sel_components s) = component_id nx t ` nodes_of t"
      by (cases rule: networkx.select_cases [OF assms]; use True in simp)+
    moreover from this(2) have "node_set s = nodes_of t" using nodes(2) by (auto simp: node_set_def)
    ultimately show ?thesis by auto
  qed (use select_shape(3) [OF assms(3)] in simp)
  show ?thesis
    using ok nodes enter select_shape(2) [OF assms(3)] by (simp add: node_set_def)
qed

theorem select_graph_command_convex_witness:
  "select_graph_command ref_networkx demo_topology ''runbetween'' ''a'' (Some ''d'') = Inr \<lparr>
     sel_command = ''runbetween'', sel_operation = ''run'', sel_scope = ''between'',
     sel_start_component = Some [''a''], sel_components = [[''a''], [''b'', ''c'']],
     sel_nodes = [''a'', ''b'', ''c''], sel_excluded_end = Some [''d''], sel_entering = [],
     sel_leaving = [(''c'', ''d'')]\<rparr> \<and>
   convex_components ref_networkx demo_topology (set [[''a''], [''b'', ''c'']])"
proof -
  let ?s = "\<lparr>sel_command = ''runbetween'', sel_operation = ''run'', sel_scope = ''between'',
     sel_start_component = Some [''a''], sel_components = [[''a''], [''b'', ''c'']],
     sel_nodes = [''a'', ''b'', ''c''], sel_excluded_end = Some [''d''], sel_entering = [],
     sel_leaving = [(''c'', ''d'')]\<rparr>"
  have eval: "select_graph_command ref_networkx demo_topology ''runbetween'' ''a'' (Some ''d'') = Inr ?s"
    by code_simp
  from select_graph_command_convex [OF refnx.networkx_axioms wf_demo_topology eval]
  have "convex_components ref_networkx demo_topology (set (sel_components ?s))" by (elim conjE)
  then show ?thesis using eval by (simp only: graph_command_selection.simps)
qed



end
