(* ===== verification/Readiness.thy ===== *)
theory Readiness
  imports MWF_Prelude
begin

text \<open>
  Readiness decisions from direct-parent observations (\<open>component_readiness.py\<close>). An observation is
  the triple of lifecycle, stability and instability origin the code receives. Proved: a closed form of
  the readiness loop, its independence of the order in which parents are observed, and that a resumed
  sample never loses or mixes its lineage.
\<close>

type_synonym observation = "string \<times> string option \<times> string option"
type_synonym readiness = "string \<times> string option \<times> bool"

section \<open>The calculations\<close>

definition lifecycles :: "string list" where
  "lifecycles = [''queued'', ''running'', ''sampled'', ''done'', ''failed'']"

definition valid_result :: "string option \<Rightarrow> string option \<Rightarrow> bool" where
  "valid_result stability origin \<longleftrightarrow> stability = Some ''stable'' \<and> origin = None
     \<or> stability = Some ''unstable'' \<and> origin \<noteq> None \<and> origin \<noteq> Some ''''"

text \<open>
  The loop over the observations with its variables \<open>result\<close> and \<open>blocked\<close>. A checked result always
  has a string stability, so the loop keeps that string.
\<close>

fun readiness_loop :: "observation list \<Rightarrow> readiness option \<Rightarrow> bool \<Rightarrow> (readiness option \<times> bool) res" where
  "readiness_loop [] result blocked = Inr (result, blocked)"
| "readiness_loop ((lifecycle, stability, origin) # obs) result blocked =
     (if lifecycle \<notin> set lifecycles then Inl (ValueError ''unknown component lifecycle'')
      else if lifecycle \<noteq> ''done'' then readiness_loop obs result True
      else if \<not> valid_result stability origin then Inl (ValueError ''invalid done component result'')
      else let parent_result = (the stability, origin, False) in
        readiness_loop obs (Some parent_result)
          (if result \<noteq> None \<and> result \<noteq> Some parent_result then True else blocked))"

definition calculate_component_readiness :: "observation list \<Rightarrow> string option \<Rightarrow> readiness option res" where
  "calculate_component_readiness parent_observations interrupt_start_origin =
     (if interrupt_start_origin = Some '''' then Inl (ValueError ''invalid interrupt start origin'')
      else res_bind (readiness_loop parent_observations None False) (\<lambda>(result, blocked).
        if blocked then Inr (case interrupt_start_origin of
            None \<Rightarrow> None | Some origin \<Rightarrow> Some (''unstable'', Some origin, True))
        else Inr (Some (case result of None \<Rightarrow> (''stable'', None, False) | Some r \<Rightarrow> r))))"

definition calculate_sampled_resume_lineage :: "string option \<Rightarrow> string option \<Rightarrow> readiness \<Rightarrow>
    (string \<times> string option) option res" where
  "calculate_sampled_resume_lineage stability instability_origin parent_readiness =
     (if \<not> valid_result stability instability_origin then Inl (ValueError ''invalid sampled component result'')
      else if fst parent_readiness = ''unstable'' \<and>
          (the stability, instability_origin) \<noteq> (fst parent_readiness, fst (snd parent_readiness))
      then Inr None
      else Inr (Some (the stability, instability_origin)))"

text \<open>
  Subscripting a \<open>None\<close> readiness raises \<open>TypeError\<close>; it is reached only after the lineage is known.
\<close>

definition calculate_interrupt_sampled_resume_readiness ::
    "string option \<times> string option \<Rightarrow> observation list \<Rightarrow> string option \<Rightarrow> readiness option res" where
  "calculate_interrupt_sampled_resume_readiness retained parent_observations interrupt_start_origin =
     res_bind (calculate_component_readiness parent_observations interrupt_start_origin) (\<lambda>readiness.
     res_bind (calculate_component_readiness
        (filter (\<lambda>item. fst item = ''done'') parent_observations) None) (\<lambda>completed.
     case completed of None \<Rightarrow> Inr None
     | Some c \<Rightarrow> res_bind (calculate_sampled_resume_lineage (fst retained) (snd retained) c) (\<lambda>lineage.
         case lineage of None \<Rightarrow> Inr None
         | Some (stability, origin) \<Rightarrow> (case readiness of
             None \<Rightarrow> Inl (TypeError ''NoneType object is not subscriptable'')
           | Some r \<Rightarrow> Inr (Some (stability, origin, snd (snd r)))))))"

section \<open>A closed form of the loop\<close>

definition good_observation :: "observation \<Rightarrow> bool" where
  "good_observation = (\<lambda>(lifecycle, stability, origin). lifecycle \<in> set lifecycles \<and>
     (lifecycle = ''done'' \<longrightarrow> valid_result stability origin))"

definition observed_lineage :: "observation \<Rightarrow> readiness" where
  "observed_lineage = (\<lambda>(lifecycle, stability, origin). (the stability, origin, False))"

lemma snd_snd_observed [simp]: "snd (snd (observed_lineage ob)) = False"
  by (cases ob) (simp add: observed_lineage_def)

definition done_lineages :: "observation list \<Rightarrow> readiness set" where
  "done_lineages obs = observed_lineage ` {ob \<in> set obs. fst ob = ''done''}"

lemma done_lineages_Cons:
  "done_lineages (ob # obs) =
     (if fst ob = ''done'' then insert (observed_lineage ob) (done_lineages obs) else done_lineages obs)"
  by (auto simp: done_lineages_def)

definition opt_set :: "'a option \<Rightarrow> 'a set" where
  "opt_set r = (case r of None \<Rightarrow> {} | Some x \<Rightarrow> {x})"

lemma opt_set_simps [simp]: "opt_set None = {}" "opt_set (Some x) = {x}"
  by (simp_all add: opt_set_def)

lemma readiness_loop_error:
  "(\<exists>e. readiness_loop obs result blocked = Inl (ValueError e)) \<longleftrightarrow> (\<exists>ob\<in>set obs. \<not> good_observation ob)"
  by (induction obs result blocked rule: readiness_loop.induct)
    (auto simp: good_observation_def Let_def split: if_splits)

definition all_agree :: "'a set \<Rightarrow> bool" where
  "all_agree X \<longleftrightarrow> (\<forall>x\<in>X. \<forall>y\<in>X. x = y)"

lemma readiness_loop_ok:
  assumes "\<forall>ob\<in>set obs. good_observation ob"
  shows "\<exists>result'. readiness_loop obs result blocked = Inr (result', blocked \<or>
      (\<exists>ob\<in>set obs. fst ob \<noteq> ''done'') \<or> \<not> all_agree (opt_set result \<union> done_lineages obs)) \<and>
    opt_set result' \<subseteq> opt_set result \<union> done_lineages obs \<and>
    (result' = None \<longleftrightarrow> result = None \<and> done_lineages obs = {})"
  using assms
proof (induction obs result blocked rule: readiness_loop.induct)
  case (1 result blocked)
  then show ?case by (cases result) (auto simp: done_lineages_def all_agree_def)
next
  case (2 lifecycle stability origin obs result blocked)
  let ?r = "(the stability, origin, False)"
  show ?case
  proof (cases "lifecycle = ''done''")
    case False
    then show ?thesis using 2 by (auto simp: good_observation_def done_lineages_Cons)
  next
    case True
    have ok: "lifecycle \<in> set lifecycles" "valid_result stability origin" "\<forall>ob\<in>set obs. good_observation ob"
      using 2(3) True by (auto simp: good_observation_def)
    define b where "b = (if result \<noteq> None \<and> result \<noteq> Some ?r then True else blocked)"
    obtain result' where r: "readiness_loop obs (Some ?r) b = Inr (result', b \<or>
      (\<exists>ob\<in>set obs. fst ob \<noteq> ''done'') \<or> \<not> all_agree (opt_set (Some ?r) \<union> done_lineages obs))"
      "opt_set result' \<subseteq> opt_set (Some ?r) \<union> done_lineages obs" "result' \<noteq> None"
      using 2(2) [OF _ _ _ refl ok(3)] True ok unfolding b_def by blast
    have lin: "done_lineages ((lifecycle, stability, origin) # obs) = insert ?r (done_lineages obs)"
      by (simp add: done_lineages_Cons True observed_lineage_def)
    have agree: "(b \<or> \<not> all_agree (opt_set (Some ?r) \<union> done_lineages obs)) \<longleftrightarrow>
        (blocked \<or> \<not> all_agree (opt_set result \<union> insert ?r (done_lineages obs)))"
      unfolding b_def by (cases result) (auto simp: all_agree_def)
    have "readiness_loop ((lifecycle, stability, origin) # obs) result blocked = readiness_loop obs (Some ?r) b"
      unfolding b_def using ok(1,2) True by (simp only: readiness_loop.simps Let_def not_not if_False simp_thms)
    moreover have bool: "(b \<or> (\<exists>ob\<in>set obs. fst ob \<noteq> ''done'') \<or> \<not> all_agree (opt_set (Some ?r) \<union> done_lineages obs))
      \<longleftrightarrow> (blocked \<or> (\<exists>ob\<in>set ((lifecycle, stability, origin) # obs). fst ob \<noteq> ''done'') \<or>
           \<not> all_agree (opt_set result \<union> insert ?r (done_lineages obs)))"
      using agree True by (metis fst_conv set_ConsD list.set_intros(2))
    moreover have "opt_set result' \<subseteq> opt_set result \<union> insert ?r (done_lineages obs)" using r(2) by auto
    ultimately show ?thesis
      unfolding lin using r(3) by (intro exI [of _ result'] conjI) (simp_all only: r(1) bool insert_not_empty simp_thms)
  qed
qed

text \<open>The readiness decision without the loop: what the parents jointly say.\<close>

definition joint_readiness :: "observation list \<Rightarrow> string option \<Rightarrow> readiness option" where
  "joint_readiness obs origin =
     (if (\<forall>ob\<in>set obs. fst ob = ''done'') \<and> all_agree (done_lineages obs)
      then Some (if obs = [] then (''stable'', None, False) else observed_lineage (hd obs))
      else map_option (\<lambda>o'. (''unstable'', Some o', True)) origin)"

lemma readiness_closed:
  assumes "\<forall>ob\<in>set obs. good_observation ob" and "origin \<noteq> Some ''''"
  shows "calculate_component_readiness obs origin = Inr (joint_readiness obs origin)"
proof -
  let ?blocked = "(\<exists>ob\<in>set obs. fst ob \<noteq> ''done'') \<or> \<not> all_agree (done_lineages obs)"
  obtain result where r: "readiness_loop obs None False = Inr (result, ?blocked)"
    "opt_set result \<subseteq> done_lineages obs" "result = None \<longleftrightarrow> done_lineages obs = {}"
    using readiness_loop_ok [OF assms(1), of None False] by auto
  show ?thesis
  proof (cases ?blocked)
    case True
    then show ?thesis using r(1) assms(2)
      by (auto simp: calculate_component_readiness_def joint_readiness_def split: option.splits)
  next
    case False
    have "result = (if obs = [] then None else Some (observed_lineage (hd obs)))"
    proof (cases obs)
      case Nil
      then show ?thesis using r(3) by (simp add: done_lineages_def)
    next
      case (Cons ob obs')
      then have "observed_lineage ob \<in> done_lineages obs" using False by (auto simp: done_lineages_def)
      moreover from this obtain x where "result = Some x" "x \<in> done_lineages obs" using r(2,3) by (cases result) auto
      ultimately show ?thesis using False Cons by (simp add: all_agree_def)
    qed
    then show ?thesis using r(1) False assms(2)
      by (simp add: calculate_component_readiness_def joint_readiness_def)
  qed
qed

lemma agreeing_lineages:
  fixes obs :: "observation list"
  defines "fin \<equiv> filter (\<lambda>item. fst item = ''done'') obs"
  assumes agree: "all_agree (done_lineages obs)"
  shows "done_lineages obs = (if fin = [] then {} else {if fin = [] then (''stable'', None, False) else observed_lineage (hd fin)})"
proof (cases "fin = []")
  case True
  then show ?thesis by (simp add: done_lineages_def fin_def filter_empty_conv)
next
  case False
  have "done_lineages obs = observed_lineage ` set fin" by (simp add: done_lineages_def fin_def)
  moreover have "hd fin \<in> set fin" using False by (rule hd_in_set)
  ultimately have "done_lineages obs = {observed_lineage (hd fin)}"
    using agree unfolding all_agree_def by blast
  with False show ?thesis by (simp only: if_False)
qed

text \<open>Only a parent that is not done makes an agreeing set of parents use the override.\<close>

lemma joint_override:
  assumes "all_agree (done_lineages obs)" and r: "joint_readiness obs (Some origin) = Some r"
  shows "snd (snd r) \<longleftrightarrow> (\<exists>ob\<in>set obs. fst ob \<noteq> ''done'')"
proof (cases "\<forall>ob\<in>set obs. fst ob = ''done''")
  case True
  then have "joint_readiness obs (Some origin) =
      Some (if obs = [] then (''stable'', None, False) else observed_lineage (hd obs))"
    unfolding joint_readiness_def by (intro if_P conjI assms(1))
  with r have "r = (if obs = [] then (''stable'', None, False) else observed_lineage (hd obs))"
    by (simp only: option.inject)
  then have "snd (snd r) = False" by simp
  with True show ?thesis by blast
next
  case False
  then have "Some r = Some (''unstable'', Some origin, True)"
    using r by (simp only: joint_readiness_def option.map simp_thms if_False)
  with False show ?thesis by simp
qed

section \<open>Properties\<close>

text \<open>
  C21. Readiness is the joint verdict of the parents. Malformed input (an empty interrupt origin, an
  unknown lifecycle, a \<open>done\<close> parent without a valid lineage, wherever it stands in the list) raises
  \<open>ValueError\<close>. Otherwise the component is ready without override exactly when every parent is done and
  all parents carry the same lineage, which it inherits (no parents: stable); in every other case it is
  blocked, and only an interrupt start gets through, as unstable under its own origin and marked as an
  override.
\<close>

theorem calculate_component_readiness_correct:
  "case calculate_component_readiness obs origin of
     Inl e \<Rightarrow> (\<exists>m. e = ValueError m) \<and> (origin = Some '''' \<or> (\<exists>ob\<in>set obs. \<not> good_observation ob))
   | Inr readiness \<Rightarrow> origin \<noteq> Some '''' \<and> (\<forall>ob\<in>set obs. good_observation ob) \<and>
       readiness = joint_readiness obs origin"
proof (cases "origin = Some '''' \<or> (\<exists>ob\<in>set obs. \<not> good_observation ob)")
  case True
  have "\<exists>m. calculate_component_readiness obs origin = Inl (ValueError m)"
    using True readiness_loop_error [of obs None False] by (auto simp: calculate_component_readiness_def)
  with True show ?thesis by auto
qed (auto simp: readiness_closed)

theorem calculate_component_readiness_correct_witness:
  "calculate_component_readiness [(''done'', Some ''unstable'', Some ''s1''), (''done'', Some ''stable'', None)]
     (Some ''s2'') = Inr (Some (''unstable'', Some ''s2'', True)) \<and>
   joint_readiness [(''done'', Some ''unstable'', Some ''s1''), (''done'', Some ''stable'', None)] (Some ''s2'')
     = Some (''unstable'', Some ''s2'', True)"
proof -
  let ?obs = "[(''done'', Some ''unstable'', Some ''s1''), (''done'', Some ''stable'', None)]"
  have eval: "calculate_component_readiness ?obs (Some ''s2'') = Inr (Some (''unstable'', Some ''s2'', True))"
    by code_simp
  with calculate_component_readiness_correct [of "Some ''s2''" ?obs]
  have "Some (''unstable'', Some ''s2'', True) = joint_readiness ?obs (Some ''s2'')"
    by (simp only: sum.case)
  with eval show ?thesis by simp
qed

text \<open>
  C22. The verdict does not depend on the order in which the parents are observed, nor on a parent being
  observed twice: two lists with the same observations give the same readiness, or both are refused.
\<close>

theorem readiness_order_independent:
  assumes "set obs = set obs'"
  shows "case calculate_component_readiness obs origin of
     Inr readiness \<Rightarrow> calculate_component_readiness obs' origin = Inr readiness
   | Inl e \<Rightarrow> (\<exists>m. calculate_component_readiness obs' origin = Inl (ValueError m))"
proof (cases "origin = Some '''' \<or> (\<exists>ob\<in>set obs. \<not> good_observation ob)")
  case True
  then have "\<exists>m. calculate_component_readiness ob origin = Inl (ValueError m)" if "set ob = set obs" for ob
    using that readiness_loop_error [of ob None False] by (auto simp: calculate_component_readiness_def)
  from this [of obs] this [of obs'] assms show ?thesis by auto
next
  case False
  have empty: "obs = [] \<longleftrightarrow> obs' = []" using assms by (metis set_empty)
  have lin: "done_lineages obs = done_lineages obs'" using assms by (simp add: done_lineages_def)
  have "observed_lineage (hd obs) = observed_lineage (hd obs')"
    if "obs \<noteq> []" "\<forall>ob\<in>set obs. fst ob = ''done''" "all_agree (done_lineages obs)"
  proof -
    have "hd obs \<in> set obs" using that(1) by (rule hd_in_set)
    moreover have "hd obs' \<in> set obs" unfolding assms using that(1) empty by (intro hd_in_set) simp
    ultimately have "fst (hd obs) = ''done''" "fst (hd obs') = ''done''" "hd obs \<in> set obs" "hd obs' \<in> set obs"
      using that(2) by blast+
    then have "observed_lineage (hd obs) \<in> done_lineages obs" "observed_lineage (hd obs') \<in> done_lineages obs"
      unfolding done_lineages_def by blast+
    then show ?thesis using that(3) unfolding all_agree_def by blast
  qed
  then have "joint_readiness obs origin = joint_readiness obs' origin"
    unfolding joint_readiness_def using assms lin empty by auto
  then show ?thesis using False assms by (simp add: readiness_closed)
qed

theorem readiness_order_independent_witness:
  "calculate_component_readiness [(''queued'', None, None), (''done'', Some ''stable'', None), (''queued'', None, None)] None
     = Inr None"
proof -
  let ?a = "[(''done'', Some ''stable'', None), (''queued'', None, None)]"
  let ?b = "[(''queued'', None, None), (''done'', Some ''stable'', None), (''queued'', None, None)]"
  have "set ?a = set ?b" by (simp add: insert_commute)
  moreover have "calculate_component_readiness ?a None = Inr None" by code_simp
  ultimately show ?thesis using readiness_order_independent [of ?a ?b None] by (simp only: sum.case)
qed

text \<open>
  C23. Resuming a sample under an interrupt: the retained lineage is either kept unchanged or the resume is
  refused, never replaced; it is kept only if every completed parent agrees with every other and, when
  they are unstable, with the retained lineage; and the calculation never trips over a missing readiness,
  since an interrupt start always has one.
\<close>

theorem interrupt_sampled_resume_keeps_lineage:
  assumes "\<forall>ob\<in>set obs. good_observation ob" and "origin \<noteq> ''''" and "valid_result stability instability_origin"
  shows "\<exists>readiness. calculate_interrupt_sampled_resume_readiness (stability, instability_origin) obs (Some origin)
       = Inr readiness \<and>
     (readiness = None \<longleftrightarrow> \<not> all_agree (done_lineages obs) \<or>
        (\<exists>x. (''unstable'', x, False) \<in> done_lineages obs \<and>
             (stability, instability_origin) \<noteq> (Some ''unstable'', x))) \<and>
     (\<forall>s i override. readiness = Some (s, i, override) \<longrightarrow> Some s = stability \<and> i = instability_origin \<and>
        (override \<longleftrightarrow> (\<exists>ob\<in>set obs. fst ob \<noteq> ''done'')))"
proof -
  let ?done = "filter (\<lambda>item. fst item = ''done'') obs"
  have fin: "\<forall>ob\<in>set ?done. fst ob = ''done''" "\<forall>ob\<in>set ?done. good_observation ob"
    "done_lineages ?done = done_lineages obs" using assms(1) by (auto simp: done_lineages_def)
  have ready: "calculate_component_readiness obs (Some origin) = Inr (joint_readiness obs (Some origin))"
    "calculate_component_readiness ?done None = Inr (joint_readiness ?done None)"
    using assms(1,2) fin(2) by (intro readiness_closed; simp)+
  obtain st where st: "stability = Some st" using assms(3) by (auto simp: valid_result_def)
  have "joint_readiness obs (Some origin) \<noteq> None"
    unfolding joint_readiness_def by (simp split del: if_split) (auto simp: observed_lineage_def split: prod.split)
  then obtain r where r: "joint_readiness obs (Some origin) = Some r" by blast
  show ?thesis
  proof (cases "all_agree (done_lineages obs)")
    case False
    then have "joint_readiness ?done None = None" using fin(3) by (simp add: joint_readiness_def)
    then show ?thesis using False ready r by (simp add: calculate_interrupt_sampled_resume_readiness_def)
  next
    case True
    let ?c = "if ?done = [] then (''stable'', None, False) else observed_lineage (hd ?done)"
    have c: "joint_readiness ?done None = Some ?c" using True fin by (simp add: joint_readiness_def)
    note mem = agreeing_lineages [OF True]
    note override = joint_override [OF True r]
    obtain cs co f where f: "?c = (cs, co, f)" by (rule prod_cases3)
    moreover have "snd (snd ?c) = False" by simp
    ultimately have cso: "?c = (cs, co, False)" by (simp only: snd_conv)
    have refuse: "(\<exists>x. (''unstable'', x, False) \<in> done_lineages obs \<and> (stability, instability_origin) \<noteq> (Some ''unstable'', x))
        \<longleftrightarrow> cs = ''unstable'' \<and> (st, instability_origin) \<noteq> (cs, co)"
    proof (cases "?done = []")
      case True
      then show ?thesis using cso unfolding mem by auto
    next
      case False
      then have "done_lineages obs = {(cs, co, False)}" using mem cso by (simp only: if_False)
      then show ?thesis using st by auto
    qed
    let ?refuse = "cs = ''unstable'' \<and> (st, instability_origin) \<noteq> (cs, co)"
    have "calculate_sampled_resume_lineage stability instability_origin ?c =
        Inr (if ?refuse then None else Some (st, instability_origin))"
      unfolding cso using assms(3) by (simp add: calculate_sampled_resume_lineage_def st)
    then have "calculate_interrupt_sampled_resume_readiness (stability, instability_origin) obs (Some origin) =
        Inr (if ?refuse then None else Some (st, instability_origin, snd (snd r)))"
      unfolding calculate_interrupt_sampled_resume_readiness_def ready r c by simp
    then show ?thesis unfolding refuse override using True st by (cases ?refuse) simp_all
  qed
qed

theorem interrupt_sampled_resume_keeps_lineage_witness:
  "calculate_interrupt_sampled_resume_readiness (Some ''unstable'', Some ''s1'')
     [(''done'', Some ''unstable'', Some ''s1''), (''failed'', None, None)] (Some ''s2'')
   = Inr (Some (''unstable'', Some ''s1'', True)) \<and>
   all_agree (done_lineages [(''done'', Some ''unstable'', Some ''s1''), (''failed'', None, None)])"
proof -
  let ?obs = "[(''done'', Some ''unstable'', Some ''s1''), (''failed'', None, None)]"
  have good: "\<forall>ob\<in>set ?obs. good_observation ob" "''s2'' \<noteq> ''''" "valid_result (Some ''unstable'') (Some ''s1'')"
    by code_simp+
  have eval: "calculate_interrupt_sampled_resume_readiness (Some ''unstable'', Some ''s1'') ?obs (Some ''s2'')
    = Inr (Some (''unstable'', Some ''s1'', True))" by code_simp
  from interrupt_sampled_resume_keeps_lineage [OF good] eval have "all_agree (done_lineages ?obs)"
    by (metis option.distinct(1) sum.inject(2))
  with eval show ?thesis by (rule conjI)
qed

end
