(* ===== verification/Capacity.thy ===== *)
theory Capacity
  imports MWF_Prelude
begin

text \<open>
  Shared capacity: \<open>allocate_api_capacity\<close> of \<open>api_limits.py\<close> splits one API admission budget over the
  active nodes, \<open>allocate_api_pumps\<close> of \<open>workflow/component_scheduler.py\<close> splits one pool of controller
  pumps. Dictionaries are insertion-ordered association lists; the floating-point benefit of a pump is
  the exact quotient. Proved: both loops terminate, the shares add up to exactly the target within the
  per-node bounds, and the greedy pump allocation is optimal.
\<close>

section \<open>The API admission budget\<close>

type_synonym shares = "(string \<times> int) list"

abbreviation share_of :: "shares \<Rightarrow> string \<Rightarrow> int" where
  "share_of d name \<equiv> the (dict_get d name)"

definition share_total :: "shares \<Rightarrow> int" where
  "share_total d = sum_list (map snd d)"

text \<open>One pass of the growing loop over \<open>remainders\<close>: the flag is \<open>changed\<close>.\<close>

fun grow_pass :: "shares \<Rightarrow> int \<Rightarrow> string list \<Rightarrow> shares \<Rightarrow> int \<Rightarrow> bool \<Rightarrow> shares \<times> int \<times> bool" where
  "grow_pass checked target [] shares used changed = (shares, used, changed)"
| "grow_pass checked target (name # names) shares used changed =
     (if share_of shares name \<ge> share_of checked name then grow_pass checked target names shares used changed
      else let shares' = dict_set shares name (share_of shares name + 1); used' = used + 1 in
        if used' = target then (shares', used', True)
        else grow_pass checked target names shares' used' True)"

lemma grow_pass_used:
  "grow_pass checked target names shares used changed = (shares', used', changed') \<Longrightarrow>
     used' \<ge> used \<and> (changed \<longrightarrow> changed') \<and> (changed' \<longrightarrow> changed \<or> used' > used)"
  by (induction checked target names shares used changed arbitrary: shares' used' changed' rule: grow_pass.induct)
    (fastforce simp: Let_def split: if_splits)+

function grow :: "shares \<Rightarrow> int \<Rightarrow> string list \<Rightarrow> shares \<Rightarrow> int \<Rightarrow> shares \<times> int" where
  "grow checked target remainders shares used =
     (if used < target then
        (case grow_pass checked target remainders shares used False of
           (shares', used', changed) \<Rightarrow>
             if changed then grow checked target remainders shares' used' else (shares', used'))
      else (shares, used))"
  by pat_completeness auto

termination grow
proof (relation "measure (\<lambda>(_, target, _, _, used). nat (target - used))", goal_cases)
  case (2 checked target remainders shares used shares' y used' changed)
  then have "grow_pass checked target remainders shares used False = (shares', used', changed)" by simp
  from grow_pass_used [OF this] 2(1,4) show ?case by simp
qed simp

text \<open>One pass of the shrinking loop, over the remainders backwards.\<close>

fun shrink_pass :: "int \<Rightarrow> string list \<Rightarrow> shares \<Rightarrow> int \<Rightarrow> bool \<Rightarrow> shares \<times> int \<times> bool" where
  "shrink_pass target [] shares used changed = (shares, used, changed)"
| "shrink_pass target (name # names) shares used changed =
     (if share_of shares name \<le> 1 then shrink_pass target names shares used changed
      else let shares' = dict_set shares name (share_of shares name - 1); used' = used - 1 in
        if used' = target then (shares', used', True)
        else shrink_pass target names shares' used' True)"

lemma shrink_pass_used:
  "shrink_pass target names shares used changed = (shares', used', changed') \<Longrightarrow>
     used' \<le> used \<and> (changed \<longrightarrow> changed') \<and> (changed' \<longrightarrow> changed \<or> used' < used)"
  by (induction target names shares used changed arbitrary: shares' used' changed' rule: shrink_pass.induct)
    (fastforce simp: Let_def split: if_splits)+

function shrink :: "int \<Rightarrow> string list \<Rightarrow> shares \<Rightarrow> int \<Rightarrow> shares \<times> int" where
  "shrink target remainders shares used =
     (if used > target then
        (case shrink_pass target (rev remainders) shares used False of
           (shares', used', changed) \<Rightarrow>
             if changed then shrink target remainders shares' used' else (shares', used'))
      else (shares, used))"
  by pat_completeness auto

termination shrink
proof (relation "measure (\<lambda>(target, _, _, used). nat (used - target))", goal_cases)
  case (2 target remainders shares used shares' y used' changed)
  then have "shrink_pass target (rev remainders) shares used False = (shares', used', changed)" by simp
  from shrink_pass_used [OF this] 2(1,4) show ?case by simp
qed simp

declare grow.simps [simp del] shrink.simps [simp del]

definition check_requests :: "shares \<Rightarrow> shares" where
  "check_requests requested = map (\<lambda>(name, value). (name, max 1 value)) requested"

definition remainders_of :: "shares \<Rightarrow> int \<Rightarrow> int \<Rightarrow> string list" where
  "remainders_of checked target requested_total =
     sort_key (\<lambda>name. (- ((target * share_of checked name) mod requested_total), name)) (dict_keys checked)"

definition allocate_api_capacity :: "shares \<Rightarrow> int option \<Rightarrow> shares" where
  "allocate_api_capacity requested configured_total =
     (let checked = check_requests requested; requested_total = share_total checked in
      if checked = [] then []
      else case configured_total of
        None \<Rightarrow> checked
      | Some configured \<Rightarrow>
          if configured \<ge> requested_total then checked
          else let target = max (int (length checked)) configured;
                   shares = map (\<lambda>(name, value). (name, max 1 (target * value div requested_total))) checked;
                   remainders = remainders_of checked target requested_total;
                   (shares, used) = grow checked target remainders shares (share_total shares)
               in fst (shrink target remainders shares used))"

subsection \<open>The loops reach the target\<close>

text \<open>The loop invariant: same nodes, every share between one and its request, \<open>used\<close> is the sum.\<close>

definition shares_ok :: "shares \<Rightarrow> shares \<Rightarrow> int \<Rightarrow> bool" where
  "shares_ok checked shares used \<longleftrightarrow> dict_keys shares = dict_keys checked \<and> distinct (dict_keys checked) \<and>
     (\<forall>name\<in>set (dict_keys checked). 1 \<le> share_of shares name \<and> share_of shares name \<le> share_of checked name) \<and>
     used = share_total shares"

lemma total_dict_set:
  assumes "distinct (dict_keys d)" and "k \<in> set (dict_keys d)"
  shows "share_total (dict_set d k v) = share_total d + v - share_of d k"
  using assms
proof (induction d k v rule: dict_set.induct)
  case (2 k' v' d k v)
  then show ?case by (cases "k' = k") (auto simp: share_total_def dict_keys_def dict_get_def)
qed (simp add: dict_keys_def)

lemma shares_ok_set:
  assumes "shares_ok checked shares used" and "name \<in> set (dict_keys checked)"
    and "1 \<le> v" and "v \<le> share_of checked name"
  shows "shares_ok checked (dict_set shares name v) (used + v - share_of shares name)"
  using assms by (auto simp: shares_ok_def dict_simps total_dict_set)

lemma grow_pass_ok:
  assumes "grow_pass checked target names shares used changed = (shares', used', changed')"
    and "shares_ok checked shares used" and "set names \<subseteq> set (dict_keys checked)" and "used < target"
  shows "shares_ok checked shares' used' \<and> used' \<le> target \<and>
    (changed' \<or> shares' = shares \<and> (\<forall>name\<in>set names. share_of shares name \<ge> share_of checked name))"
  using assms
proof (induction checked target names shares used changed arbitrary: shares' used' changed' rule: grow_pass.induct)
  case (2 checked target name names shares used changed)
  let ?s = "dict_set shares name (share_of shares name + 1)"
  have n: "name \<in> set (dict_keys checked)" using "2.prems"(3) by simp
  show ?case
  proof (cases "share_of shares name \<ge> share_of checked name")
    case True
    then show ?thesis using 2(1) [OF True, of shares' used' changed'] "2.prems" by auto
  next
    case False
    have ok: "shares_ok checked ?s (used + 1)"
      using shares_ok_set [OF "2.prems"(2) n, of "share_of shares name + 1"] False "2.prems"(2) n
      by (auto simp: shares_ok_def)
    show ?thesis
    proof (cases "used + 1 = target")
      case True
      then show ?thesis using ok False "2.prems"(1) by (auto simp: Let_def)
    next
      case more: False
      have run: "grow_pass checked target names ?s (used + 1) True = (shares', used', changed')"
        using "2.prems"(1) False more by (simp add: Let_def)
      then show ?thesis
        using 2(2) [OF False refl refl more run ok] grow_pass_used [OF run] "2.prems"(3,4) more by simp
    qed
  qed
qed simp

lemma shrink_pass_ok:
  assumes "shrink_pass target names shares used changed = (shares', used', changed')"
    and "shares_ok checked shares used" and "set names \<subseteq> set (dict_keys checked)" and "used > target"
  shows "shares_ok checked shares' used' \<and> used' \<ge> target \<and>
    (changed' \<or> shares' = shares \<and> (\<forall>name\<in>set names. share_of shares name \<le> 1))"
  using assms
proof (induction target names shares used changed arbitrary: shares' used' changed' rule: shrink_pass.induct)
  case (2 target name names shares used changed)
  let ?s = "dict_set shares name (share_of shares name - 1)"
  have n: "name \<in> set (dict_keys checked)" using "2.prems"(3) by simp
  show ?case
  proof (cases "share_of shares name \<le> 1")
    case True
    then show ?thesis using 2(1) [OF True, of shares' used' changed'] "2.prems" by auto
  next
    case False
    have "share_of shares name \<le> share_of checked name" using "2.prems"(2) n by (auto simp: shares_ok_def)
    then have ok: "shares_ok checked ?s (used - 1)"
      using shares_ok_set [OF "2.prems"(2) n, of "share_of shares name - 1"] False by simp
    show ?thesis
    proof (cases "used - 1 = target")
      case True
      then show ?thesis using ok False "2.prems"(1) by (auto simp: Let_def)
    next
      case more: False
      have run: "shrink_pass target names ?s (used - 1) True = (shares', used', changed')"
        using "2.prems"(1) False more by (simp add: Let_def)
      then show ?thesis
        using 2(2) [OF False refl refl more run ok] shrink_pass_used [OF run] "2.prems"(3,4) more by simp
    qed
  qed
qed simp

lemma total_keys: "distinct (dict_keys d) \<Longrightarrow> share_total d = (\<Sum>k\<in>set (dict_keys d). share_of d k)"
proof (induction d)
  case (Cons kv d)
  obtain k v where kv: "kv = (k, v)" by fastforce
  have "(\<Sum>x\<in>set (dict_keys d). share_of ((k, v) # d) x) = (\<Sum>x\<in>set (dict_keys d). share_of d x)"
    using Cons.prems kv by (intro sum.cong) (auto simp: dict_get_def dict_keys_def)
  then show ?case using Cons kv by (auto simp: share_total_def dict_keys_def dict_get_def)
qed (simp add: share_total_def dict_keys_def)

lemma grow_reaches:
  assumes "shares_ok checked shares used" and "set remainders = set (dict_keys checked)"
    and "target \<le> share_total checked"
  shows "case grow checked target remainders shares used of (shares', used') \<Rightarrow>
    shares_ok checked shares' used' \<and> used' = max used target"
  using assms
proof (induction checked target remainders shares used rule: grow.induct)
  case (1 checked target remainders shares used)
  obtain s u c where p: "grow_pass checked target remainders shares used False = (s, u, c)"
    by (metis prod_cases3)
  show ?case
  proof (cases "used < target")
    case True
    note pass = grow_pass_ok [OF p "1.prems"(1) _ True] grow_pass_used [OF p]
    have False if "\<not> c"
    proof -
      have "share_total checked \<le> share_total shares"
        using pass(1) "1.prems" that
        by (auto simp: shares_ok_def total_keys intro!: sum_mono)
      then show False using True "1.prems"(1,3) by (simp add: shares_ok_def)
    qed
    then have c: "c" by blast
    have "case grow checked target remainders s u of (shares', used') \<Rightarrow>
        shares_ok checked shares' used' \<and> used' = max u target"
      using 1(1) [OF True p [symmetric] refl c] pass "1.prems" by simp
    moreover have "grow checked target remainders shares used = grow checked target remainders s u"
      using True p c by (subst grow.simps) simp
    ultimately show ?thesis using True pass "1.prems"(2) by (auto simp: max_def split: prod.splits)
  next
    case False
    then show ?thesis using "1.prems" by (subst grow.simps) (auto simp: max_def)
  qed
qed

lemma shrink_reaches:
  assumes "shares_ok checked shares used" and "set remainders = set (dict_keys checked)"
    and "int (length checked) \<le> target"
  shows "case shrink target remainders shares used of (shares', used') \<Rightarrow>
    shares_ok checked shares' used' \<and> used' = min used target"
  using assms
proof (induction target remainders shares used rule: shrink.induct)
  case (1 target remainders shares used)
  obtain s u c where p: "shrink_pass target (rev remainders) shares used False = (s, u, c)"
    by (metis prod_cases3)
  show ?case
  proof (cases "used > target")
    case True
    note pass = shrink_pass_ok [OF p "1.prems"(1) _ True] shrink_pass_used [OF p]
    have False if "\<not> c"
    proof -
      have "share_of shares name \<le> 1" if "name \<in> set (dict_keys checked)" for name
        using that pass(1) "1.prems"(2) \<open>\<not> c\<close> by simp
      then have "share_total shares \<le> (\<Sum>k\<in>set (dict_keys checked). 1)"
        using "1.prems"(1) by (simp only: shares_ok_def total_keys) (intro sum_mono, simp)
      also have "\<dots> = int (length checked)"
        using "1.prems"(1) by (simp add: shares_ok_def distinct_card) (simp add: dict_keys_def)
      finally show False using True "1.prems"(1,3) by (simp add: shares_ok_def)
    qed
    then have c: "c" by blast
    have "case shrink target remainders s u of (shares', used') \<Rightarrow>
        shares_ok checked shares' used' \<and> used' = min u target"
      using 1(1) [OF True p [symmetric] refl c] pass "1.prems" by simp
    moreover have "shrink target remainders shares used = shrink target remainders s u"
      using True p c by (subst shrink.simps) simp
    ultimately show ?thesis using True pass "1.prems"(2) by (auto simp: min_def split: prod.splits)
  next
    case False
    then show ?thesis using "1.prems" by (subst shrink.simps) (auto simp: min_def)
  qed
qed

lemma check_requests_facts:
  "dict_keys (check_requests requested) = dict_keys requested"
  "(name, v) \<in> set (check_requests requested) \<Longrightarrow> 1 \<le> v"
  by (auto simp: check_requests_def dict_keys_def)

lemma share_of_map:
  "name \<in> set (dict_keys d) \<Longrightarrow> share_of (map (\<lambda>(name, value). (name, f value)) d) name = f (share_of d name)"
  by (induction d) (auto simp: dict_get_def dict_keys_def)

text \<open>The proportional start of the loops already respects the bounds.\<close>

lemma initial_shares_ok:
  fixes checked :: shares
  assumes "distinct (dict_keys checked)" and "\<forall>name\<in>set (dict_keys checked). 1 \<le> share_of checked name"
    and "0 \<le> target" and "target \<le> share_total checked" and "0 < share_total checked"
  defines "shares \<equiv> map (\<lambda>(name, value). (name, max 1 (target * value div share_total checked))) checked"
  shows "shares_ok checked shares (share_total shares)"
proof -
  have "target * v div share_total checked \<le> v" if "1 \<le> v" for v
  proof -
    have "target * v div share_total checked \<le> share_total checked * v div share_total checked"
      using assms(3-5) that by (intro zdiv_mono1) (auto intro: mult_right_mono)
    then show ?thesis using assms(5) by simp
  qed
  then have "1 \<le> share_of shares name \<and> share_of shares name \<le> share_of checked name"
    if "name \<in> set (dict_keys checked)" for name
    unfolding shares_def share_of_map [OF that] using assms(2) that by simp
  moreover have "dict_keys shares = dict_keys checked" by (auto simp: shares_def dict_keys_def)
  ultimately show ?thesis using assms(1) by (simp add: shares_ok_def)
qed

text \<open>
  C8. The API budget is split exactly. For any requests, \<open>allocate_api_capacity\<close> returns (its two
  adjustment loops always end) a share for each requested node and no other, every share is at least one
  and at most the node's request, and the shares add up to the smaller of the requested total and the
  configured budget, where a budget below one slot per node counts as one slot per node.
\<close>

theorem allocate_api_capacity_exact:
  assumes "distinct (dict_keys requested)"
  shows "dict_keys (allocate_api_capacity requested budget) = dict_keys requested \<and>
    (\<forall>name\<in>set (dict_keys requested).
       1 \<le> share_of (allocate_api_capacity requested budget) name \<and>
       share_of (allocate_api_capacity requested budget) name \<le> max 1 (share_of requested name)) \<and>
    share_total (allocate_api_capacity requested budget) =
      (case budget of None \<Rightarrow> share_total (check_requests requested)
       | Some b \<Rightarrow> min (share_total (check_requests requested)) (max (int (length requested)) b))"
proof -
  let ?c = "check_requests requested"
  have keys: "dict_keys ?c = dict_keys requested" by (rule check_requests_facts)
  have checked: "share_of ?c name = max 1 (share_of requested name)" if "name \<in> set (dict_keys requested)" for name
    using share_of_map [OF that, of "max 1"] by (simp add: check_requests_def)
  have len: "int (length requested) = (\<Sum>k\<in>set (dict_keys requested). 1)"
    using distinct_card [OF assms] by (simp add: dict_keys_def)
  have low: "int (length requested) \<le> share_total ?c"
    unfolding len using checked assms by (simp only: total_keys keys) (intro sum_mono, simp)
  show ?thesis
  proof (cases "?c = [] \<or> (\<forall>b. budget = Some b \<longrightarrow> b \<ge> share_total ?c)")
    case True
    have empty: "requested = []" if "?c = []" using that by (simp add: check_requests_def)
    have "allocate_api_capacity requested budget = ?c"
      using True by (auto simp: allocate_api_capacity_def Let_def split: option.splits)
    then show ?thesis using True keys checked low empty
      by (auto simp: share_total_def check_requests_def dict_keys_def split: option.splits)
  next
    case False
    then obtain b where b: "budget = Some b" "b < share_total ?c" "?c \<noteq> []" by auto
    define target where "target = max (int (length ?c)) b"
    define shares where "shares = map (\<lambda>(name, value). (name, max 1 (target * value div share_total ?c))) ?c"
    define rem where "rem = remainders_of ?c target (share_total ?c)"
    have lenc: "length ?c = length requested" by (simp add: check_requests_def)
    have "0 < length requested" using b(3) lenc by (cases ?c) auto
    then have "0 < share_total ?c" using low by linarith
    then have t: "0 \<le> target" "target \<le> share_total ?c" "0 < share_total ?c" "int (length ?c) \<le> target"
      using low b(2) lenc by (auto simp: target_def)
    have d: "distinct (dict_keys ?c)" "\<forall>name\<in>set (dict_keys ?c). 1 \<le> share_of ?c name"
      using assms keys checked by auto
    have r: "set rem = set (dict_keys ?c)" by (simp add: rem_def remainders_of_def)
    obtain s1 u1 where s1: "grow ?c target rem shares (share_total shares) = (s1, u1)" by fastforce
    obtain s2 u2 where s2: "shrink target rem s1 u1 = (s2, u2)" by fastforce
    have "shares_ok ?c shares (share_total shares)"
      unfolding shares_def by (rule initial_shares_ok [OF d t(1-3)])
    from grow_reaches [OF this r t(2)] have ok1: "shares_ok ?c s1 u1" "u1 = max (share_total shares) target"
      unfolding s1 by auto
    from shrink_reaches [OF ok1(1) r t(4)] have ok2: "shares_ok ?c s2 u2" "u2 = target"
      unfolding s2 using ok1(2) by auto
    have "allocate_api_capacity requested budget = s2"
      using b s1 s2 unfolding allocate_api_capacity_def Let_def
      by (simp add: target_def [symmetric] shares_def [symmetric] rem_def [symmetric])
    then show ?thesis
      using ok2 b keys checked t(2) lenc by (simp add: shares_ok_def target_def)
  qed
qed

theorem allocate_api_capacity_exact_witness:
  "allocate_api_capacity [(''a'', 6), (''b'', 3), (''c'', 1)] (Some 5) = [(''a'', 3), (''b'', 1), (''c'', 1)] \<and>
   share_total (allocate_api_capacity [(''a'', 6), (''b'', 3), (''c'', 1)] (Some 5)) = 5"
proof -
  have d: "distinct (dict_keys [(''a'', 6::int), (''b'', 3), (''c'', 1)])" by code_simp
  have "share_total (allocate_api_capacity [(''a'', 6), (''b'', 3), (''c'', 1)] (Some 5)) = 5"
    using allocate_api_capacity_exact [OF d, of "Some 5"] by (simp add: share_total_def check_requests_def)
  moreover have "allocate_api_capacity [(''a'', 6), (''b'', 3), (''c'', 1)] (Some 5) = [(''a'', 3), (''b'', 1), (''c'', 1)]"
    by code_simp
  ultimately show ?thesis by (rule conjI [rotated])
qed

section \<open>The controller pump pool\<close>

text \<open>\<open>max(candidates, key=...)\<close> returns the first candidate with the largest key.\<close>

definition first_max :: "('a \<Rightarrow> rat) \<Rightarrow> 'a list \<Rightarrow> 'a" where
  "first_max key xs = foldl (\<lambda>best x. if key best < key x then x else best) (hd xs) (tl xs)"

lemma foldl_max:
  defines "step \<equiv> \<lambda>key best x. if key best < key x then x else best"
  shows "foldl (step key) b xs \<in> insert b (set xs) \<and> (\<forall>x\<in>insert b (set xs). key x \<le> (key (foldl (step key) b xs) :: rat))"
proof (induction xs arbitrary: b)
  case (Cons y ys)
  show ?case using Cons.IH [of "step key b y"] by (auto simp: step_def intro: order_trans less_imp_le)
qed simp

lemma first_max:
  assumes "xs \<noteq> []"
  shows "first_max key xs \<in> set xs" and "x \<in> set xs \<Longrightarrow> key x \<le> key (first_max key xs)"
  using foldl_max [of key "hd xs" "tl xs"] assms by (cases xs; auto simp: first_max_def)+

definition pump_benefit :: "(string \<Rightarrow> int) \<Rightarrow> (string \<Rightarrow> int) \<Rightarrow> string \<Rightarrow> rat" where
  "pump_benefit limits allocations name =
     of_int (limits name) / of_int (allocations name * (allocations name + 1))"

definition allocated :: "string list \<Rightarrow> (string \<Rightarrow> int) \<Rightarrow> int" where
  "allocated names allocations = sum_list (map allocations names)"

lemma allocated_upd_gt:
  "c \<in> set names \<Longrightarrow> allocated names (a(c := a c + 1)) > allocated names a"
proof (induction names)
  case (Cons n names)
  have "allocated names (a(c := a c + 1)) \<ge> allocated names a"
    unfolding allocated_def by (rule sum_list_mono) simp
  then show ?case using Cons by (auto simp: allocated_def simp del: fun_upd_apply) (auto simp: fun_upd_def)
qed simp

text \<open>The dictionary \<open>allocations\<close> always has exactly the keys \<open>names\<close>: a function on them.\<close>

function pump_loop :: "string list \<Rightarrow> (string \<Rightarrow> int) \<Rightarrow> (string \<Rightarrow> int) \<Rightarrow> int \<Rightarrow> (string \<Rightarrow> int) \<Rightarrow> (string \<Rightarrow> int)" where
  "pump_loop names limits indep budget allocations =
     (if allocated names allocations < budget then
        let candidates = filter (\<lambda>name. allocations name < indep name) names in
        if candidates = [] then allocations
        else let chosen = first_max (pump_benefit limits allocations) candidates in
          pump_loop names limits indep budget (allocations(chosen := allocations chosen + 1))
      else allocations)"
  by pat_completeness auto

termination pump_loop
proof (relation "measure (\<lambda>(names, _, _, budget, allocations). nat (budget - allocated names allocations))", goal_cases)
  case (2 names limits indep budget allocations candidates chosen)
  then have "chosen \<in> set candidates" using first_max(1) by blast
  then have "chosen \<in> set names" using 2(2) by simp
  from allocated_upd_gt [OF this, of allocations] 2(1) show ?case by simp
qed simp

declare pump_loop.simps [simp del]

definition independent_pumps :: "int \<Rightarrow> int" where
  "independent_pumps limit = min 12 (max 1 ((limit + 63) div 64))"

definition pump_pool :: "int option \<Rightarrow> int option \<Rightarrow> int option \<Rightarrow> int res" where
  "pump_pool cpu_count logical_processors pump_budget =
     (case pump_budget of
        Some b \<Rightarrow> Inr b
      | None \<Rightarrow>
          let processors = (case logical_processors of None \<Rightarrow> cpu_count | Some p \<Rightarrow> Some p);
              processors = (case processors of None \<Rightarrow> 1 | Some p \<Rightarrow> p) in
          if processors < 1 then Inl (ValueError ''logical processor count must be an integer >= 1'')
          else Inr (max 12 (processors + 5)))"

text \<open>\<open>os.cpu_count()\<close> is an argument.\<close>

definition allocate_api_pumps :: "int option \<Rightarrow> shares \<Rightarrow> int option \<Rightarrow> int option \<Rightarrow> shares res" where
  "allocate_api_pumps cpu_count limits logical_processors pump_budget =
     (let names = sort (dict_keys limits); limit = share_of limits in
      if names = [] then Inr []
      else if \<exists>name\<in>set names. limit name < 1 then Inl (ValueError ''API pump allocation limits must be integers >= 1'')
      else let indep = (\<lambda>name. independent_pumps (limit name)) in
        res_bind (pump_pool cpu_count logical_processors pump_budget) (\<lambda>pool.
          if pool < 1 then Inl (ValueError ''API pump budget must be an integer >= 1'')
          else let budget = max (int (length names)) (min (allocated names indep) pool) in
            Inr (map (\<lambda>name. (name, pump_loop names limit indep budget (\<lambda>_. 1) name)) names)))"

subsection \<open>Greedy invariants\<close>

definition pumps_ok :: "string list \<Rightarrow> (string \<Rightarrow> int) \<Rightarrow> (string \<Rightarrow> int) \<Rightarrow> (string \<Rightarrow> int) \<Rightarrow> bool" where
  "pumps_ok names limits cap a \<longleftrightarrow> (\<forall>i\<in>set names. 1 \<le> a i \<and> a i \<le> cap i) \<and>
     (\<forall>i\<in>set names. \<forall>j\<in>set names. a i > 1 \<longrightarrow> a j < cap j \<longrightarrow>
        of_int (limits j) / of_int (a j * (a j + 1)) \<le> (of_int (limits i) / of_int ((a i - 1) * a i) :: rat))"

lemma benefit_decreases:
  assumes "(0::int) \<le> n" and "1 \<le> p"
  shows "of_int n / of_int ((p + 1) * (p + 1 + 1)) \<le> (of_int n / of_int (p * (p + 1)) :: rat)"
proof (rule divide_left_mono)
  have "p * (p + 1) \<le> (p + 1) * (p + 1 + 1)" using assms(2) by (intro mult_mono) auto
  then show "of_int (p * (p + 1)) \<le> (of_int ((p + 1) * (p + 1 + 1)) :: rat)" by (simp only: of_int_le_iff)
  have "0 < (p + 1) * (p + 1 + 1) * (p * (p + 1))" using assms(2) by (intro mult_pos_pos) auto
  then show "0 < of_int ((p + 1) * (p + 1 + 1)) * (of_int (p * (p + 1)) :: rat)"
    by (simp only: of_int_0_less_iff flip: of_int_mult)
qed (use assms in simp)

lemma pumps_ok_step:
  assumes ok: "pumps_ok names limits cap a" and pos: "\<forall>i\<in>set names. 0 \<le> limits i"
    and c: "c \<in> set names" "a c < cap c"
    and best: "\<And>j. j \<in> set names \<Longrightarrow> a j < cap j \<Longrightarrow> pump_benefit limits a j \<le> pump_benefit limits a c"
  shows "pumps_ok names limits cap (a(c := a c + 1))"
proof -
  let ?a = "a(c := a c + 1)"
  have ac: "1 \<le> a c" "0 \<le> limits c" using ok pos c by (auto simp: pumps_ok_def)
  have dec: "pump_benefit limits ?a j \<le> pump_benefit limits a j" if "j \<in> set names" for j
    using benefit_decreases [OF ac(2,1)] by (auto simp: pump_benefit_def)
  have "pump_benefit limits ?a j \<le> of_int (limits i) / of_int ((?a i - 1) * ?a i)"
    if ij: "i \<in> set names" "j \<in> set names" "?a i > 1" "?a j < cap j" for i j
  proof -
    have j: "a j < cap j" using ij(4) by (auto split: if_splits)
    show ?thesis
    proof (cases "i = c")
      case True
      then show ?thesis using order_trans [OF dec [OF ij(2)] best [OF ij(2) j]]
        by (simp add: pump_benefit_def)
    next
      case False
      then have "pump_benefit limits a j \<le> of_int (limits i) / of_int ((a i - 1) * a i)"
        using ok ij j by (auto simp: pumps_ok_def pump_benefit_def)
      then show ?thesis using dec [OF ij(2)] False by (simp add: order_trans)
    qed
  qed
  then show ?thesis using ok c by (auto simp: pumps_ok_def pump_benefit_def)
qed

lemma allocated_distinct: "distinct names \<Longrightarrow> allocated names f = (\<Sum>i\<in>set names. f i)"
  by (simp add: allocated_def sum_list_distinct_conv_sum_set)

lemma pump_loop_reaches:
  assumes "distinct names" and "pumps_ok names limits cap a" and "\<forall>i\<in>set names. 0 \<le> limits i"
    and "allocated names a \<le> budget" and "budget \<le> allocated names cap"
  shows "pumps_ok names limits cap (pump_loop names limits cap budget a) \<and>
    allocated names (pump_loop names limits cap budget a) = budget"
  using assms
proof (induction names limits cap budget a rule: pump_loop.induct)
  case (1 names limits cap budget a)
  let ?cand = "filter (\<lambda>name. a name < cap name) names" and ?c = "first_max (pump_benefit limits a) (filter (\<lambda>name. a name < cap name) names)"
  show ?case
  proof (cases "allocated names a < budget")
    case True
    have ne: "?cand \<noteq> []"
    proof
      assume "?cand = []"
      then have "allocated names cap \<le> allocated names a"
        unfolding allocated_def by (intro sum_list_mono) (auto simp: filter_empty_conv)
      then show False using True "1.prems"(5) by simp
    qed
    have c: "?c \<in> set names" "a ?c < cap ?c" using first_max(1) [OF ne, of "pump_benefit limits a"] by auto
    have best: "pump_benefit limits a j \<le> pump_benefit limits a ?c" if "j \<in> set names" "a j < cap j" for j
      using first_max(2) [OF ne, of j] that by simp
    have "allocated names (a(?c := a ?c + 1)) = allocated names a + 1"
      using c(1) "1.prems"(1) by (simp add: allocated_distinct sum.remove [of _ ?c])
    moreover have "pump_loop names limits cap budget a = pump_loop names limits cap budget (a(?c := a ?c + 1))"
      using True ne by (subst pump_loop.simps) (simp only: Let_def if_True if_False)
    ultimately show ?thesis
      using 1(1) [OF True refl ne refl] pumps_ok_step [OF "1.prems"(2,3) c best] "1.prems" True
      by (simp del: fun_upd_apply)
  next
    case False
    then show ?thesis using "1.prems" by (simp add: pump_loop.simps)
  qed
qed

subsection \<open>Optimality\<close>

text \<open>The controller load of an allocation, the objective of the code's comment.\<close>

definition controller_load :: "string list \<Rightarrow> (string \<Rightarrow> int) \<Rightarrow> (string \<Rightarrow> int) \<Rightarrow> rat" where
  "controller_load names limits a = (\<Sum>i\<in>set names. of_int (limits i) / of_int (a i))"

lemma load_gain_bound:
  assumes "(0::int) \<le> n" and "1 \<le> p" and "p < q"
  shows "of_int n / of_int p - of_int n / of_int q \<le> (of_int (q - p) * (of_int n / of_int (p * (p + 1))) :: rat)"
proof -
  let ?p = "of_int p :: rat" and ?q = "of_int q :: rat" and ?n = "of_int n :: rat"
  have pq: "1 \<le> ?p" "?p + 1 \<le> ?q" "0 \<le> ?n" using assms by (simp_all flip: of_int_add)
  have "?n / ?p - ?n / ?q = (?q - ?p) * (?n / (?p * ?q))" using pq by (simp add: field_simps)
  also have "\<dots> \<le> (?q - ?p) * (?n / (?p * (?p + 1)))"
    using pq by (intro mult_left_mono divide_left_mono mult_pos_pos) auto
  finally show ?thesis by simp
qed

lemma load_loss_bound:
  assumes "(0::int) \<le> n" and "1 \<le> q" and "q < p"
  shows "(of_int (p - q) * (of_int n / of_int ((p - 1) * p)) :: rat) \<le> of_int n / of_int q - of_int n / of_int p"
proof -
  let ?p = "of_int p :: rat" and ?q = "of_int q :: rat" and ?n = "of_int n :: rat"
  have "q + 1 \<le> p" using assms by simp
  then have "?q + 1 \<le> ?p" by (metis of_int_le_iff of_int_add of_int_1)
  then have pq: "1 \<le> ?q" "?q \<le> ?p - 1" "0 \<le> ?n" using assms by simp_all
  have "(?p - ?q) * (?n / ((?p - 1) * ?p)) \<le> (?p - ?q) * (?n / (?q * ?p))"
    using pq by (intro mult_left_mono divide_left_mono mult_pos_pos mult_right_mono) auto
  also have "\<dots> = ?n / ?q - ?n / ?p" using pq by (simp add: field_simps)
  finally show ?thesis by simp
qed

lemma pumps_ok_optimal:
  assumes ok: "pumps_ok names limits cap a" and pos: "\<forall>i\<in>set names. 0 \<le> limits i"
    and q: "\<forall>i\<in>set names. 1 \<le> q i \<and> q i \<le> cap i"
    and budget: "(\<Sum>i\<in>set names. q i) \<le> (\<Sum>i\<in>set names. a i)"
  shows "controller_load names limits a \<le> controller_load names limits q"
proof -
  define gains where "gains = insert 0 (pump_benefit limits a ` {j \<in> set names. a j < cap j})"
  define price where "price = Max gains"
  have fin: "finite gains" "gains \<noteq> {}" by (simp_all add: gains_def)
  have price: "0 \<le> price" "\<And>j. j \<in> set names \<Longrightarrow> a j < cap j \<Longrightarrow> pump_benefit limits a j \<le> price"
    "price \<in> gains"
    unfolding price_def using Max_in [OF fin] fin by (auto simp: gains_def intro!: Max_ge)
  have "of_int (limits i) / of_int (a i) - of_int (limits i) / of_int (q i) \<le> price * of_int (q i - a i)"
    if i: "i \<in> set names" for i
  proof -
    have n: "0 \<le> limits i" "1 \<le> a i" "1 \<le> q i" "q i \<le> cap i" using ok pos q i by (auto simp: pumps_ok_def)
    consider "a i < q i" | "a i = q i" | "q i < a i" by linarith
    then show ?thesis
    proof cases
      case 1
      have "of_int (q i - a i) * pump_benefit limits a i \<le> of_int (q i - a i) * price"
        using 1 n price(2) [OF i] by (intro mult_left_mono) auto
      then show ?thesis using load_gain_bound [OF n(1,2) 1] by (simp add: pump_benefit_def mult.commute)
    next
      case 3
      let ?g = "of_int (limits i) / of_int ((a i - 1) * a i) :: rat"
      have "0 \<le> ?g" using n by simp
      moreover have "pump_benefit limits a j \<le> ?g" if "j \<in> set names" "a j < cap j" for j
        using ok i that 3 n(3) by (auto simp: pumps_ok_def pump_benefit_def)
      ultimately have "price \<le> ?g" using price(3) by (auto simp: gains_def)
      then have "of_int (a i - q i) * price \<le> of_int (a i - q i) * ?g" using 3 by (intro mult_left_mono) auto
      then show ?thesis using load_loss_bound [OF n(1,3) 3] by (simp add: algebra_simps)
    qed simp
  qed
  then have "controller_load names limits a - controller_load names limits q \<le> (\<Sum>i\<in>set names. price * of_int (q i - a i))"
    unfolding controller_load_def sum_subtractf [symmetric] by (intro sum_mono) auto
  also have "\<dots> = price * of_int ((\<Sum>i\<in>set names. q i) - (\<Sum>i\<in>set names. a i))"
    by (simp add: sum_distrib_left sum_subtractf algebra_simps)
  also have "\<dots> \<le> 0" using budget price(1) by (intro mult_nonneg_nonpos) (simp_all only: of_int_le_0_iff diff_le_0_iff_le)
  finally show ?thesis by simp
qed

text \<open>
  C7. The pump pool is split exactly and optimally. With valid limits and a pool of at least one pump
  \<open>allocate_api_pumps\<close> returns; every node gets between one pump and its own plateau
  \<open>min(12, ceil(n/64))\<close>; the pumps add up to the budget (the pool, but at least one pump per node and no
  more than the plateaus together); and no allocation with these bounds and no more pumps gives a smaller
  total controller load, as the comment in the code claims for the greedy loop.
\<close>

theorem allocate_api_pumps_optimal:
  assumes "distinct (dict_keys limits)" and "limits \<noteq> []"
    and "\<forall>name\<in>set (dict_keys limits). 1 \<le> share_of limits name"
    and "pump_pool cpu_count logical_processors pump_budget = Inr pool" and "1 \<le> pool"
  shows "\<exists>alloc. allocate_api_pumps cpu_count limits logical_processors pump_budget = Inr alloc \<and>
    dict_keys alloc = sort (dict_keys limits) \<and>
    (\<forall>name\<in>set (dict_keys limits). 1 \<le> share_of alloc name \<and> share_of alloc name \<le> independent_pumps (share_of limits name)) \<and>
    share_total alloc = max (int (length limits)) (min (\<Sum>name\<in>set (dict_keys limits). independent_pumps (share_of limits name)) pool) \<and>
    (\<forall>q. (\<forall>name\<in>set (dict_keys limits). 1 \<le> q name \<and> q name \<le> independent_pumps (share_of limits name)) \<and>
         (\<Sum>name\<in>set (dict_keys limits). q name) \<le> share_total alloc \<longrightarrow>
       controller_load (dict_keys limits) (share_of limits) (share_of alloc)
         \<le> controller_load (dict_keys limits) (share_of limits) q)"
proof -
  let ?names = "sort (dict_keys limits)" and ?lim = "share_of limits"
  let ?cap = "\<lambda>name. independent_pumps (?lim name)"
  define budget where "budget = max (int (length ?names)) (min (allocated ?names ?cap) pool)"
  define a where "a = pump_loop ?names ?lim ?cap budget (\<lambda>_. 1)"
  define alloc where "alloc = map (\<lambda>name. (name, a name)) ?names"
  have d: "distinct ?names" using assms(1) by simp
  have pos: "\<forall>i\<in>set ?names. 0 \<le> ?lim i" using assms(3) by force
  have len: "allocated ?names (\<lambda>_. 1) = int (length ?names)" by (simp add: allocated_def sum_list_triv)
  have "1 \<le> ?cap i" for i by (simp add: independent_pumps_def)
  then have "allocated ?names (\<lambda>_. 1) \<le> allocated ?names ?cap"
    unfolding allocated_def by (intro sum_list_mono)
  then have b: "allocated ?names (\<lambda>_. 1) \<le> budget" "budget \<le> allocated ?names ?cap"
    unfolding budget_def len by auto
  have ok: "pumps_ok ?names ?lim ?cap a" "allocated ?names a = budget"
    unfolding a_def using pump_loop_reaches [OF d _ pos b] by (auto simp: pumps_ok_def independent_pumps_def)
  have alloc: "dict_keys alloc = ?names" "\<And>name. name \<in> set (dict_keys limits) \<Longrightarrow> share_of alloc name = a name"
    by (auto simp: alloc_def dict_keys_def dict_get_def map_of_map_restrict comp_def)
  have tot: "share_total alloc = budget" using ok(2) by (simp add: alloc_def share_total_def allocated_def comp_def)
  have load: "controller_load (dict_keys limits) ?lim (share_of alloc) = controller_load ?names ?lim a"
    unfolding controller_load_def using alloc(2) by (intro sum.cong) auto
  have run: "allocate_api_pumps cpu_count limits logical_processors pump_budget = Inr alloc"
    using assms(2-5) unfolding allocate_api_pumps_def alloc_def a_def budget_def
    by (auto simp: Let_def dict_keys_def)
  have opt: "controller_load ?names ?lim a \<le> controller_load (dict_keys limits) ?lim q"
    if "\<forall>name\<in>set (dict_keys limits). 1 \<le> q name \<and> q name \<le> ?cap name"
      "(\<Sum>name\<in>set (dict_keys limits). q name) \<le> share_total alloc" for q
    using pumps_ok_optimal [OF ok(1) pos, of q] that ok(2) tot
    by (simp add: allocated_distinct [OF d] controller_load_def)
  have len': "length ?names = length limits" by (simp add: dict_keys_def)
  have sum: "share_total alloc = max (int (length limits)) (min (\<Sum>name\<in>set (dict_keys limits). ?cap name) pool)"
    unfolding tot budget_def len' by (simp add: allocated_distinct [OF d])
  have bounds: "\<forall>name\<in>set (dict_keys limits). 1 \<le> share_of alloc name \<and> share_of alloc name \<le> ?cap name"
    using ok(1) alloc(2) by (simp add: pumps_ok_def)
  show ?thesis
    by (rule exI [of _ alloc], intro conjI run alloc(1) bounds sum allI impI) (simp only: load, elim conjE, rule opt)
qed

theorem allocate_api_pumps_optimal_witness:
  "allocate_api_pumps (Some 4) [(''b'', 640), (''a'', 100)] None (Some 5) = Inr [(''a'', 1), (''b'', 4)] \<and>
   controller_load [''b'', ''a''] (share_of [(''b'', 640), (''a'', 100)]) (share_of [(''a'', 1), (''b'', 4)])
     \<le> controller_load [''b'', ''a''] (share_of [(''b'', 640), (''a'', 100)]) (\<lambda>name. if name = ''a'' then 2 else 3)"
proof -
  let ?l = "[(''b'', 640), (''a'', 100)] :: shares"
  have h: "distinct (dict_keys ?l)" "?l \<noteq> []" "\<forall>name\<in>set (dict_keys ?l). 1 \<le> share_of ?l name"
    "pump_pool (Some 4) None (Some 5) = Inr 5" "(1::int) \<le> 5" by code_simp+
  have eval: "allocate_api_pumps (Some 4) ?l None (Some 5) = Inr [(''a'', 1), (''b'', 4)]" by code_simp
  have q: "\<forall>name\<in>set (dict_keys ?l). 1 \<le> (if name = ''a'' then 2 else (3::int)) \<and>
      (if name = ''a'' then 2 else 3) \<le> independent_pumps (share_of ?l name)"
    "(\<Sum>name\<in>set (dict_keys ?l). if name = ''a'' then 2 else (3::int)) \<le> share_total [(''a'', 1), (''b'', 4)]"
    by code_simp+
  obtain alloc where run: "allocate_api_pumps (Some 4) ?l None (Some 5) = Inr alloc"
    and opt: "\<And>q. (\<forall>name\<in>set (dict_keys ?l). 1 \<le> q name \<and> q name \<le> independent_pumps (share_of ?l name)) \<and>
         (\<Sum>name\<in>set (dict_keys ?l). q name) \<le> share_total alloc \<Longrightarrow>
       controller_load (dict_keys ?l) (share_of ?l) (share_of alloc) \<le> controller_load (dict_keys ?l) (share_of ?l) q"
    using allocate_api_pumps_optimal [OF h] by blast
  have alloc: "alloc = [(''a'', 1), (''b'', 4)]" using run unfolding eval by (simp only: sum.inject)
  have keys: "dict_keys ?l = [''b'', ''a'']" by code_simp
  from opt [OF conjI, unfolded alloc, OF q] eval show ?thesis unfolding keys by (intro conjI)
qed

end
