(* ===== verification/Supervisor.thy ===== *)
theory Supervisor
  imports MWF_Prelude
begin

text \<open>
  The scheduler supervisor (\<open>workflow/supervisor_core.py\<close>, \<open>supervisor_attempts.py\<close>,
  \<open>supervisor_watch.py\<close>, \<open>supervisor_persistence.py\<close>): attempt watches, the heap of deadlines, external
  waits, cancellation of restarted executions and the watchdog loop. Each critical section under the
  supervisor's condition is one definition; a method with two critical sections is two, composed in
  order. The wall clock text, the readings of \<open>monotonic\<close> and the outcome of each storage call are
  arguments, one reading of the clock per critical section. Watch objects live in a store, because the code keeps using a watch after it left the
  registry. Messages keep their constant part.
\<close>

section \<open>Attempt watches\<close>

record watch_fields =
  w_node_name :: string
  w_job_id :: int
  w_task_name :: string
  w_attempt :: int
  w_repeat_index :: int
  w_generation :: int
  w_execution_id :: "string option"
  w_total_timeout :: "seconds option"
  w_default_checkpoint_timeout :: "seconds option"
  w_force_abandonable :: bool
  w_watch_id :: string
  w_started_at :: string
  w_started_monotonic :: seconds
  w_total_deadline :: "seconds option"
  w_checkpoint_deadline :: "seconds option"
  w_checkpoint_timeout :: "seconds option"
  w_checkpoint_at :: "string option"
  w_checkpoint_name :: "string option"
  w_progress :: "rat option"
  w_progress_detail :: "string option"
  w_revision :: int
  w_handler_exit :: "(int \<times> seconds) option"
  w_external_wait_entry :: "(int \<times> seconds) option"
  w_external_renewal_entry :: "(seconds option \<times> seconds) option"
  w_state :: string
  w_timeout_kind :: "string option"
  w_timeout_message :: "string option"
  w_cancel_message :: "string option"
  w_runtime_written :: bool
  w_external_wait_depth :: int
  w_external_wait_name :: "string option"
  w_external_wait_timeout :: "seconds option"
  w_external_wait_deadline :: "seconds option"
  w_external_wait_attempt :: int
  w_external_wait_renewals :: int
  w_external_wait_last_renewal_reason :: "string option"
  w_cancellation_set :: bool
  w_wake_set :: bool

record attempt_watch = watch_fields +
  w_timeout_observation :: "watch_fields option"

definition supervised :: "attempt_watch \<Rightarrow> bool" where
  "supervised w \<longleftrightarrow> w_total_timeout w \<noteq> None \<or> w_default_checkpoint_timeout w \<noteq> None"

definition abandonable :: "attempt_watch \<Rightarrow> bool" where
  "abandonable w \<longleftrightarrow> w_force_abandonable w \<or> supervised w"

definition validate_timeout :: "pynum \<Rightarrow> seconds option res" where
  "validate_timeout value = (case value of
     PyNone \<Rightarrow> Inr None
   | PyInt i \<Rightarrow> if i \<le> 0 then Inl (ValueError ''must be a positive finite number or None'') else Inr (Some (of_int i))
   | PyFloat x \<Rightarrow> if x \<le> 0 then Inl (ValueError ''must be a positive finite number or None'') else Inr (Some x)
   | PyBool _ \<Rightarrow> Inl (ValueError ''must be a positive number or None'')
   | PyOther \<Rightarrow> Inl (ValueError ''must be a positive number or None'')
   | _ \<Rightarrow> Inl (ValueError ''must be a positive finite number or None''))"

definition validate_progress :: "pynum \<Rightarrow> rat option res" where
  "validate_progress value =
     (let check = (\<lambda>x. if 0 \<le> x \<and> x \<le> 1 then Inr (Some x)
        else Inl (ValueError ''progress must be a finite number from 0 to 1'')) in
      case value of
        PyNone \<Rightarrow> Inr None
      | PyInt i \<Rightarrow> check (of_int i)
      | PyFloat x \<Rightarrow> check x
      | PyBool _ \<Rightarrow> Inl (ValueError ''progress must be a number from 0 to 1 or None'')
      | PyOther \<Rightarrow> Inl (ValueError ''progress must be a number from 0 to 1 or None'')
      | _ \<Rightarrow> Inl (ValueError ''progress must be a finite number from 0 to 1''))"

text \<open>Construction of the watch from the validated timeouts; the rest are the dataclass defaults.\<close>

definition new_watch :: "string \<Rightarrow> string \<Rightarrow> int \<Rightarrow> string \<Rightarrow> int \<Rightarrow> int \<Rightarrow> int \<Rightarrow> string option \<Rightarrow>
    seconds option \<Rightarrow> seconds option \<Rightarrow> bool \<Rightarrow> string \<Rightarrow> seconds \<Rightarrow> attempt_watch" where
  "new_watch k node job task attempt repeat_index generation execution total_value checkpoint force now_text now =
     \<lparr>w_node_name = node, w_job_id = job, w_task_name = task, w_attempt = attempt, w_repeat_index = repeat_index,
      w_generation = generation, w_execution_id = execution, w_total_timeout = total_value,
      w_default_checkpoint_timeout = checkpoint, w_force_abandonable = force, w_watch_id = k,
      w_started_at = now_text, w_started_monotonic = now, w_total_deadline = None,
      w_checkpoint_deadline = None, w_checkpoint_timeout = checkpoint, w_checkpoint_at = None,
      w_checkpoint_name = map_option (\<lambda>_. ''task start'') checkpoint, w_progress = None,
      w_progress_detail = None, w_revision = 0, w_handler_exit = None, w_external_wait_entry = None,
      w_external_renewal_entry = None, w_state = ''active'', w_timeout_kind = None,
      w_timeout_message = None, w_cancel_message = None, w_runtime_written = False,
      w_external_wait_depth = 0, w_external_wait_name = None, w_external_wait_timeout = None,
      w_external_wait_deadline = None, w_external_wait_attempt = 0, w_external_wait_renewals = 0,
      w_external_wait_last_renewal_reason = None, w_cancellation_set = False, w_wake_set = False,
      w_timeout_observation = None\<rparr>"

section \<open>Supervisor state\<close>

type_synonym deadline_entry = "seconds \<times> int \<times> string \<times> string \<times> int"

record run_heartbeat =
  hb_run_id :: string
  hb_interval :: seconds
  hb_next_at :: seconds

text \<open>
  \<open>watches\<close> holds the keys of the registry in insertion order, \<open>objects\<close> every watch ever created.
  The heap is kept as a sorted list: only its least element and its length are observed.
\<close>

record supervisor =
  objects :: "string \<Rightarrow> attempt_watch"
  watches :: "string list"
  restartable_keys :: "string set"
  deadlines :: "deadline_entry list"
  serial :: int
  heartbeat :: "run_heartbeat option"
  next_restart_fallback :: seconds
  restart_event_pending :: bool
  restart_revision :: int
  subscribed :: bool
  restart_unsubscribe_at :: "seconds option"
  thread_alive :: bool

definition restart_fallback_interval :: seconds where "restart_fallback_interval = 5"
definition restart_listener_idle_seconds :: seconds where "restart_listener_idle_seconds = 1 / 2"

text \<open>The store holds a passive watch under every key that was never created.\<close>

definition blank_watch :: "string \<Rightarrow> attempt_watch" where
  "blank_watch k = new_watch k [] 0 [] 0 0 0 None None None False [] 0"

definition new_supervisor :: "int \<Rightarrow> seconds \<Rightarrow> supervisor" where
  "new_supervisor revision now = \<lparr>objects = blank_watch, watches = [], restartable_keys = {}, deadlines = [],
     serial = 0, heartbeat = None, next_restart_fallback = now + restart_fallback_interval,
     restart_event_pending = False, restart_revision = revision, subscribed = False,
     restart_unsubscribe_at = None, thread_alive = False\<rparr>"

definition upd_watch :: "string \<Rightarrow> (attempt_watch \<Rightarrow> attempt_watch) \<Rightarrow> supervisor \<Rightarrow> supervisor" where
  "upd_watch k f s = s\<lparr>objects := (objects s)(k := f (objects s k))\<rparr>"

definition ensure_restart_event_subscription :: "supervisor \<Rightarrow> supervisor" where
  "ensure_restart_event_subscription s = s\<lparr>restart_unsubscribe_at := None, subscribed := True\<rparr>"

definition stop_restart_event_subscription :: "seconds \<Rightarrow> supervisor \<Rightarrow> supervisor" where
  "stop_restart_event_subscription now s =
     (if restartable_keys s \<noteq> {} \<or> \<not> subscribed s then s
      else if restart_unsubscribe_at s = None
        then s\<lparr>restart_unsubscribe_at := Some (now + restart_listener_idle_seconds)\<rparr> else s)"

definition finalize_restart_event_subscription :: "seconds \<Rightarrow> supervisor \<Rightarrow> supervisor" where
  "finalize_restart_event_subscription now s =
     (case restart_unsubscribe_at s of
        None \<Rightarrow> s
      | Some t \<Rightarrow> if restartable_keys s \<noteq> {} \<or> \<not> subscribed s \<or> now < t then s
          else s\<lparr>subscribed := False, restart_unsubscribe_at := None\<rparr>)"

definition on_external_state_change :: "supervisor \<Rightarrow> supervisor" where
  "on_external_state_change s = s\<lparr>restart_event_pending := True\<rparr>"

definition ensure_thread :: "supervisor \<Rightarrow> supervisor" where
  "ensure_thread s = s\<lparr>thread_alive := True\<rparr>"

subsection \<open>The deadline heap\<close>

definition entry_key :: "deadline_entry \<Rightarrow> seconds \<times> int" where
  "entry_key e = (fst e, fst (snd e))"

definition heappush :: "deadline_entry \<Rightarrow> deadline_entry list \<Rightarrow> deadline_entry list" where
  "heappush e es = insort_key entry_key e es"

definition push_deadline :: "string \<Rightarrow> string \<Rightarrow> seconds option \<Rightarrow> supervisor \<Rightarrow> supervisor" where
  "push_deadline k kind deadline s = (case deadline of
     None \<Rightarrow> s
   | Some d \<Rightarrow> s\<lparr>serial := serial s + 1,
       deadlines := heappush (d, serial s + 1, k, kind, w_revision (objects s k)) (deadlines s)\<rparr>)"

definition schedule_watch :: "string \<Rightarrow> supervisor \<Rightarrow> supervisor" where
  "schedule_watch k s =
     (let w = objects s k; s1 = push_deadline k ''total'' (w_total_deadline w) s in
      if w_external_wait_depth w > 0 then push_deadline k ''external'' (w_external_wait_deadline w) s1
      else push_deadline k ''checkpoint'' (w_checkpoint_deadline w) s1)"

text \<open>The deadlines a rebuild keeps for one watch, as (kind, deadline) pairs.\<close>

definition kept_deadlines :: "attempt_watch \<Rightarrow> (string \<times> seconds option) list" where
  "kept_deadlines w = [(''total'', w_total_deadline w),
     if w_external_wait_depth w > 0 then (''external'', w_external_wait_deadline w)
     else (''checkpoint'', w_checkpoint_deadline w)]"

fun rebuild_kinds :: "string \<Rightarrow> int \<Rightarrow> (string \<times> seconds option) list \<Rightarrow> int \<times> deadline_entry list \<Rightarrow>
    int \<times> deadline_entry list" where
  "rebuild_kinds k revision [] acc = acc"
| "rebuild_kinds k revision ((kind, None) # ks) acc = rebuild_kinds k revision ks acc"
| "rebuild_kinds k revision ((kind, Some d) # ks) (n, es) =
     rebuild_kinds k revision ks (n + 1, es @ [(d, n + 1, k, kind, revision)])"

fun rebuild_deadlines :: "(string \<Rightarrow> attempt_watch) \<Rightarrow> string list \<Rightarrow> int \<times> deadline_entry list \<Rightarrow>
    int \<times> deadline_entry list" where
  "rebuild_deadlines obj [] acc = acc"
| "rebuild_deadlines obj (k # ks) acc = rebuild_deadlines obj ks
     (if w_state (obj k) \<noteq> ''active'' then acc
      else rebuild_kinds k (w_revision (obj k)) (kept_deadlines (obj k)) acc)"

definition compact_deadlines :: "supervisor \<Rightarrow> supervisor" where
  "compact_deadlines s =
     (if length (deadlines s) \<le> max 256 (length (watches s) * 8) then s
      else case rebuild_deadlines (objects s) (watches s) (serial s, []) of
        (n, rebuilt) \<Rightarrow> s\<lparr>serial := n, deadlines := sort_key entry_key rebuilt\<rparr>)"

definition current_deadline :: "attempt_watch \<Rightarrow> string \<Rightarrow> seconds option" where
  "current_deadline w kind = (if kind = ''total'' then w_total_deadline w
     else if kind = ''external'' then w_external_wait_deadline w else w_checkpoint_deadline w)"

text \<open>The staleness test shared by the two loops that read the heap.\<close>

definition stale_entry :: "supervisor \<Rightarrow> deadline_entry \<Rightarrow> bool" where
  "stale_entry s = (\<lambda>(deadline, _, k, kind, revision).
     let w = objects s k in
     k \<notin> set (watches s) \<or> w_state w \<noteq> ''active'' \<or> w_revision w \<noteq> revision \<or>
     (case current_deadline w kind of None \<Rightarrow> True | Some c \<Rightarrow> \<bar>c - deadline\<bar> > 1 / 1000000000))"

definition next_valid_deadline :: "supervisor \<Rightarrow> supervisor \<times> seconds option" where
  "next_valid_deadline s = (let es = dropWhile (stale_entry s) (deadlines s) in
     (s\<lparr>deadlines := es\<rparr>, case es of [] \<Rightarrow> None | e # _ \<Rightarrow> Some (fst e)))"

section \<open>The watchdog loop\<close>

text \<open>
  A due, current entry is still passed over when the framework published a marker in time: a renewal of
  this very lease, an external wait entered in this section, or the handler's exit.
\<close>

definition exempt_entry :: "attempt_watch \<Rightarrow> deadline_entry \<Rightarrow> bool" where
  "exempt_entry w = (\<lambda>(deadline, _, _, kind, revision).
     kind = ''external'' \<and> (case w_external_renewal_entry w of
        Some (lease, t) \<Rightarrow> lease = Some deadline \<and> t < deadline | None \<Rightarrow> False) \<or>
     kind = ''checkpoint'' \<and> (case w_external_wait_entry w of
        Some (r, t) \<Rightarrow> r = revision \<and> t < deadline | None \<Rightarrow> False) \<or>
     kind = ''checkpoint'' \<and> (case w_handler_exit w of
        Some (r, t) \<Rightarrow> r = revision \<and> t < deadline | None \<Rightarrow> False))"

text \<open>The message of an expired watch; formatting a missing timeout with \<open>:g\<close> raises \<open>TypeError\<close>.\<close>

definition expiry_message :: "attempt_watch \<Rightarrow> string \<Rightarrow> string res" where
  "expiry_message w kind =
     (let fmt = (\<lambda>seconds msg. case seconds of None \<Rightarrow> Inl (TypeError ''unsupported format string'') | Some _ \<Rightarrow> Inr msg) in
      if kind = ''checkpoint'' then fmt (w_checkpoint_timeout w) ''made no checkpoint progress''
      else if kind = ''external'' then fmt (w_external_wait_timeout w) ''exceeded its transport lease''
      else fmt (w_total_timeout w) ''exceeded timeout'')"

definition expire_watch :: "attempt_watch \<Rightarrow> string \<Rightarrow> string \<Rightarrow> attempt_watch" where
  "expire_watch w kind message =
     (let w1 = w\<lparr>w_state := ''timed_out'', w_timeout_kind := Some kind, w_timeout_message := Some message\<rparr> in
      w1\<lparr>w_timeout_observation := Some (watch_fields.truncate w1), w_cancellation_set := True,
         w_revision := w_revision w1 + 1\<rparr>)"

fun expire_entries :: "seconds \<Rightarrow> deadline_entry list \<Rightarrow> supervisor \<Rightarrow> (string \<times> string) list \<Rightarrow>
    (supervisor \<times> (string \<times> string) list) res" where
  "expire_entries now [] s expired = Inr (s\<lparr>deadlines := []\<rparr>, expired)"
| "expire_entries now (e # es) s expired =
     (if fst e > now then Inr (s\<lparr>deadlines := e # es\<rparr>, expired)
      else case e of (deadline, _, k, kind, revision) \<Rightarrow>
        if stale_entry s e \<or> exempt_entry (objects s k) e then expire_entries now es s expired
        else res_bind (expiry_message (objects s k) kind) (\<lambda>message.
          expire_entries now es
            (stop_restart_event_subscription now (upd_watch k (\<lambda>w. expire_watch w kind message) s
               \<lparr>restartable_keys := restartable_keys s - {k}\<rparr>))
            (expired @ [(k, kind)])))"

definition expire_due :: "seconds \<Rightarrow> supervisor \<Rightarrow> (supervisor \<times> (string \<times> string) list) res" where
  "expire_due now s = expire_entries now (deadlines s) s []"

text \<open>
  The rest of one round under the condition, after the expiries: the heartbeat, the restart check, and
  otherwise how long to sleep. \<open>LoopWait None\<close> waits for a notification, \<open>LoopWait (Some t)\<close> until \<open>t\<close>.
\<close>

datatype loop_step =
    LoopWork "(string \<times> string) list" "run_heartbeat option" bool
  | LoopWait "seconds option"
  | LoopExit

definition beat :: "seconds \<Rightarrow> supervisor \<Rightarrow> supervisor \<times> run_heartbeat option" where
  "beat now s = (case heartbeat s of
     Some run \<Rightarrow> if hb_next_at run \<le> now
       then (s\<lparr>heartbeat := Some (run\<lparr>hb_next_at := now + hb_interval run\<rparr>)\<rparr>, Some run) else (s, None)
   | None \<Rightarrow> (s, None))"

definition restart_due :: "seconds \<Rightarrow> supervisor \<Rightarrow> supervisor \<times> bool" where
  "restart_due now s =
     (if restartable_keys s \<noteq> {} \<and> (restart_event_pending s \<or> next_restart_fallback s \<le> now)
      then (s\<lparr>restart_event_pending := False, next_restart_fallback := now + restart_fallback_interval\<rparr>, True)
      else (s, False))"

definition min_deadline :: "seconds option \<Rightarrow> seconds option \<Rightarrow> seconds option" where
  "min_deadline deadline other = (case other of None \<Rightarrow> deadline
     | Some t \<Rightarrow> (case deadline of None \<Rightarrow> Some t | Some d \<Rightarrow> Some (min d t)))"

definition sleep_until :: "supervisor \<Rightarrow> seconds option \<Rightarrow> seconds option" where
  "sleep_until s deadline =
     min_deadline (min_deadline (min_deadline deadline (map_option hb_next_at (heartbeat s)))
       (if restartable_keys s \<noteq> {} then Some (next_restart_fallback s) else None))
       (restart_unsubscribe_at s)"

definition loop_round :: "seconds \<Rightarrow> supervisor \<Rightarrow> (supervisor \<times> loop_step) res" where
  "loop_round now s =
     res_bind (expire_due now s) (\<lambda>(s1, expired).
     let (s2, beating) = beat now s1;
         s3 = finalize_restart_event_subscription now s2;
         (s4, check) = restart_due now s3 in
     if expired \<noteq> [] \<or> beating \<noteq> None \<or> check then Inr (s4, LoopWork expired beating check)
     else let (s5, valid) = next_valid_deadline s4 in
       case sleep_until s5 valid of
         Some t \<Rightarrow> Inr (s5, LoopWait (Some t))
       | None \<Rightarrow> if watches s5 \<noteq> [] then Inr (s5, LoopWait None)
           else Inr (s5\<lparr>thread_alive := False\<rparr>, LoopExit))"

text \<open>
  Work outside the condition: publication of an expiry (the two storage outcomes are arguments; every
  exception is swallowed) always wakes the waiting controller.
\<close>

definition persist_expired :: "exn option \<Rightarrow> string \<Rightarrow> supervisor \<Rightarrow> supervisor" where
  "persist_expired write_error k s =
     upd_watch k (\<lambda>w. w\<lparr>w_runtime_written := w_runtime_written w \<or> write_error = None, w_wake_set := True\<rparr>) s"

section \<open>Operations on attempts\<close>

definition register_watch :: "string \<Rightarrow> attempt_watch \<Rightarrow> supervisor \<Rightarrow> supervisor" where
  "register_watch k w s =
     (let s1 = s\<lparr>objects := (objects s)(k := w),
                 watches := (if k \<in> set (watches s) then watches s else watches s @ [k])\<rparr>;
          s2 = (if w_execution_id w \<noteq> None
                then ensure_restart_event_subscription (s1\<lparr>restartable_keys := insert k (restartable_keys s1)\<rparr>)
                else s1) in
      if supervised w \<or> w_force_abandonable w then ensure_thread s2 else s2)"

definition create_attempt :: "string \<Rightarrow> string \<Rightarrow> int \<Rightarrow> string \<Rightarrow> int \<Rightarrow> int \<Rightarrow> int \<Rightarrow> string option \<Rightarrow>
    pynum \<Rightarrow> pynum \<Rightarrow> bool \<Rightarrow> string \<Rightarrow> seconds \<Rightarrow> supervisor \<Rightarrow> supervisor res" where
  "create_attempt k node job task attempt repeat_index generation execution total_timeout checkpoint_timeout force
       now_text now s =
     res_bind (validate_timeout total_timeout) (\<lambda>total_value.
     res_bind (validate_timeout checkpoint_timeout) (\<lambda>checkpoint.
       Inr (register_watch k (new_watch k node job task attempt repeat_index generation execution
         total_value checkpoint force now_text now) s)))"

text \<open>\<open>message or default\<close>.\<close>

definition or_text :: "string option \<Rightarrow> string \<Rightarrow> string" where
  "or_text m d = (case m of Some x \<Rightarrow> if x = [] then d else x | None \<Rightarrow> d)"

definition timeout_error :: "attempt_watch \<Rightarrow> exn option" where
  "timeout_error w = (if w_state w \<noteq> ''timed_out'' then None
     else Some (JobTimeoutError (or_text (w_timeout_message w) ''The task attempt timed out'')))"

definition execution_cancel_error :: "attempt_watch \<Rightarrow> exn option" where
  "execution_cancel_error w = (if w_state w \<noteq> ''superseded'' then None
     else Some (JobRestartedError (or_text (w_cancel_message w) ''The task attempt was restarted'')))"

text \<open>The early return of an operation that finds its watch no longer active.\<close>

definition inactive_result :: "attempt_watch \<Rightarrow> unit res" where
  "inactive_result w = (case timeout_error w of Some e \<Rightarrow> Inl e
     | None \<Rightarrow> (case execution_cancel_error w of Some e \<Rightarrow> Inl e | None \<Rightarrow> Inr ()))"

text \<open>
  \<open>begin_handler_execution\<close>: the first publication (skipped when the watch is already inactive), and
  the critical section that arms the deadlines.
\<close>

definition prepare_handler :: "string \<Rightarrow> string \<Rightarrow> exn option \<Rightarrow> supervisor \<Rightarrow> supervisor \<times> unit res" where
  "prepare_handler k now_text write_error s =
     (let w = objects s k in
      if w_state w \<noteq> ''active'' then (s, inactive_result w)
      else if \<not> supervised w then (s, Inr ())
      else let s1 = (if w_checkpoint_timeout w \<noteq> None
                     then upd_watch k (\<lambda>w. w\<lparr>w_checkpoint_at := Some now_text, w_checkpoint_name := Some ''task start''\<rparr>) s
                     else s) in
        case write_error of Some e \<Rightarrow> (s1, Inl e)
        | None \<Rightarrow> (upd_watch k (\<lambda>w. w\<lparr>w_runtime_written := True\<rparr>) s1, Inr ()))"

definition arm_deadlines :: "string \<Rightarrow> seconds \<Rightarrow> attempt_watch \<Rightarrow> attempt_watch" where
  "arm_deadlines now_text now w =
     (let w1 = w\<lparr>w_started_monotonic := now, w_started_at := now_text\<rparr>;
          w2 = (case w_total_timeout w of None \<Rightarrow> w1 | Some t \<Rightarrow> w1\<lparr>w_total_deadline := Some (now + t)\<rparr>);
          w3 = (case w_checkpoint_timeout w of None \<Rightarrow> w2
                | Some t \<Rightarrow> w2\<lparr>w_checkpoint_at := Some now_text, w_checkpoint_name := Some ''task start'',
                    w_checkpoint_deadline := Some (now + t)\<rparr>) in
      w3\<lparr>w_revision := w_revision w3 + 1\<rparr>)"

definition arm_handler :: "string \<Rightarrow> string \<Rightarrow> seconds \<Rightarrow> supervisor \<Rightarrow> supervisor \<times> unit res" where
  "arm_handler k now_text now s =
     (let w = objects s k in
      if w_state w \<noteq> ''active'' then (s, inactive_result w)
      else let s1 = (if supervised w then ensure_thread (compact_deadlines s) else s);
               s2 = upd_watch k (arm_deadlines now_text now) s1 in
        (if supervised w then schedule_watch k s2 else s2, Inr ()))"

definition begin_handler_execution :: "string \<Rightarrow> string \<Rightarrow> seconds \<Rightarrow> exn option \<Rightarrow> supervisor \<Rightarrow> supervisor \<times> unit res" where
  "begin_handler_execution k now_text now write_error s =
     (case prepare_handler k now_text write_error s of
        (s1, Inl e) \<Rightarrow> (s1, Inl e)
      | (s1, Inr _) \<Rightarrow> if w_state (objects s k) \<noteq> ''active'' then (s1, Inr ()) else arm_handler k now_text now s1)"

text \<open>
  \<open>report_checkpoint\<close>: argument checks and the first critical section, which disarms the checkpoint
  deadline and returns the interval to arm; then the publication; then, whatever its outcome, the second
  critical section, which arms the new interval.
\<close>

definition note_progress :: "string \<Rightarrow> string option \<Rightarrow> rat option \<Rightarrow> string option \<Rightarrow> attempt_watch \<Rightarrow> attempt_watch" where
  "note_progress now_text name p detail w = w\<lparr>w_checkpoint_at := Some now_text,
     w_checkpoint_name := (case name of None \<Rightarrow> w_checkpoint_name w | Some n \<Rightarrow> Some (py_strip n)),
     w_progress := (case p of None \<Rightarrow> w_progress w | Some x \<Rightarrow> Some x),
     w_progress_detail := (case detail of None \<Rightarrow> w_progress_detail w | Some d \<Rightarrow> Some d)\<rparr>"

definition disarm_checkpoint :: "seconds \<Rightarrow> attempt_watch \<Rightarrow> attempt_watch" where
  "disarm_checkpoint t w = w\<lparr>w_checkpoint_timeout := Some t, w_checkpoint_deadline := None,
     w_revision := w_revision w + 1\<rparr>"

definition checkpoint_checks :: "string option \<Rightarrow> pynum \<Rightarrow> pynum \<Rightarrow> attempt_watch \<Rightarrow> (rat option \<times> seconds option) res" where
  "checkpoint_checks name progress timeout w =
     res_bind (raise_if (case name of None \<Rightarrow> False | Some n \<Rightarrow> py_strip n = [])
       (ValueError ''checkpoint name must be a non-empty string or None'')) (\<lambda>_.
     res_bind (validate_progress progress) (\<lambda>p.
     res_bind (validate_timeout timeout) (\<lambda>t.
     res_bind (raise_if (t \<noteq> None \<and> \<not> supervised w)
       (RuntimeError ''A dynamic checkpoint timeout requires the task to declare timeout'')) (\<lambda>_.
       Inr (p, case t of None \<Rightarrow> w_default_checkpoint_timeout w | Some _ \<Rightarrow> t)))))"

definition start_checkpoint :: "string \<Rightarrow> string option \<Rightarrow> pynum \<Rightarrow> string option \<Rightarrow> pynum \<Rightarrow> string \<Rightarrow> supervisor \<Rightarrow>
    supervisor \<times> (bool \<times> seconds option) res" where
  "start_checkpoint k name progress detail timeout now_text s =
     (let w = objects s k in
      case checkpoint_checks name progress timeout w of
        Inl e \<Rightarrow> (s, Inl e)
      | Inr (p, effective) \<Rightarrow>
          if w_state w = ''timed_out'' \<or> w_state w = ''superseded''
            then (s, case inactive_result w of Inl e \<Rightarrow> Inl e | Inr _ \<Rightarrow> Inr (False, effective))
          else if w_state w \<noteq> ''active'' then (s, Inr (False, effective))
          else let s1 = upd_watch k (note_progress now_text name p detail) s in
            case effective of
              None \<Rightarrow> (s1, Inr (True, None))
            | Some t \<Rightarrow>
                if \<not> supervised w then (s1, Inl (RuntimeError ''Checkpoint timeout supervision is not enabled''))
                else (ensure_thread (compact_deadlines (schedule_watch k (upd_watch k (disarm_checkpoint t) s1))),
                      Inr (True, Some t)))"

definition publish_runtime :: "string \<Rightarrow> exn option \<Rightarrow> supervisor \<Rightarrow> supervisor \<times> unit res" where
  "publish_runtime k write_error s = (case write_error of Some e \<Rightarrow> (s, Inl e)
     | None \<Rightarrow> (upd_watch k (\<lambda>w. w\<lparr>w_runtime_written := True\<rparr>) s, Inr ()))"

definition finish_checkpoint :: "string \<Rightarrow> seconds option \<Rightarrow> seconds \<Rightarrow> supervisor \<Rightarrow> supervisor" where
  "finish_checkpoint k effective now s = (case effective of
     None \<Rightarrow> s
   | Some t \<Rightarrow> if w_state (objects s k) \<noteq> ''active'' then s
       else schedule_watch k (upd_watch k (\<lambda>w. w\<lparr>w_checkpoint_deadline := Some (now + t),
              w_revision := w_revision w + 1\<rparr>) (ensure_thread (compact_deadlines s))))"

definition report_checkpoint :: "string \<Rightarrow> string option \<Rightarrow> pynum \<Rightarrow> string option \<Rightarrow> pynum \<Rightarrow> string \<Rightarrow> seconds \<Rightarrow>
    exn option \<Rightarrow> supervisor \<Rightarrow> supervisor \<times> unit res" where
  "report_checkpoint k name progress detail timeout now_text now write_error s =
     (case start_checkpoint k name progress detail timeout now_text s of
        (s1, Inl e) \<Rightarrow> (s1, Inl e)
      | (s1, Inr (False, effective)) \<Rightarrow> (s1, Inr ())
      | (s1, Inr (True, effective)) \<Rightarrow> (case publish_runtime k write_error s1 of
          (s2, r) \<Rightarrow> (finish_checkpoint k effective now s2, r)))"

subsection \<open>External waits\<close>

definition publish_wait_entry :: "string \<Rightarrow> seconds \<Rightarrow> supervisor \<Rightarrow> supervisor" where
  "publish_wait_entry k now s = upd_watch k (\<lambda>w. w\<lparr>w_external_wait_entry := Some (w_revision w, now)\<rparr>) s"

definition enter_wait :: "string \<Rightarrow> seconds \<Rightarrow> bool \<Rightarrow> seconds \<Rightarrow> attempt_watch \<Rightarrow> attempt_watch" where
  "enter_wait name lease defer now w =
     (let outermost = (w_external_wait_depth w = 0);
          w1 = (if outermost then w\<lparr>w_external_wait_attempt := 1, w_external_wait_renewals := 0,
                  w_external_wait_last_renewal_reason := None\<rparr> else w);
          w2 = w1\<lparr>w_external_wait_depth := w_external_wait_depth w1 + 1, w_external_wait_name := Some name,
                  w_external_wait_timeout := Some lease\<rparr>;
          w3 = (if defer \<and> outermost then w2\<lparr>w_external_wait_attempt := 0, w_external_wait_deadline := None\<rparr>
                else w2\<lparr>w_external_wait_attempt := 1,
                  w_external_wait_deadline := Some (max (case w_external_wait_deadline w2 of None \<Rightarrow> 0 | Some d \<Rightarrow> d)
                    (now + lease))\<rparr>) in
      w3\<lparr>w_revision := w_revision w3 + 1\<rparr>)"

definition begin_external_wait_locked :: "string \<Rightarrow> string \<Rightarrow> seconds \<Rightarrow> bool \<Rightarrow> seconds \<Rightarrow> supervisor \<Rightarrow>
    supervisor \<times> unit res" where
  "begin_external_wait_locked k name lease defer now s =
     (let w = objects s k in
      if w_state w \<noteq> ''active'' then (s, inactive_result w)
      else (ensure_thread (compact_deadlines (schedule_watch k (upd_watch k (enter_wait name lease defer now) s))), Inr ()))"

definition begin_external_wait :: "string \<Rightarrow> string \<Rightarrow> pynum \<Rightarrow> pynum \<Rightarrow> bool \<Rightarrow> seconds \<Rightarrow> supervisor \<Rightarrow>
    supervisor \<times> unit res" where
  "begin_external_wait k name timeout cleanup_grace defer now s =
     (case res_bind (validate_timeout timeout) (\<lambda>t. res_bind (validate_timeout cleanup_grace) (\<lambda>g. Inr (t, g))) of
        Inl e \<Rightarrow> (s, Inl e)
      | Inr (Some t, Some g) \<Rightarrow> begin_external_wait_locked k name (t + g) defer now (publish_wait_entry k now s)
      | Inr _ \<Rightarrow> (s, Inl (RuntimeError ''AssertionError'')))"

definition publish_renewal_entry :: "string \<Rightarrow> seconds \<Rightarrow> supervisor \<Rightarrow> supervisor" where
  "publish_renewal_entry k now s =
     upd_watch k (\<lambda>w. w\<lparr>w_external_renewal_entry := Some (w_external_wait_deadline w, now)\<rparr>) s"

definition renew_wait :: "string \<Rightarrow> seconds \<Rightarrow> attempt_watch \<Rightarrow> attempt_watch" where
  "renew_wait reason now w =
     (let first_physical_attempt = (w_external_wait_attempt w = 0);
          w1 = w\<lparr>w_external_wait_attempt := w_external_wait_attempt w + 1\<rparr>;
          w2 = (if first_physical_attempt then w1
                else w1\<lparr>w_external_wait_renewals := w_external_wait_renewals w1 + 1,
                        w_external_wait_last_renewal_reason := Some reason\<rparr>) in
      w2\<lparr>w_external_renewal_entry := None,
         w_external_wait_deadline := map_option (\<lambda>t. now + t) (w_external_wait_timeout w2),
         w_revision := w_revision w2 + 1\<rparr>)"

definition renew_external_wait_locked :: "string \<Rightarrow> string \<Rightarrow> seconds \<Rightarrow> supervisor \<Rightarrow> supervisor \<times> unit res" where
  "renew_external_wait_locked k reason now s =
     (let w = objects s k in
      if w_state w \<noteq> ''active'' then (s, inactive_result w)
      else if w_external_wait_depth w \<le> 0 \<or> w_external_wait_timeout w = None
        then (s, Inl (RuntimeError ''cannot renew an inactive external wait''))
      else (schedule_watch k (upd_watch k (renew_wait reason now) (ensure_thread (compact_deadlines s))), Inr ()))"

definition renew_external_wait :: "string \<Rightarrow> string \<Rightarrow> seconds \<Rightarrow> seconds \<Rightarrow> supervisor \<Rightarrow> supervisor \<times> unit res" where
  "renew_external_wait k reason entered now s =
     renew_external_wait_locked k reason now (publish_renewal_entry k entered s)"

definition leave_wait :: "string \<Rightarrow> seconds \<Rightarrow> attempt_watch \<Rightarrow> attempt_watch" where
  "leave_wait now_text now w =
     (let w1 = w\<lparr>w_external_wait_depth := w_external_wait_depth w - 1\<rparr>;
          w2 = (if w_external_wait_depth w1 = 0
                then w1\<lparr>w_external_wait_name := None, w_external_wait_timeout := None, w_external_wait_deadline := None,
                  w_checkpoint_at := Some now_text,
                  w_checkpoint_name := Some (or_text (w_external_wait_name w1) ''network request'' @ '' completed''),
                  w_checkpoint_deadline := map_option (\<lambda>t. now + t)
                     (or_else (w_checkpoint_timeout w1) (w_default_checkpoint_timeout w1))\<rparr>
                else w1) in
      w2\<lparr>w_revision := w_revision w2 + 1\<rparr>)"

definition end_external_wait :: "string \<Rightarrow> string \<Rightarrow> seconds \<Rightarrow> supervisor \<Rightarrow> supervisor" where
  "end_external_wait k now_text now s =
     (let w = objects s k; active = (w_state w = ''active'') in
      if w_external_wait_depth w \<le> 0 then s
      else let s1 = upd_watch k (leave_wait now_text now) (if active then compact_deadlines s else s) in
        if active then schedule_watch k s1 else s1)"

subsection \<open>Completion and cancellation\<close>

definition record_handler_exit :: "string \<Rightarrow> seconds \<Rightarrow> supervisor \<Rightarrow> supervisor" where
  "record_handler_exit k now s = upd_watch k (\<lambda>w. w\<lparr>w_handler_exit := Some (w_revision w, now)\<rparr>) s"

definition signal_handler_complete :: "string \<Rightarrow> supervisor \<Rightarrow> supervisor" where
  "signal_handler_complete k s =
     (let w = objects s k in
      if \<not> supervised w then upd_watch k (\<lambda>w. w\<lparr>w_state := ''handler_done'', w_wake_set := True\<rparr>) s
      else if w_state w = ''active''
        then upd_watch k (\<lambda>w. w\<lparr>w_state := ''handler_done'', w_revision := w_revision w + 1, w_wake_set := True\<rparr>) s
      else s)"

definition finish_attempt_locked :: "string \<Rightarrow> string \<Rightarrow> seconds \<Rightarrow> supervisor \<Rightarrow> supervisor" where
  "finish_attempt_locked k state now s =
     upd_watch k (\<lambda>w. w\<lparr>w_state := (if w_state w \<in> {''timed_out'', ''superseded''} then w_state w else state),
         w_revision := w_revision w + 1\<rparr>)
       (stop_restart_event_subscription now
         (s\<lparr>watches := filter (\<lambda>k'. k' \<noteq> k) (watches s), restartable_keys := restartable_keys s - {k}\<rparr>))"

text \<open>Whether \<open>finish_attempt\<close> publishes a terminal runtime snapshot; \<open>current\<close> is the storage's answer.\<close>

definition finish_publishes :: "bool \<Rightarrow> bool \<Rightarrow> attempt_watch \<Rightarrow> bool" where
  "finish_publishes in_fiber current w \<longleftrightarrow> w_state w \<noteq> ''superseded'' \<and> (w_runtime_written w \<or> supervised w) \<and>
     (w_execution_id w = None \<or> in_fiber \<or> current) \<and>
     \<not> (in_fiber \<and> w_state w \<in> {''completed'', ''failed''})"

definition finish_attempt :: "string \<Rightarrow> string \<Rightarrow> seconds \<Rightarrow> bool \<Rightarrow> bool \<Rightarrow> exn option \<Rightarrow> supervisor \<Rightarrow> supervisor \<times> unit res" where
  "finish_attempt k state now in_fiber current write_error s =
     (let s1 = finish_attempt_locked k state now s in
      if finish_publishes in_fiber current (objects s1 k) then publish_runtime k write_error s1 else (s1, Inr ()))"

definition owned_by :: "string \<Rightarrow> int \<Rightarrow> int \<Rightarrow> string option \<Rightarrow> attempt_watch \<Rightarrow> bool" where
  "owned_by node job generation execution w \<longleftrightarrow> w_node_name w = node \<and> w_job_id w = job \<and>
     w_generation w = generation \<and> w_execution_id w = execution"

definition supersede :: "string \<Rightarrow> attempt_watch \<Rightarrow> attempt_watch" where
  "supersede reason w = w\<lparr>w_state := ''superseded'', w_cancel_message := Some reason, w_cancellation_set := True,
     w_revision := w_revision w + 1, w_wake_set := True\<rparr>"

fun cancel_keys :: "string \<Rightarrow> int \<Rightarrow> int \<Rightarrow> string option \<Rightarrow> string \<Rightarrow> string list \<Rightarrow> supervisor \<Rightarrow> supervisor" where
  "cancel_keys node job generation execution reason [] s = s"
| "cancel_keys node job generation execution reason (k # ks) s =
     cancel_keys node job generation execution reason ks
       (if \<not> owned_by node job generation execution (objects s k) \<or>
           w_state (objects s k) \<notin> {''active'', ''handler_done''} then s
        else upd_watch k (supersede reason) (s\<lparr>restartable_keys := restartable_keys s - {k}\<rparr>))"

definition cancel_execution :: "string \<Rightarrow> int \<Rightarrow> int \<Rightarrow> string option \<Rightarrow> string \<Rightarrow> seconds \<Rightarrow> supervisor \<Rightarrow> supervisor" where
  "cancel_execution node job generation execution reason now s =
     stop_restart_event_subscription now (cancel_keys node job generation execution reason (watches s) s)"

text \<open>
  The restart check of the loop. The two storage reads are arguments; a failed read leaves everything to
  the next poll. The set of restartable keys is walked in registration order.
\<close>

definition lease_is_current :: "(string \<times> int \<Rightarrow> (int \<times> string option) option) \<Rightarrow> attempt_watch \<Rightarrow> bool" where
  "lease_is_current leases w \<longleftrightarrow> leases (w_node_name w, w_job_id w) = Some (w_generation w, w_execution_id w)"

definition check_restarts :: "int res \<Rightarrow> (string \<times> int \<Rightarrow> (int \<times> string option) option) res \<Rightarrow> seconds \<Rightarrow>
    supervisor \<Rightarrow> supervisor" where
  "check_restarts revision_read leases_read now s =
     (case revision_read of
        Inl _ \<Rightarrow> s
      | Inr current \<Rightarrow>
          if current = restart_revision s then s
          else let s1 = s\<lparr>restart_revision := current\<rparr>;
                   restart_watches = filter (\<lambda>k. k \<in> restartable_keys s1 \<and>
                      w_state (objects s1 k) \<in> {''active'', ''handler_done''}) (watches s1) in
            case leases_read of
              Inl _ \<Rightarrow> s1
            | Inr leases \<Rightarrow> foldl (\<lambda>s k. let w = objects s k in
                if lease_is_current leases w then s
                else cancel_execution (w_node_name w) (w_job_id w) (w_generation w) (w_execution_id w)
                       ''was restarted'' now s) s1 restart_watches)"

definition start_run_heartbeat :: "string \<Rightarrow> pynum \<Rightarrow> seconds \<Rightarrow> supervisor \<Rightarrow> supervisor res" where
  "start_run_heartbeat run_id interval now s = (case validate_timeout interval of
     Inl e \<Rightarrow> Inl e
   | Inr None \<Rightarrow> Inl (RuntimeError ''AssertionError'')
   | Inr (Some i) \<Rightarrow> Inr (ensure_thread (s\<lparr>heartbeat := Some \<lparr>hb_run_id = run_id, hb_interval = i, hb_next_at = now + i\<rparr>\<rparr>)))"

definition stop_run_heartbeat :: "string \<Rightarrow> supervisor \<Rightarrow> supervisor" where
  "stop_run_heartbeat run_id s = (case heartbeat s of
     Some h \<Rightarrow> if hb_run_id h = run_id then s\<lparr>heartbeat := None\<rparr> else s | None \<Rightarrow> s)"

section \<open>Invariant: every live deadline is armed\<close>

text \<open>
  A timeout is configured wherever a deadline of its kind is set (the message of an expiry formats it),
  and an unsupervised watch has no checkpoint interval.
\<close>

definition good_watch :: "attempt_watch \<Rightarrow> bool" where
  "good_watch w \<longleftrightarrow> (w_total_deadline w \<noteq> None \<longrightarrow> w_total_timeout w \<noteq> None) \<and>
     (w_checkpoint_deadline w \<noteq> None \<longrightarrow> w_checkpoint_timeout w \<noteq> None) \<and>
     (w_external_wait_deadline w \<noteq> None \<longrightarrow> w_external_wait_timeout w \<noteq> None) \<and>
     (w_default_checkpoint_timeout w \<noteq> None \<longrightarrow> w_checkpoint_timeout w \<noteq> None) \<and>
     (\<not> supervised w \<longrightarrow> w_checkpoint_timeout w = None)"

text \<open>
  The deadlines of an active watch that the loop must act on are in the heap under the watch's current
  revision. A checkpoint or lease may be missing only after the code published the marker that exempts
  it; the total deadline never.
\<close>

definition total_armed :: "deadline_entry set \<Rightarrow> string \<Rightarrow> attempt_watch \<Rightarrow> bool" where
  "total_armed D k w \<longleftrightarrow> (\<forall>d. w_total_deadline w = Some d \<longrightarrow> (\<exists>n. (d, n, k, ''total'', w_revision w) \<in> D))"

definition external_armed :: "deadline_entry set \<Rightarrow> string \<Rightarrow> attempt_watch \<Rightarrow> bool" where
  "external_armed D k w \<longleftrightarrow> (\<forall>d. w_external_wait_deadline w = Some d \<longrightarrow>
     (\<exists>n. (d, n, k, ''external'', w_revision w) \<in> D) \<or> (\<exists>t. w_external_renewal_entry w = Some (Some d, t)))"

definition checkpoint_armed :: "deadline_entry set \<Rightarrow> string \<Rightarrow> attempt_watch \<Rightarrow> bool" where
  "checkpoint_armed D k w \<longleftrightarrow> (\<forall>d. w_checkpoint_deadline w = Some d \<longrightarrow>
     (\<exists>n. (d, n, k, ''checkpoint'', w_revision w) \<in> D) \<or>
     (\<exists>t. w_external_wait_entry w = Some (w_revision w, t)) \<or> (\<exists>t. w_handler_exit w = Some (w_revision w, t)))"

definition armed :: "deadline_entry set \<Rightarrow> string \<Rightarrow> attempt_watch \<Rightarrow> bool" where
  "armed D k w \<longleftrightarrow> (w_state w = ''active'' \<longrightarrow> total_armed D k w \<and>
     (if w_external_wait_depth w > 0 then external_armed D k w else checkpoint_armed D k w))"

lemmas armed_defs = armed_def total_armed_def external_armed_def checkpoint_armed_def

definition known_kinds :: "deadline_entry set \<Rightarrow> bool" where
  "known_kinds D \<longleftrightarrow> (\<forall>e\<in>D. fst (snd (snd (snd e))) \<in> {''total'', ''external'', ''checkpoint''})"

lemma known_kinds_simps [simp]:
  "known_kinds {}" "known_kinds (D \<union> D') \<longleftrightarrow> known_kinds D \<and> known_kinds D'"
  "known_kinds (insert (d, n, k, kind, r) D) \<longleftrightarrow> kind \<in> {''total'', ''external'', ''checkpoint''} \<and> known_kinds D"
  by (auto simp: known_kinds_def)

lemma known_kinds_subset: "known_kinds D' \<Longrightarrow> D \<subseteq> D' \<Longrightarrow> known_kinds D"
  by (auto simp: known_kinds_def)

definition sup_inv :: "supervisor \<Rightarrow> bool" where
  "sup_inv s \<longleftrightarrow> sorted (map entry_key (deadlines s)) \<and> known_kinds (set (deadlines s)) \<and> (\<forall>k. good_watch (objects s k)) \<and>
     (\<forall>k\<in>set (watches s). armed (set (deadlines s)) k (objects s k))"

lemma armed_mono: "armed D k w \<Longrightarrow> D \<subseteq> D' \<Longrightarrow> armed D' k w"
  unfolding armed_defs by (simp split: if_splits) blast+

lemma sup_invI:
  "sorted (map entry_key (deadlines s)) \<Longrightarrow> known_kinds (set (deadlines s)) \<Longrightarrow> (\<And>k. good_watch (objects s k)) \<Longrightarrow>
   (\<And>k. k \<in> set (watches s) \<Longrightarrow> armed (set (deadlines s)) k (objects s k)) \<Longrightarrow> sup_inv s"
  by (simp add: sup_inv_def)

lemma sup_inv_cong:
  "deadlines s' = deadlines s \<Longrightarrow> objects s' = objects s \<Longrightarrow> set (watches s') \<subseteq> set (watches s) \<Longrightarrow>
   sup_inv s \<Longrightarrow> sup_inv s'"
  by (auto simp: sup_inv_def)

named_theorems sup_frame "what an operation leaves unchanged"

lemma upd_watch_frame [simp, sup_frame]:
  "objects (upd_watch k f s) = (objects s)(k := f (objects s k))"
  "watches (upd_watch k f s) = watches s" "deadlines (upd_watch k f s) = deadlines s"
  "restartable_keys (upd_watch k f s) = restartable_keys s"
  by (simp_all add: upd_watch_def)

lemma stop_subscription_frame [simp, sup_frame]:
  "objects (stop_restart_event_subscription now s) = objects s"
  "watches (stop_restart_event_subscription now s) = watches s"
  "deadlines (stop_restart_event_subscription now s) = deadlines s"
  "restartable_keys (stop_restart_event_subscription now s) = restartable_keys s"
  by (simp_all add: stop_restart_event_subscription_def)

lemma ensure_thread_frame [simp, sup_frame]:
  "objects (ensure_thread s) = objects s" "watches (ensure_thread s) = watches s"
  "deadlines (ensure_thread s) = deadlines s"
  by (simp_all add: ensure_thread_def)

lemma push_deadline_facts:
  "objects (push_deadline k kind d s) = objects s" "watches (push_deadline k kind d s) = watches s"
  "set (deadlines (push_deadline k kind d s)) = set (deadlines s) \<union>
     (case d of None \<Rightarrow> {} | Some x \<Rightarrow> {(x, serial s + 1, k, kind, w_revision (objects s k))})"
  "sorted (map entry_key (deadlines s)) \<Longrightarrow> sorted (map entry_key (deadlines (push_deadline k kind d s)))"
  by (auto simp: push_deadline_def heappush_def set_insort_key sorted_insort_key split: option.splits)

lemma schedule_watch_frame [simp, sup_frame]:
  "objects (schedule_watch k s) = objects s" "watches (schedule_watch k s) = watches s"
  by (simp_all add: schedule_watch_def Let_def push_deadline_facts)

lemma schedule_watch_facts:
  shows "set (deadlines s) \<subseteq> set (deadlines (schedule_watch k s))"
    and "sorted (map entry_key (deadlines s)) \<Longrightarrow> sorted (map entry_key (deadlines (schedule_watch k s)))"
    and "armed (set (deadlines (schedule_watch k s))) k (objects s k)"
    and "known_kinds (set (deadlines s)) \<Longrightarrow> known_kinds (set (deadlines (schedule_watch k s)))"
  by (auto simp: schedule_watch_def Let_def push_deadline_facts armed_defs split: option.splits)

lemma rebuild_kinds_set:
  "set (snd (rebuild_kinds k r ks acc)) \<supseteq> set (snd acc)"
  "(kind, Some d) \<in> set ks \<Longrightarrow> \<exists>n. (d, n, k, kind, r) \<in> set (snd (rebuild_kinds k r ks acc))"
  by (induction k r ks acc rule: rebuild_kinds.induct) auto

lemma rebuild_deadlines_mono: "set (snd (rebuild_deadlines obj ks acc)) \<supseteq> set (snd acc)"
proof (induction obj ks acc rule: rebuild_deadlines.induct)
  case (2 obj k ks acc)
  then show ?case using rebuild_kinds_set(1) by (fastforce split: if_splits)
qed simp

lemma rebuild_kinds_known:
  "known_kinds (set (snd acc)) \<Longrightarrow> fst ` set ks \<subseteq> {''total'', ''external'', ''checkpoint''} \<Longrightarrow>
     known_kinds (set (snd (rebuild_kinds k r ks acc)))"
  by (induction k r ks acc rule: rebuild_kinds.induct) auto

lemma rebuild_deadlines_known:
  "known_kinds (set (snd acc)) \<Longrightarrow> known_kinds (set (snd (rebuild_deadlines obj ks acc)))"
  by (induction obj ks acc rule: rebuild_deadlines.induct) (simp_all add: rebuild_kinds_known kept_deadlines_def)

lemma rebuild_deadlines_armed:
  "k \<in> set ks \<Longrightarrow> armed (set (snd (rebuild_deadlines obj ks acc))) k (obj k)"
proof (induction obj ks acc rule: rebuild_deadlines.induct)
  case (2 obj k' ks acc)
  show ?case
  proof (cases "k = k' \<and> w_state (obj k) = ''active''")
    case True
    let ?acc = "rebuild_kinds k (w_revision (obj k)) (kept_deadlines (obj k)) acc"
    have kept: "\<exists>n. (d, n, k, kind, w_revision (obj k)) \<in> set (snd ?acc)"
      if "(kind, Some d) \<in> set (kept_deadlines (obj k))" for kind d
      using that by (rule rebuild_kinds_set(2))
    have "armed (set (snd ?acc)) k (obj k)"
      unfolding armed_defs using kept [of "''total''"] kept [of "''external''"] kept [of "''checkpoint''"]
      by (auto simp: kept_deadlines_def simp del: rebuild_kinds.simps)
    from armed_mono [OF this rebuild_deadlines_mono] True show ?thesis by auto
  next
    case False
    then show ?thesis using 2 by (cases "k = k'") (auto simp: armed_def)
  qed
qed simp

lemma compact_frame [simp, sup_frame]:
  "objects (compact_deadlines s) = objects s" "watches (compact_deadlines s) = watches s"
  by (simp_all add: compact_deadlines_def split: prod.split)

lemma sup_inv_compact: "sup_inv s \<Longrightarrow> sup_inv (compact_deadlines s)"
proof (cases "length (deadlines s) \<le> max 256 (length (watches s) * 8)")
  case False
  assume inv: "sup_inv s"
  have "deadlines (compact_deadlines s) = sort_key entry_key (snd (rebuild_deadlines (objects s) (watches s) (serial s, [])))"
    using False by (simp add: compact_deadlines_def split: prod.split)
  then show ?thesis using inv rebuild_deadlines_armed [of _ "watches s" "objects s"] rebuild_deadlines_known [of "(serial s, [])"]
    by (auto simp: sup_inv_def)
qed (simp add: compact_deadlines_def)

lemma sup_inv_ensure_thread [simp]: "sup_inv (ensure_thread s) = sup_inv s"
  by (simp add: sup_inv_def)

text \<open>The two ways an operation changes one watch: without and with rescheduling it.\<close>

lemma sup_inv_upd:
  assumes "sup_inv s" and "good_watch (f (objects s k))"
    and "k \<in> set (watches s) \<Longrightarrow> armed (set (deadlines s)) k (objects s k) \<Longrightarrow> armed (set (deadlines s)) k (f (objects s k))"
  shows "sup_inv (upd_watch k f s)"
  using assms by (auto simp: sup_inv_def)

lemma sup_inv_reschedule:
  assumes "sup_inv s" and "good_watch (f (objects s k))"
  shows "sup_inv (schedule_watch k (upd_watch k f s))"
proof -
  let ?u = "upd_watch k f s" and ?s = "schedule_watch k (upd_watch k f s)"
  note facts = schedule_watch_facts [where s = ?u and k = k]
  have "armed (set (deadlines ?s)) k' (objects ?s k')" if "k' \<in> set (watches s)" for k'
  proof (cases "k' = k")
    case True
    then show ?thesis using facts(3) by simp
  next
    case False
    then have "armed (set (deadlines s)) k' (objects ?s k')" using assms(1) that by (simp add: sup_inv_def)
    moreover have "set (deadlines s) \<subseteq> set (deadlines ?s)" using facts(1) by (simp add: upd_watch_def)
    ultimately show ?thesis by (rule armed_mono)
  qed
  moreover have "sorted (map entry_key (deadlines ?s))" using facts(2) assms(1) by (simp add: sup_inv_def)
  moreover have "known_kinds (set (deadlines ?s))" using facts(4) assms(1) by (simp add: sup_inv_def)
  moreover have "good_watch (objects ?s k')" for k' using assms by (simp add: sup_inv_def)
  ultimately show ?thesis by (intro sup_invI) simp_all
qed

subsection \<open>Every operation keeps the invariant\<close>

lemma good_new_watch: "good_watch (new_watch k node job task a r g e total_value checkpoint force txt now)"
  by (auto simp: good_watch_def new_watch_def supervised_def)

lemma sup_inv_new: "sup_inv (new_supervisor revision now)"
  by (simp add: sup_inv_def new_supervisor_def blank_watch_def good_new_watch)

lemma sup_inv_register:
  assumes "sup_inv s" and "good_watch w" and "w_total_deadline w = None" and "w_checkpoint_deadline w = None"
    and "w_external_wait_deadline w = None"
  shows "sup_inv (register_watch k w s)"
proof -
  have "objects (register_watch k w s) = (objects s)(k := w)" "deadlines (register_watch k w s) = deadlines s"
    "set (watches (register_watch k w s)) = insert k (set (watches s))"
    by (auto simp: register_watch_def Let_def ensure_restart_event_subscription_def)
  then show ?thesis using assms by (auto simp: sup_inv_def armed_defs)
qed

lemma sup_inv_create:
  "sup_inv s \<Longrightarrow> create_attempt k node job task a r g e tt ct force txt now s = Inr s' \<Longrightarrow> sup_inv s'"
  by (auto simp: create_attempt_def res_bind_eq_Inr intro!: sup_inv_register good_new_watch) (simp_all add: new_watch_def)

lemma sup_inv_prepare: "sup_inv s \<Longrightarrow> sup_inv (fst (prepare_handler k txt we s))"
  by (auto simp: prepare_handler_def Let_def split: option.split intro!: sup_inv_upd)
    (auto simp: sup_inv_def good_watch_def supervised_def armed_defs)

lemma good_arm: "good_watch w \<Longrightarrow> good_watch (arm_deadlines txt now w)"
  by (auto simp: arm_deadlines_def Let_def good_watch_def supervised_def split: option.splits)

lemma sup_inv_arm:
  assumes inv: "sup_inv s" and wait: "w_external_wait_depth (objects s k) = 0"
  shows "sup_inv (fst (arm_handler k txt now s))"
proof (cases "w_state (objects s k) = ''active'' \<and> \<not> supervised (objects s k)")
  case True
  have good: "good_watch (objects s k)" using inv by (simp add: sup_inv_def)
  have "w_total_timeout (objects s k) = None" "w_checkpoint_timeout (objects s k) = None"
    "w_total_deadline (objects s k) = None" "w_checkpoint_deadline (objects s k) = None"
    using True good by (auto simp: supervised_def good_watch_def)
  then have "armed D k (arm_deadlines txt now (objects s k))" for D
    using wait by (simp add: armed_defs arm_deadlines_def Let_def)
  then show ?thesis using True inv good good_arm by (simp add: arm_handler_def Let_def sup_inv_upd)
next
  case False
  have "good_watch (arm_deadlines txt now (objects s k))"
    using inv good_arm by (simp add: sup_inv_def)
  then have "sup_inv (schedule_watch k (upd_watch k (arm_deadlines txt now) (ensure_thread (compact_deadlines s))))"
    using inv by (intro sup_inv_reschedule) (simp_all add: sup_inv_compact)
  then show ?thesis using False inv by (auto simp: arm_handler_def Let_def)
qed

lemma sup_inv_progress: "sup_inv s \<Longrightarrow> sup_inv (upd_watch k (note_progress txt name p d) s)"
  by (rule sup_inv_upd) (auto simp: sup_inv_def good_watch_def supervised_def armed_defs note_progress_def)

lemma sup_inv_disarm:
  "sup_inv s \<Longrightarrow> supervised (objects s k) \<Longrightarrow> sup_inv (schedule_watch k (upd_watch k (disarm_checkpoint t) s))"
  by (rule sup_inv_reschedule) (auto simp: sup_inv_def good_watch_def supervised_def disarm_checkpoint_def)

lemma supervised_progress [simp]: "supervised (note_progress txt name p d w) = supervised w"
  by (simp add: supervised_def note_progress_def)

lemma sup_inv_start_checkpoint: "sup_inv s \<Longrightarrow> sup_inv (fst (start_checkpoint k name p d t txt s))"
  unfolding start_checkpoint_def Let_def
  by (auto split: sum.split option.split simp: sup_inv_progress sup_inv_disarm sup_inv_compact)

lemma sup_inv_publish_runtime: "sup_inv s \<Longrightarrow> sup_inv (fst (publish_runtime k we s))"
  unfolding publish_runtime_def
  by (auto split: option.split intro!: sup_inv_upd) (auto simp: sup_inv_def good_watch_def supervised_def armed_defs)

lemma sup_inv_finish_checkpoint:
  assumes "sup_inv s" and "effective \<noteq> None \<Longrightarrow> w_checkpoint_timeout (objects s k) \<noteq> None"
  shows "sup_inv (finish_checkpoint k effective now s)"
proof -
  have "sup_inv (schedule_watch k (upd_watch k (\<lambda>w. w\<lparr>w_checkpoint_deadline := Some (now + t),
      w_revision := w_revision w + 1\<rparr>) (ensure_thread (compact_deadlines s))))" if "effective = Some t" for t
    using assms that sup_inv_compact [OF assms(1)]
    by (intro sup_inv_reschedule) (auto simp: sup_inv_def good_watch_def supervised_def)
  then show ?thesis using assms(1) by (auto simp: finish_checkpoint_def split: option.split)
qed

lemma sup_inv_publish_wait_entry: "sup_inv s \<Longrightarrow> sup_inv (publish_wait_entry k now s)"
  unfolding publish_wait_entry_def
  by (rule sup_inv_upd) (auto simp: sup_inv_def good_watch_def supervised_def armed_defs)

lemma sup_inv_begin_wait: "sup_inv s \<Longrightarrow> sup_inv (fst (begin_external_wait_locked k name lease defer now s))"
  unfolding begin_external_wait_locked_def Let_def
  by (auto intro!: sup_inv_compact sup_inv_reschedule)
    (auto simp: sup_inv_def good_watch_def supervised_def enter_wait_def Let_def)

lemma sup_inv_publish_renewal: "sup_inv s \<Longrightarrow> sup_inv (publish_renewal_entry k now s)"
  unfolding publish_renewal_entry_def
  by (rule sup_inv_upd) (auto simp: sup_inv_def good_watch_def supervised_def armed_defs)

lemma sup_inv_renew: "sup_inv s \<Longrightarrow> sup_inv (fst (renew_external_wait_locked k reason now s))"
  unfolding renew_external_wait_locked_def Let_def
  by (auto intro!: sup_inv_reschedule simp: sup_inv_compact)
    (auto simp: sup_inv_def good_watch_def supervised_def renew_wait_def Let_def)

lemma good_leave: "good_watch w \<Longrightarrow> good_watch (leave_wait txt now w)"
  by (auto simp: leave_wait_def Let_def good_watch_def supervised_def or_else_def split: option.splits if_splits)

lemma sup_inv_end_wait:
  assumes inv: "sup_inv s" shows "sup_inv (end_external_wait k txt now s)"
proof -
  have good: "good_watch (leave_wait txt now (objects s k))" using inv good_leave by (simp add: sup_inv_def)
  have inactive: "armed D k (leave_wait txt now w)" if "w_state w \<noteq> ''active''" for D w
    using that by (simp add: armed_def leave_wait_def Let_def)
  show ?thesis
    using inv good inactive unfolding end_external_wait_def Let_def
    by (auto intro!: sup_inv_reschedule sup_inv_upd simp: sup_inv_compact)
qed

lemma sup_inv_record_exit: "sup_inv s \<Longrightarrow> sup_inv (record_handler_exit k now s)"
  unfolding record_handler_exit_def
  by (rule sup_inv_upd) (auto simp: sup_inv_def good_watch_def supervised_def armed_defs)

lemma sup_inv_signal: "sup_inv s \<Longrightarrow> sup_inv (signal_handler_complete k s)"
  unfolding signal_handler_complete_def Let_def
  by (auto intro!: sup_inv_upd) (auto simp: sup_inv_def good_watch_def supervised_def armed_defs)

lemma sup_inv_finish: "sup_inv s \<Longrightarrow> sup_inv (finish_attempt_locked k state now s)"
proof -
  assume "sup_inv s"
  then have "sup_inv (stop_restart_event_subscription now
      (s\<lparr>watches := filter (\<lambda>k'. k' \<noteq> k) (watches s), restartable_keys := restartable_keys s - {k}\<rparr>))"
    by (rule sup_inv_cong [rotated 3]) auto
  then show ?thesis unfolding finish_attempt_locked_def
    by (rule sup_inv_upd) (use \<open>sup_inv s\<close> in \<open>auto simp: sup_inv_def good_watch_def supervised_def\<close>)
qed

lemma sup_inv_supersede: "sup_inv s \<Longrightarrow> sup_inv (upd_watch k (supersede reason) s)"
  by (rule sup_inv_upd) (auto simp: sup_inv_def good_watch_def supervised_def armed_defs supersede_def)

lemma sup_inv_stop [simp]: "sup_inv (stop_restart_event_subscription now s) = sup_inv s"
  by (simp add: sup_inv_def)

lemma sup_inv_keys [simp]: "sup_inv (s\<lparr>restartable_keys := K\<rparr>) = sup_inv s"
  by (simp add: sup_inv_def)

lemma sup_inv_cancel_keys: "sup_inv s \<Longrightarrow> sup_inv (cancel_keys node job g e reason ks s)"
  by (induction node job g e reason ks s rule: cancel_keys.induct) (simp add: sup_inv_supersede)+

lemma sup_inv_cancel: "sup_inv s \<Longrightarrow> sup_inv (cancel_execution node job g e reason now s)"
  by (simp add: cancel_execution_def sup_inv_cancel_keys)

lemma sup_inv_check_restarts:
  assumes "sup_inv s" shows "sup_inv (check_restarts rr lr now s)"
proof -
  have step: "sup_inv (foldl (\<lambda>s k. let w = objects s k in if lease_is_current leases w then s
        else cancel_execution (w_node_name w) (w_job_id w) (w_generation w) (w_execution_id w) ''was restarted'' now s) s' ks)"
    if "sup_inv s'" for leases s' ks
    using that by (induction ks arbitrary: s') (simp_all add: Let_def sup_inv_cancel)
  have "sup_inv (s\<lparr>restart_revision := r\<rparr>)" for r using assms by (simp add: sup_inv_def)
  with step assms show ?thesis by (simp add: check_restarts_def Let_def split: sum.split)
qed

subsection \<open>The expiry pass\<close>

lemma stale_entry_restrict:
  "stale_entry (s\<lparr>deadlines := D\<rparr>) e = stale_entry s e"
  by (simp add: stale_entry_def split: prod.split)

text \<open>A current entry's message can always be formatted.\<close>

lemma expiry_message_ok:
  assumes good: "good_watch (objects s k)" and "\<not> stale_entry s (d, n, k, kind, r)"
    and kind: "kind \<in> {''total'', ''external'', ''checkpoint''}"
  shows "\<exists>m. expiry_message (objects s k) kind = Inr m"
proof -
  have c: "current_deadline (objects s k) kind \<noteq> None"
    using assms(2) by (cases "current_deadline (objects s k) kind") (simp_all add: stale_entry_def Let_def)
  from kind consider "kind = ''total''" | "kind = ''external''" | "kind = ''checkpoint''" by blast
  then show ?thesis
    by cases (use c good in \<open>auto simp: expiry_message_def current_deadline_def good_watch_def Let_def\<close>)
qed

lemma armed_remove:
  assumes "armed (insert e D) k w"
    and "\<And>d n. e = (d, n, k, ''total'', w_revision w) \<Longrightarrow> w_state w = ''active'' \<Longrightarrow> w_total_deadline w \<noteq> Some d"
    and "\<And>d n. e = (d, n, k, ''external'', w_revision w) \<Longrightarrow> w_state w = ''active'' \<Longrightarrow>
      w_external_wait_deadline w = Some d \<Longrightarrow> \<exists>t. w_external_renewal_entry w = Some (Some d, t)"
    and "\<And>d n. e = (d, n, k, ''checkpoint'', w_revision w) \<Longrightarrow> w_state w = ''active'' \<Longrightarrow>
      w_checkpoint_deadline w = Some d \<Longrightarrow>
      (\<exists>t. w_external_wait_entry w = Some (w_revision w, t)) \<or> (\<exists>t. w_handler_exit w = Some (w_revision w, t))"
  shows "armed D k w"
proof -
  have "total_armed D k w" if "w_state w = ''active''" "total_armed (insert e D) k w"
    using that assms(2) unfolding total_armed_def by (metis insert_iff)
  moreover have "external_armed D k w" if "w_state w = ''active''" "external_armed (insert e D) k w"
    using that assms(3) unfolding external_armed_def by (metis insert_iff)
  moreover have "checkpoint_armed D k w" if "w_state w = ''active''" "checkpoint_armed (insert e D) k w"
    using that assms(4) unfolding checkpoint_armed_def by (metis insert_iff)
  ultimately show ?thesis using assms(1) unfolding armed_def by (cases "w_external_wait_depth w > 0") auto
qed

text \<open>What the pass keeps of the pending entries: those the loop may still have to act on.\<close>

definition pass_inv :: "deadline_entry list \<Rightarrow> supervisor \<Rightarrow> bool" where
  "pass_inv es s \<longleftrightarrow> sup_inv (s\<lparr>deadlines := es\<rparr>)"

lemma stale_entry_current:
  assumes "stale_entry s (d, n, k, kind, w_revision (objects s k))" and "k \<in> set (watches s)"
    and "w_state (objects s k) = ''active''"
  shows "current_deadline (objects s k) kind \<noteq> Some d"
  using assms by (auto simp: stale_entry_def Let_def)

lemma pass_inv_skip:
  assumes "pass_inv (e # es) s" and skip: "stale_entry s e \<or> exempt_entry (objects s (fst (snd (snd e)))) e"
  shows "pass_inv es s"
proof -
  have "armed (set es) k (objects s k)" if k: "k \<in> set (watches s)" for k
  proof (rule armed_remove)
    show "armed (insert e (set es)) k (objects s k)" using assms(1) k by (simp add: pass_inv_def sup_inv_def)
    fix d n assume active: "w_state (objects s k) = ''active''"
    show "w_total_deadline (objects s k) \<noteq> Some d" if "e = (d, n, k, ''total'', w_revision (objects s k))"
      using skip stale_entry_current [OF _ k active] unfolding that
      by (force simp: exempt_entry_def current_deadline_def)
    show "\<exists>t. w_external_renewal_entry (objects s k) = Some (Some d, t)"
      if e: "e = (d, n, k, ''external'', w_revision (objects s k))" and c: "w_external_wait_deadline (objects s k) = Some d"
      using skip stale_entry_current [OF _ k active, of d n "''external''"] c unfolding e
      by (auto simp: exempt_entry_def current_deadline_def split: option.splits)
    show "(\<exists>t. w_external_wait_entry (objects s k) = Some (w_revision (objects s k), t)) \<or>
          (\<exists>t. w_handler_exit (objects s k) = Some (w_revision (objects s k), t))"
      if e: "e = (d, n, k, ''checkpoint'', w_revision (objects s k))" and c: "w_checkpoint_deadline (objects s k) = Some d"
      using skip stale_entry_current [OF _ k active, of d n "''checkpoint''"] c unfolding e
      by (auto simp: exempt_entry_def current_deadline_def split: option.splits)
  qed
  then show ?thesis
    using assms(1) known_kinds_subset [of "insert e (set es)" "set es"]
    by (auto simp: pass_inv_def sup_inv_def)
qed

lemma good_expire: "good_watch w \<Longrightarrow> good_watch (expire_watch w kind m)"
  by (simp add: expire_watch_def Let_def good_watch_def supervised_def)

lemma armed_expire: "armed D k (expire_watch w kind m)"
  by (simp add: expire_watch_def Let_def armed_def)

lemma pass_inv_fire:
  assumes "pass_inv (e # es) s" and "k = fst (snd (snd e))"
  shows "pass_inv es (stop_restart_event_subscription now (upd_watch k (\<lambda>w. expire_watch w kind m)
     s\<lparr>restartable_keys := K\<rparr>))"
  unfolding pass_inv_def
proof (rule sup_invI, goal_cases)
  case 1
  then show ?case using assms(1) by (simp add: pass_inv_def sup_inv_def)
next
  case 2
  then show ?case using assms(1) known_kinds_subset [of "insert e (set es)" "set es"]
    by (auto simp: pass_inv_def sup_inv_def)
next
  case (3 k')
  then show ?case using assms(1) by (simp add: pass_inv_def sup_inv_def good_expire)
next
  case (4 k')
  have "armed (set es) k' (objects s k')" if "k' \<noteq> k"
  proof (rule armed_remove [of e])
    show "armed (insert e (set es)) k' (objects s k')" using assms(1) 4 by (simp add: pass_inv_def sup_inv_def)
  qed (use that assms(2) in simp_all)
  then show ?case by (cases "k' = k") (simp_all add: armed_expire)
qed

text \<open>
  The whole pass: it succeeds, keeps the invariant, leaves only later or unread entries, and expires only
  watches whose own deadline of that kind was due. \<open>due\<close> says that of the state in which the pass began.
\<close>

definition due :: "seconds \<Rightarrow> supervisor \<Rightarrow> string \<times> string \<Rightarrow> bool" where
  "due now s = (\<lambda>(k, kind). k \<in> set (watches s) \<and> w_state (objects s k) = ''active'' \<and>
     (\<exists>c. current_deadline (objects s k) kind = Some c \<and> c \<le> now + 1 / 1000000000))"

lemma not_stale_due:
  assumes "\<not> stale_entry s (d, n, k, kind, r)" and "d \<le> now"
  shows "due now s (k, kind)"
proof -
  obtain c where c: "current_deadline (objects s k) kind = Some c" "\<not> \<bar>c - d\<bar> > 1 / 1000000000"
    and k: "k \<in> set (watches s)" "w_state (objects s k) = ''active''"
    using assms(1) by (auto simp: stale_entry_def Let_def split: option.splits)
  have "c \<le> now + 1 / 1000000000" using c(2) assms(2) by linarith
  with c(1) k show ?thesis by (simp add: due_def)
qed

lemma expire_entries_spec:
  assumes "pass_inv es s"
  shows "\<exists>s' fired. expire_entries now es s acc = Inr (s', acc @ fired) \<and> sup_inv s' \<and> watches s' = watches s \<and>
     (\<forall>e\<in>set (deadlines s'). now < fst e) \<and> distinct (map fst fired) \<and> (\<forall>f\<in>set fired. due now s f) \<and>
     (\<forall>k. objects s' k = (case map_of fired k of None \<Rightarrow> objects s k
        | Some kind \<Rightarrow> expire_watch (objects s k) kind (case expiry_message (objects s k) kind of Inr m \<Rightarrow> m)))"
  using assms
proof (induction es arbitrary: s acc)
  case Nil
  then show ?case by (simp add: pass_inv_def)
next
  case (Cons e es)
  obtain d n k kind r where e: "e = (d, n, k, kind, r)" by (cases e) auto
  show ?case
  proof (cases "d > now")
    case True
    have "now < fst e'" if "e' \<in> set (e # es)" for e'
    proof -
      have "entry_key e \<le> entry_key e'" using Cons.prems that by (auto simp: pass_inv_def sup_inv_def)
      then have "d \<le> fst e'" by (auto simp: e entry_key_def less_eq_prod_def)
      then show ?thesis using True by simp
    qed
    then show ?thesis using True Cons.prems by (simp add: e pass_inv_def)
  next
    case False
    show ?thesis
    proof (cases "stale_entry s e \<or> exempt_entry (objects s k) e")
      case True
      then have "expire_entries now (e # es) s acc = expire_entries now es s acc"
        using False by (simp add: e)
      then show ?thesis using Cons.IH [OF pass_inv_skip [OF Cons.prems]] True by (simp add: e)
    next
      case fire: False
      have good: "good_watch (objects s k)" "kind \<in> {''total'', ''external'', ''checkpoint''}"
        using Cons.prems by (simp_all add: pass_inv_def sup_inv_def e)
      obtain m where m: "expiry_message (objects s k) kind = Inr m"
        using expiry_message_ok [OF good(1) _ good(2)] fire unfolding e by blast
      let ?s = "stop_restart_event_subscription now (upd_watch k (\<lambda>w. expire_watch w kind m)
          s\<lparr>restartable_keys := restartable_keys s - {k}\<rparr>)"
      have run: "expire_entries now (e # es) s acc = expire_entries now es ?s (acc @ [(k, kind)])"
        using False fire m by (simp add: e)
      have inv: "pass_inv es ?s" using Cons.prems by (rule pass_inv_fire) (simp add: e)
      obtain s' fired where r: "expire_entries now es ?s (acc @ [(k, kind)]) = Inr (s', (acc @ [(k, kind)]) @ fired)"
        and s': "sup_inv s'" "watches s' = watches ?s" "\<forall>e\<in>set (deadlines s'). now < fst e" "distinct (map fst fired)"
        and d': "\<forall>f\<in>set fired. due now ?s f"
        and o': "\<forall>k. objects s' k = (case map_of fired k of None \<Rightarrow> objects ?s k
          | Some kind \<Rightarrow> expire_watch (objects ?s k) kind (case expiry_message (objects ?s k) kind of Inr m \<Rightarrow> m))"
        using Cons.IH [OF inv, of "acc @ [(k, kind)]"] by blast
      have nk: "k \<notin> fst ` set fired"
        using d' by (auto simp: due_def expire_watch_def Let_def)
      have du: "due now s f" if "f \<in> set fired" for f
      proof -
        have "due now ?s f" "fst f \<noteq> k" using d' nk that by auto
        then show ?thesis by (cases f) (simp add: due_def)
      qed
      have "due now s (k, kind)" using not_stale_due [of s d n k kind r] fire False unfolding e by simp
      then show ?thesis
        using run r s' nk du o' m
        by (intro exI [of _ s'] exI [of _ "(k, kind) # fired"])
          (auto simp: map_of_eq_None_iff split: option.splits)
    qed
  qed
qed

subsection \<open>Interleaved runs\<close>

text \<open>
  Runs of the supervisor: any interleaving of the critical sections of any number of attempts, cancels,
  heartbeats and watchdog rounds, with arbitrary clock readings and storage outcomes. \<open>F\<close> holds the calls
  of \<open>report_checkpoint\<close> between their two critical sections. A new watch has a fresh key, and deadlines
  are armed before the handler runs, so outside any external wait of its own.
\<close>

inductive sup_run :: "supervisor \<Rightarrow> (string \<times> seconds) set \<Rightarrow> bool" where
  start: "sup_run (new_supervisor revision now) {}"
| create: "sup_run s F \<Longrightarrow> k \<notin> set (watches s) \<Longrightarrow> k \<notin> fst ` F \<Longrightarrow>
    create_attempt k node job task a r g ex tt ct force txt now s = Inr s' \<Longrightarrow> sup_run s' F"
| prepare: "sup_run s F \<Longrightarrow> sup_run (fst (prepare_handler k txt we s)) F"
| arm: "sup_run s F \<Longrightarrow> w_external_wait_depth (objects s k) = 0 \<Longrightarrow> sup_run (fst (arm_handler k txt now s)) F"
| checkpoint_fails: "sup_run s F \<Longrightarrow> start_checkpoint k name p d t txt s = (s', Inl err) \<Longrightarrow> sup_run s' F"
| checkpoint_passes: "sup_run s F \<Longrightarrow> start_checkpoint k name p d t txt s = (s', Inr (go, None)) \<Longrightarrow> sup_run s' F"
| checkpoint_opens: "sup_run s F \<Longrightarrow> start_checkpoint k name p d t txt s = (s', Inr (True, Some i)) \<Longrightarrow>
    sup_run s' (insert (k, i) F)"
| publish: "sup_run s F \<Longrightarrow> sup_run (fst (publish_runtime k we s)) F"
| checkpoint_closes: "sup_run s F \<Longrightarrow> (k, i) \<in> F \<Longrightarrow> sup_run (finish_checkpoint k (Some i) now s) (F - {(k, i)})"
| wait_entry: "sup_run s F \<Longrightarrow> sup_run (publish_wait_entry k now s) F"
| begin_wait: "sup_run s F \<Longrightarrow> sup_run (fst (begin_external_wait_locked k name lease defer now s)) F"
| renewal_entry: "sup_run s F \<Longrightarrow> sup_run (publish_renewal_entry k now s) F"
| renew: "sup_run s F \<Longrightarrow> sup_run (fst (renew_external_wait_locked k reason now s)) F"
| end_wait: "sup_run s F \<Longrightarrow> sup_run (end_external_wait k txt now s) F"
| exit: "sup_run s F \<Longrightarrow> sup_run (record_handler_exit k now s) F"
| signal: "sup_run s F \<Longrightarrow> sup_run (signal_handler_complete k s) F"
| finish: "sup_run s F \<Longrightarrow> sup_run (finish_attempt_locked k state now s) F"
| cancel: "sup_run s F \<Longrightarrow> sup_run (cancel_execution node job g ex reason now s) F"
| restarts: "sup_run s F \<Longrightarrow> sup_run (check_restarts rr lr now s) F"
| external_change: "sup_run s F \<Longrightarrow> sup_run (on_external_state_change s) F"
| persist: "sup_run s F \<Longrightarrow> sup_run (persist_expired we k s) F"
| heartbeat_on: "sup_run s F \<Longrightarrow> start_run_heartbeat run interval now s = Inr s' \<Longrightarrow> sup_run s' F"
| heartbeat_off: "sup_run s F \<Longrightarrow> sup_run (stop_run_heartbeat run s) F"
| round: "sup_run s F \<Longrightarrow> loop_round now s = Inr (s', outcome) \<Longrightarrow> sup_run s' F"

text \<open>An interval once configured stays configured, which is what an open checkpoint call relies on.\<close>

definition keeps_interval :: "supervisor \<Rightarrow> supervisor \<Rightarrow> bool" where
  "keeps_interval s s' \<longleftrightarrow> (\<forall>k. w_checkpoint_timeout (objects s k) \<noteq> None \<longrightarrow> w_checkpoint_timeout (objects s' k) \<noteq> None)"

lemma keeps_interval_refl [simp]: "keeps_interval s s"
  by (simp add: keeps_interval_def)

lemma keeps_interval_trans: "keeps_interval s s' \<Longrightarrow> keeps_interval s' s'' \<Longrightarrow> keeps_interval s s''"
  by (simp add: keeps_interval_def)

lemma keeps_interval_upd:
  "(\<And>w. w_checkpoint_timeout w \<noteq> None \<Longrightarrow> w_checkpoint_timeout (f w) \<noteq> None) \<Longrightarrow> objects s' = (objects s)(k := f (objects s k))
   \<Longrightarrow> keeps_interval s s'"
  by (simp add: keeps_interval_def)

lemma keeps_interval_same: "objects s' = objects s \<Longrightarrow> keeps_interval s s'"
  by (simp add: keeps_interval_def)

lemma arm_interval [simp]: "w_checkpoint_timeout (arm_deadlines txt now w) = w_checkpoint_timeout w"
  by (simp add: arm_deadlines_def Let_def split: option.split)

lemma keeps_interval_cancel: "keeps_interval s (cancel_execution node job g ex reason now s)"
proof -
  have "keeps_interval s (cancel_keys node job g ex reason ks s)" for ks
  proof (induction ks arbitrary: s)
    case (Cons k ks)
    show ?case unfolding cancel_keys.simps(2)
      by (rule keeps_interval_trans [OF _ Cons.IH]) (simp add: keeps_interval_def supersede_def)
  qed simp
  then show ?thesis by (simp add: cancel_execution_def keeps_interval_def)
qed

lemma keeps_interval_restarts: "keeps_interval s (check_restarts rr lr now s)"
proof -
  have "keeps_interval s' (foldl (\<lambda>s k. let w = objects s k in if lease_is_current leases w then s
        else cancel_execution (w_node_name w) (w_job_id w) (w_generation w) (w_execution_id w) ''was restarted'' now s) s' ks)"
    for leases s' ks
  proof (induction ks arbitrary: s')
    case (Cons k ks)
    show ?case unfolding foldl_Cons
      by (rule keeps_interval_trans [OF _ Cons.IH]) (simp add: Let_def keeps_interval_cancel)
  qed simp
  moreover have "keeps_interval (s\<lparr>restart_revision := r\<rparr>) s' = keeps_interval s s'" for r s'
    by (simp add: keeps_interval_def)
  ultimately show ?thesis
    by (simp add: check_restarts_def Let_def split: sum.split) (simp add: keeps_interval_def)
qed

lemma next_valid_frame:
  "next_valid_deadline s = (s', v) \<Longrightarrow> objects s' = objects s \<and> watches s' = watches s \<and>
     deadlines s' = dropWhile (stale_entry s) (deadlines s)"
  by (auto simp: next_valid_deadline_def Let_def)

lemma sup_inv_next_valid:
  assumes "sup_inv s" shows "sup_inv (fst (next_valid_deadline s))"
proof -
  have "pass_inv es s \<Longrightarrow> pass_inv (dropWhile (stale_entry s) es) s" for es
    by (induction es) (auto dest: pass_inv_skip)
  from this [of "deadlines s"] assms show ?thesis
    by (simp add: pass_inv_def next_valid_deadline_def Let_def)
qed

lemma round_frames:
  "objects (fst (beat now s)) = objects s" "watches (fst (beat now s)) = watches s" "deadlines (fst (beat now s)) = deadlines s"
  "objects (finalize_restart_event_subscription now s) = objects s"
  "watches (finalize_restart_event_subscription now s) = watches s"
  "deadlines (finalize_restart_event_subscription now s) = deadlines s"
  "objects (fst (restart_due now s)) = objects s" "watches (fst (restart_due now s)) = watches s"
  "deadlines (fst (restart_due now s)) = deadlines s"
  by (simp_all add: beat_def finalize_restart_event_subscription_def restart_due_def split: option.split)

text \<open>A round never fails; after its expiry pass only bookkeeping fields and stale entries change.\<close>

lemma loop_round_cases:
  assumes "sup_inv s"
  obtains s1 fired s4 where "expire_due now s = Inr (s1, fired)" "objects s4 = objects s1" "watches s4 = watches s1"
      "deadlines s4 = deadlines s1" "\<exists>beating check. loop_round now s = Inr (s4, LoopWork fired beating check)"
  | s1 s4 s5 v where "expire_due now s = Inr (s1, [])" "objects s4 = objects s1" "watches s4 = watches s1"
      "deadlines s4 = deadlines s1" "next_valid_deadline s4 = (s5, v)"
      "loop_round now s = Inr (case sleep_until s5 v of Some t \<Rightarrow> (s5, LoopWait (Some t))
         | None \<Rightarrow> if watches s5 \<noteq> [] then (s5, LoopWait None) else (s5\<lparr>thread_alive := False\<rparr>, LoopExit))"
proof -
  obtain s1 fired where e: "expire_due now s = Inr (s1, fired)"
    using expire_entries_spec [of "deadlines s" s now "[]"] assms by (auto simp: pass_inv_def expire_due_def)
  obtain s2 b where b: "beat now s1 = (s2, b)" by fastforce
  obtain s4 c where c: "restart_due now (finalize_restart_event_subscription now s2) = (s4, c)" by fastforce
  have f: "objects s4 = objects s1" "watches s4 = watches s1" "deadlines s4 = deadlines s1"
    using round_frames(1-3) [of now s1] round_frames(4-6) [of now s2]
      round_frames(7-9) [of now "finalize_restart_event_subscription now s2"] b c by simp_all
  show thesis
  proof (cases "fired \<noteq> [] \<or> b \<noteq> None \<or> c")
    case True
    then show thesis using that(1) [OF e f] e b c by (simp add: loop_round_def)
  next
    case False
    obtain s5 v where v: "next_valid_deadline s4 = (s5, v)" by fastforce
    have "loop_round now s = Inr (case sleep_until s5 v of Some t \<Rightarrow> (s5, LoopWait (Some t))
         | None \<Rightarrow> if watches s5 \<noteq> [] then (s5, LoopWait None) else (s5\<lparr>thread_alive := False\<rparr>, LoopExit))"
      using False e b c v by (simp add: loop_round_def split: option.split)
    with that(2) [OF _ f v] e False show thesis by simp
  qed
qed

lemma expire_due_spec:
  assumes "sup_inv s" and "expire_due now s = Inr (s1, fired)"
  shows "sup_inv s1 \<and> watches s1 = watches s \<and> (\<forall>e\<in>set (deadlines s1). now < fst e) \<and> distinct (map fst fired) \<and>
     (\<forall>f\<in>set fired. due now s f) \<and>
     (\<forall>k. objects s1 k = (case map_of fired k of None \<Rightarrow> objects s k
        | Some kind \<Rightarrow> expire_watch (objects s k) kind (case expiry_message (objects s k) kind of Inr m \<Rightarrow> m)))"
  using expire_entries_spec [of "deadlines s" s now "[]"] assms by (auto simp: pass_inv_def expire_due_def)

lemma sup_inv_same:
  "objects x = objects y \<Longrightarrow> watches x = watches y \<Longrightarrow> deadlines x = deadlines y \<Longrightarrow> sup_inv y \<Longrightarrow> sup_inv x"
  by (simp add: sup_inv_def)

lemma expire_due_interval:
  assumes "sup_inv s" and "expire_due now s = Inr (s1, fired)" shows "keeps_interval s s1"
  unfolding keeps_interval_def
  using expire_due_spec [OF assms] by (auto simp: expire_watch_def Let_def split: option.split)

lemma loop_round_inv:
  assumes "sup_inv s" and "loop_round now s = Inr (s', outcome)"
  shows "sup_inv s' \<and> keeps_interval s s'"
proof (cases rule: loop_round_cases [OF assms(1), of now, case_names work idle])
  case (work s1 fired s4)
  have s4: "s' = s4" using assms(2) work(5) by auto
  have "sup_inv s4" using sup_inv_same [OF work(2-4)] expire_due_spec [OF assms(1) work(1)] by blast
  moreover have "keeps_interval s s4"
    using expire_due_interval [OF assms(1) work(1)] keeps_interval_same [OF work(2)] by (rule keeps_interval_trans)
  ultimately show ?thesis unfolding s4 by blast
next
  case (idle s1 s4 s5 v)
  have s5: "objects s' = objects s5" "watches s' = watches s5" "deadlines s' = deadlines s5"
    using assms(2) idle(6) by (auto split: option.splits if_splits)
  have "sup_inv s4" using sup_inv_same [OF idle(2-4)] expire_due_spec [OF assms(1) idle(1)] by blast
  then have "sup_inv s5" using sup_inv_next_valid [of s4] idle(5) by simp
  then have "sup_inv s'" by (rule sup_inv_same [OF s5])
  moreover have "objects s' = objects s1" using next_valid_frame [OF idle(5)] idle(2) s5(1) by (simp only:)
  ultimately show ?thesis
    using keeps_interval_trans [OF expire_due_interval [OF assms(1) idle(1)] keeps_interval_same] by blast
qed

definition open_calls_ok :: "supervisor \<Rightarrow> (string \<times> seconds) set \<Rightarrow> bool" where
  "open_calls_ok s F \<longleftrightarrow> (\<forall>(k, i)\<in>F. w_checkpoint_timeout (objects s k) \<noteq> None)"

lemma open_calls_keep: "open_calls_ok s F \<Longrightarrow> keeps_interval s s' \<Longrightarrow> open_calls_ok s' F"
  by (auto simp: open_calls_ok_def keeps_interval_def)

lemma keeps_interval_start:
  assumes "start_checkpoint k name p d t txt s = (s', r)"
  shows "keeps_interval s s' \<and> (\<forall>i. r = Inr (True, Some i) \<longrightarrow> w_checkpoint_timeout (objects s' k) = Some i)"
proof -
  have "keeps_interval s s'" using assms unfolding start_checkpoint_def Let_def
    by (auto split: sum.splits option.splits if_splits simp: keeps_interval_def note_progress_def disarm_checkpoint_def)
  moreover have "w_checkpoint_timeout (objects s' k) = Some i" if r: "r = Inr (True, Some i)" for i
  proof -
    obtain x where x: "checkpoint_checks name p t (objects s k) = Inr x"
      using assms r by (cases "checkpoint_checks name p t (objects s k)") (auto simp: start_checkpoint_def)
    show ?thesis
    proof (cases "w_state (objects s k) = ''active''")
      case True
      then show ?thesis using assms r x
        by (cases x; cases "snd x") (auto simp: start_checkpoint_def Let_def disarm_checkpoint_def split: if_splits)
    next
      case False
      have "snd (start_checkpoint k name p d t txt s) \<noteq> Inr (True, Some i)"
        unfolding start_checkpoint_def Let_def x using False by (cases x) (simp split: sum.split)
      with r assms show ?thesis by (metis snd_conv)
    qed
  qed
  ultimately show ?thesis by blast
qed

lemmas interval_defs = prepare_handler_def arm_handler_def publish_runtime_def finish_checkpoint_def
  publish_wait_entry_def begin_external_wait_locked_def enter_wait_def publish_renewal_entry_def
  renew_external_wait_locked_def renew_wait_def end_external_wait_def leave_wait_def record_handler_exit_def
  signal_handler_complete_def finish_attempt_locked_def persist_expired_def

lemma keeps_interval_ops:
  "keeps_interval s (fst (prepare_handler k txt we s))" "keeps_interval s (fst (arm_handler k txt now s))"
  "keeps_interval s (fst (publish_runtime k we s))" "keeps_interval s (finish_checkpoint k eff now s)"
  "keeps_interval s (publish_wait_entry k now s)"
  "keeps_interval s (fst (begin_external_wait_locked k name lease defer now s))"
  "keeps_interval s (publish_renewal_entry k now s)"
  "keeps_interval s (fst (renew_external_wait_locked k reason now s))"
  "keeps_interval s (end_external_wait k txt now s)" "keeps_interval s (record_handler_exit k now s)"
  "keeps_interval s (signal_handler_complete k s)" "keeps_interval s (finish_attempt_locked k state now s)"
  "keeps_interval s (persist_expired we k s)"
  by (simp_all add: interval_defs keeps_interval_def Let_def split: option.split)

lemma sup_inv_persist: "sup_inv s \<Longrightarrow> sup_inv (persist_expired we k s)"
  unfolding persist_expired_def
  by (rule sup_inv_upd) (auto simp: sup_inv_def good_watch_def supervised_def armed_defs)

lemma keeps_interval_create:
  assumes "create_attempt k node job task a r g ex tt ct force txt now s = Inr s'" and "k' \<noteq> k"
  shows "objects s' k' = objects s k'"
  using assms by (auto simp: create_attempt_def res_bind_eq_Inr register_watch_def Let_def
      ensure_restart_event_subscription_def ensure_thread_def)

lemma sup_run_inv: "sup_run s F \<Longrightarrow> sup_inv s \<and> open_calls_ok s F"
proof (induction rule: sup_run.induct)
  case (start revision now)
  then show ?case by (simp add: sup_inv_new open_calls_ok_def)
next
  case (create s F k node job task a r g ex tt ct force stamp now s')
  then have "open_calls_ok s' F"
    using keeps_interval_create [OF create(4)] unfolding open_calls_ok_def by (force simp: image_iff)
  with create sup_inv_create show ?case by blast
next
  case (checkpoint_opens s F k name p d t stamp s' i)
  then have "sup_inv s'" using sup_inv_start_checkpoint [of s k name p d t stamp] by simp
  moreover have "open_calls_ok s' (insert (k, i) F)"
    using checkpoint_opens keeps_interval_start [OF checkpoint_opens(2)] open_calls_keep [of s F s']
    by (auto simp: open_calls_ok_def)
  ultimately show ?case by blast
next
  case (checkpoint_closes s F k i now)
  then have "w_checkpoint_timeout (objects s k) \<noteq> None" by (auto simp: open_calls_ok_def)
  moreover have "open_calls_ok (finish_checkpoint k (Some i) now s) F"
    using checkpoint_closes open_calls_keep keeps_interval_ops(4) by blast
  ultimately show ?case using checkpoint_closes sup_inv_finish_checkpoint by (auto simp: open_calls_ok_def)
next
  case (checkpoint_fails s F k name p d t stamp s' err)
  then show ?case using sup_inv_start_checkpoint [of s k name p d t stamp] keeps_interval_start [OF checkpoint_fails(2)]
      open_calls_keep by auto
next
  case (checkpoint_passes s F k name p d t stamp s' go)
  then show ?case using sup_inv_start_checkpoint [of s k name p d t stamp] keeps_interval_start [OF checkpoint_passes(2)]
      open_calls_keep by auto
next
  case (external_change s F)
  then show ?case by (simp add: on_external_state_change_def sup_inv_def open_calls_ok_def)
next
  case (heartbeat_on s F run interval now s')
  then have "objects s' = objects s \<and> watches s' = watches s \<and> deadlines s' = deadlines s"
    by (auto simp: start_run_heartbeat_def ensure_thread_def split: sum.splits option.splits)
  then show ?case using heartbeat_on by (simp add: sup_inv_def open_calls_ok_def)
next
  case (heartbeat_off s F run)
  have "objects (stop_run_heartbeat run s) = objects s \<and> watches (stop_run_heartbeat run s) = watches s \<and>
      deadlines (stop_run_heartbeat run s) = deadlines s"
    by (simp add: stop_run_heartbeat_def split: option.split)
  then show ?case using heartbeat_off by (simp add: sup_inv_def open_calls_ok_def)
next
  case (round s F now s' outcome)
  then show ?case using loop_round_inv open_calls_keep by blast
next
  case (cancel s F node job g ex reason now)
  then show ?case using sup_inv_cancel keeps_interval_cancel open_calls_keep by blast
next
  case (restarts s F rr lr now)
  then show ?case using sup_inv_check_restarts keeps_interval_restarts open_calls_keep by blast
next
  case prepare
  then show ?case using sup_inv_prepare open_calls_keep [OF _ keeps_interval_ops(1)] by blast
next
  case arm
  then show ?case using sup_inv_arm open_calls_keep [OF _ keeps_interval_ops(2)] by blast
next
  case publish
  then show ?case using sup_inv_publish_runtime open_calls_keep [OF _ keeps_interval_ops(3)] by blast
next
  case wait_entry
  then show ?case using sup_inv_publish_wait_entry open_calls_keep [OF _ keeps_interval_ops(5)] by blast
next
  case begin_wait
  then show ?case using sup_inv_begin_wait open_calls_keep [OF _ keeps_interval_ops(6)] by blast
next
  case renewal_entry
  then show ?case using sup_inv_publish_renewal open_calls_keep [OF _ keeps_interval_ops(7)] by blast
next
  case renew
  then show ?case using sup_inv_renew open_calls_keep [OF _ keeps_interval_ops(8)] by blast
next
  case end_wait
  then show ?case using sup_inv_end_wait open_calls_keep [OF _ keeps_interval_ops(9)] by blast
next
  case exit
  then show ?case using sup_inv_record_exit open_calls_keep [OF _ keeps_interval_ops(10)] by blast
next
  case signal
  then show ?case using sup_inv_signal open_calls_keep [OF _ keeps_interval_ops(11)] by blast
next
  case finish
  then show ?case using sup_inv_finish open_calls_keep [OF _ keeps_interval_ops(12)] by blast
next
  case persist
  then show ?case using sup_inv_persist open_calls_keep [OF _ keeps_interval_ops(13)] by blast
qed

section \<open>Properties\<close>

text \<open>What an active watch can still have overdue after a round at time \<open>now\<close>.\<close>

definition nothing_overdue :: "seconds \<Rightarrow> attempt_watch \<Rightarrow> bool" where
  "nothing_overdue now w \<longleftrightarrow> (\<forall>d. w_total_deadline w = Some d \<longrightarrow> now < d) \<and>
     (if w_external_wait_depth w > 0
      then \<forall>d. w_external_wait_deadline w = Some d \<longrightarrow> now < d \<or> (\<exists>t. w_external_renewal_entry w = Some (Some d, t))
      else \<forall>d. w_checkpoint_deadline w = Some d \<longrightarrow> now < d \<or>
        (\<exists>t. w_external_wait_entry w = Some (w_revision w, t)) \<or> (\<exists>t. w_handler_exit w = Some (w_revision w, t)))"

lemma armed_nothing_overdue:
  assumes "armed D k w" and "w_state w = ''active''" and "\<forall>e\<in>D. now < fst e"
  shows "nothing_overdue now w"
proof -
  have "total_armed D k w \<Longrightarrow> w_total_deadline w = Some d \<Longrightarrow> now < d" for d
    using assms(3) unfolding total_armed_def by force
  moreover have "external_armed D k w \<Longrightarrow> w_external_wait_deadline w = Some d \<Longrightarrow>
      now < d \<or> (\<exists>t. w_external_renewal_entry w = Some (Some d, t))" for d
    using assms(3) unfolding external_armed_def by force
  moreover have "checkpoint_armed D k w \<Longrightarrow> w_checkpoint_deadline w = Some d \<Longrightarrow> now < d \<or>
      (\<exists>t. w_external_wait_entry w = Some (w_revision w, t)) \<or> (\<exists>t. w_handler_exit w = Some (w_revision w, t))" for d
    using assms(3) unfolding checkpoint_armed_def by force
  ultimately show ?thesis using assms(1,2) by (auto simp: nothing_overdue_def armed_def)
qed

lemma loop_round_objects:
  assumes "sup_inv s" and "loop_round now s = Inr (s', outcome)"
  shows "\<exists>s1 fired. expire_due now s = Inr (s1, fired) \<and> objects s' = objects s1 \<and> watches s' = watches s1 \<and>
    (\<forall>f b c. outcome = LoopWork f b c \<longrightarrow> f = fired)"
proof (cases rule: loop_round_cases [OF assms(1), of now, case_names work idle])
  case (work s1 fired s4)
  obtain b c where "loop_round now s = Inr (s4, LoopWork fired b c)" using work(5) by blast
  then have "s' = s4" "outcome = LoopWork fired b c" using assms(2) by simp_all
  then show ?thesis by (intro exI [of _ s1] exI [of _ fired] conjI) (use work(1-3) in simp_all)
next
  case (idle s1 s4 s5 v)
  have s5: "objects s' = objects s5 \<and> watches s' = watches s5 \<and> (\<nexists>f b c. outcome = LoopWork f b c)"
    using assms(2) idle(6) by (auto split: option.splits if_splits)
  have "objects s5 = objects s1" "watches s5 = watches s1"
    using next_valid_frame [OF idle(5)] idle(2,3) by simp_all
  with s5 show ?thesis by (intro exI [of _ s1] exI [of _ "[]"] conjI) (use idle(1) in auto)
qed

lemma loop_round_returns:
  assumes "sup_inv s" obtains s' outcome where "loop_round now s = Inr (s', outcome)"
proof -
  have "\<exists>x. loop_round now s = Inr x"
    by (cases rule: loop_round_cases [OF assms, of now]) blast+
  then show thesis using that by force
qed


text \<open>A concrete run for the witnesses: one supervised attempt, its handler started at time 10.\<close>

definition demo_supervisor :: supervisor where
  "demo_supervisor = fst (arm_handler ''w'' ''t1'' 10
     (case create_attempt ''w'' ''n'' 1 ''main'' 1 1 0 (Some ''x'') (PyInt 60) (PyInt 5) True ''t0'' 9 (new_supervisor 0 8)
      of Inr s \<Rightarrow> s | Inl _ \<Rightarrow> new_supervisor 0 8))"

lemma demo_run: "sup_run demo_supervisor {}"
proof -
  let ?c = "create_attempt ''w'' ''n'' 1 ''main'' 1 1 0 (Some ''x'') (PyInt 60) (PyInt 5) True ''t0'' 9 (new_supervisor 0 8)"
  obtain s where s: "?c = Inr s" by (auto simp: create_attempt_def validate_timeout_def)
  have "sup_run s {}" by (rule sup_run.create [OF sup_run.start _ _ s]) (simp_all add: new_supervisor_def)
  moreover have "w_external_wait_depth (objects s ''w'') = 0"
  proof -
    have "(case ?c of Inr s \<Rightarrow> w_external_wait_depth (objects s ''w'') = 0 | Inl _ \<Rightarrow> False)" by code_simp
    then show ?thesis unfolding s by simp
  qed
  ultimately show ?thesis unfolding demo_supervisor_def s by (simp add: sup_run.arm)
qed


text \<open>
  C2. The watchdog times out only what is due, and does it completely. Every attempt it reports was a
  registered active watch whose own deadline of the reported kind had passed (up to the nanosecond of
  tolerance in the code); it is reported once, is left \<open>timed_out\<close> with its kind, a message and its
  cancellation event set, with the values observed at expiry frozen for publication; and the watch of every
  attempt it does not report is left exactly as it was.
\<close>

theorem watchdog_expires_only_due:
  assumes "sup_run s F" and "loop_round now s = Inr (s', LoopWork expired beating check)"
  shows "distinct (map fst expired) \<and>
     (\<forall>(k, kind)\<in>set expired. due now s (k, kind) \<and> timeout_error (objects s' k) \<noteq> None \<and>
        w_timeout_kind (objects s' k) = Some kind \<and> w_cancellation_set (objects s' k) \<and>
        (\<exists>w. w_timeout_observation (objects s' k) = Some w \<and>
           w_checkpoint_name w = w_checkpoint_name (objects s k) \<and> w_progress w = w_progress (objects s k) \<and>
           w_external_wait_attempt w = w_external_wait_attempt (objects s k))) \<and>
     (\<forall>k. k \<notin> fst ` set expired \<longrightarrow> objects s' k = objects s k)"
proof -
  have inv: "sup_inv s" using sup_run_inv [OF assms(1)] by blast
  obtain s1 where e: "expire_due now s = Inr (s1, expired)" "objects s' = objects s1"
    using loop_round_objects [OF inv assms(2)] by auto
  note spec = expire_due_spec [OF inv e(1)]
  have obj: "objects s' k = expire_watch (objects s k) kind (case expiry_message (objects s k) kind of Inr m \<Rightarrow> m)"
    if "(k, kind) \<in> set expired" for k kind
    using spec that unfolding e(2) by (simp add: map_of_is_SomeI)
  have same: "objects s' k = objects s k" if "k \<notin> fst ` set expired" for k
    using spec that unfolding e(2) by (simp add: map_of_eq_None_iff [THEN iffD2])
  show ?thesis
    using spec same by (auto simp: obj expire_watch_def timeout_error_def Let_def watch_fields.truncate_def)
qed

theorem watchdog_expires_only_due_witness:
  "case loop_round 15 demo_supervisor of
     Inr (s', LoopWork expired beating check) \<Rightarrow> expired = [(''w'', ''checkpoint'')] \<and> due 15 demo_supervisor (''w'', ''checkpoint'')
   | _ \<Rightarrow> False"
proof -
  have "(case loop_round 15 demo_supervisor of
     Inr (s', LoopWork expired beating check) \<Rightarrow> expired = [(''w'', ''checkpoint'')] | _ \<Rightarrow> False)" by code_simp
  then obtain s' beating check where
    r: "loop_round 15 demo_supervisor = Inr (s', LoopWork [(''w'', ''checkpoint'')] beating check)"
    by (auto split: sum.splits prod.splits loop_step.splits)
  from watchdog_expires_only_due [OF demo_run r] have "due 15 demo_supervisor (''w'', ''checkpoint'')" by simp
  then show ?thesis unfolding r by simp
qed

lemma min_deadline_le:
  "min_deadline a b = None \<longleftrightarrow> a = None \<and> b = None" "min_deadline (Some d) b = Some t \<Longrightarrow> t \<le> d"
  by (auto simp: min_deadline_def split: option.splits)

lemma sleep_until_le:
  "sleep_until s (Some d) \<noteq> None" "sleep_until s (Some d) = Some t \<Longrightarrow> t \<le> d"
proof -
  show "sleep_until s (Some d) \<noteq> None" by (simp add: sleep_until_def min_deadline_le(1))
  assume t: "sleep_until s (Some d) = Some t"
  obtain x where x: "min_deadline (Some d) (map_option hb_next_at (heartbeat s)) = Some x"
    using min_deadline_le(1) by (metis not_None_eq)
  obtain y where y: "min_deadline (Some x) (if restartable_keys s \<noteq> {} then Some (next_restart_fallback s) else None) = Some y"
    using min_deadline_le(1) by (metis not_None_eq)
  have "t \<le> y" using t unfolding sleep_until_def x y by (rule min_deadline_le(2))
  also have "y \<le> x" using y by (rule min_deadline_le(2))
  also have "x \<le> d" using x by (rule min_deadline_le(2))
  finally show "t \<le> d" .
qed



text \<open>
  Cancelling an execution supersedes exactly its live attempts: every registered watch of that node,
  job, generation and execution that is still active or waiting to be collected becomes \<open>superseded\<close> with the
  reason recorded and both its cancellation and wake events set; every other watch, also a finished or
  timed-out one of the same execution, is untouched.
\<close>

theorem cancel_execution_exact:
  "objects (cancel_execution node job generation execution reason now s) k =
     (if k \<in> set (watches s) \<and> owned_by node job generation execution (objects s k) \<and>
         w_state (objects s k) \<in> {''active'', ''handler_done''}
      then (objects s k)\<lparr>w_state := ''superseded'', w_cancel_message := Some reason, w_cancellation_set := True,
             w_revision := w_revision (objects s k) + 1, w_wake_set := True\<rparr>
      else objects s k)"
proof -
  have "objects (cancel_keys node job generation execution reason ks s) k =
     (if k \<in> set ks \<and> owned_by node job generation execution (objects s k) \<and>
         w_state (objects s k) \<in> {''active'', ''handler_done''} then supersede reason (objects s k) else objects s k)" for ks
  proof (induction ks arbitrary: s)
    case (Cons x xs)
    let ?hit = "\<lambda>s k. owned_by node job generation execution (objects s k) \<and> w_state (objects s k) \<in> {''active'', ''handler_done''}"
    show ?case
    proof (cases "?hit s x")
      case False
      then have "cancel_keys node job generation execution reason (x # xs) s = cancel_keys node job generation execution reason xs s"
        by auto
      then show ?thesis using Cons.IH [of s] False by auto
    next
      case True
      let ?s = "upd_watch x (supersede reason) (s\<lparr>restartable_keys := restartable_keys s - {x}\<rparr>)"
      have "cancel_keys node job generation execution reason (x # xs) s = cancel_keys node job generation execution reason xs ?s"
        using True by auto
      moreover have "\<not> ?hit ?s x" by (simp add: supersede_def)
      ultimately show ?thesis using Cons.IH [of ?s] True by (cases "k = x") auto
    qed
  qed simp
  from this [of "watches s"] show ?thesis
    unfolding cancel_execution_def stop_subscription_frame supersede_def .
qed

text \<open>
  C25. A heap rebuild bounds the heap without losing a deadline: after \<open>_compact_deadlines_locked\<close> the heap
  has at most \<open>max(256, 8 * watches)\<close> entries, and in every reachable state each registered active watch
  still has its total deadline armed.
\<close>

theorem compaction_bounded_and_lossless:
  assumes "sup_run s F" and "k \<in> set (watches s)" and "w_state (objects s k) = ''active''"
    and "w_total_deadline (objects s k) = Some d"
  shows "length (deadlines (compact_deadlines s)) \<le> max 256 (length (watches s) * 8) \<and>
     (\<exists>n. (d, n, k, ''total'', w_revision (objects s k)) \<in> set (deadlines (compact_deadlines s)))"
proof
  have kinds: "length (snd (rebuild_kinds k r ks acc)) \<le> length (snd acc) + length ks" for k r ks acc
    by (induction k r ks acc rule: rebuild_kinds.induct) auto
  have "length (snd (rebuild_deadlines obj ks acc)) \<le> length (snd acc) + 2 * length ks" for obj ks acc
  proof (induction obj ks acc rule: rebuild_deadlines.induct)
    case (2 obj k ks acc)
    then show ?case using kinds [of k "w_revision (obj k)" "kept_deadlines (obj k)" acc]
      by (auto simp: kept_deadlines_def split: if_splits)
  qed simp
  from this [of "objects s" "watches s" "(serial s, [])"]
  show "length (deadlines (compact_deadlines s)) \<le> max 256 (length (watches s) * 8)"
    by (auto simp: compact_deadlines_def split: prod.split)
  have "sup_inv (compact_deadlines s)" using sup_run_inv [OF assms(1)] sup_inv_compact by blast
  then have "armed (set (deadlines (compact_deadlines s))) k (objects s k)"
    using assms(2) by (simp add: sup_inv_def)
  then show "\<exists>n. (d, n, k, ''total'', w_revision (objects s k)) \<in> set (deadlines (compact_deadlines s))"
    using assms(3,4) unfolding armed_def total_armed_def by blast
qed

theorem compaction_bounded_and_lossless_witness:
  "\<exists>n. (70, n, ''w'', ''total'', w_revision (objects demo_supervisor ''w'')) \<in> set (deadlines (compact_deadlines demo_supervisor))"
proof -
  have "''w'' \<in> set (watches demo_supervisor)" "w_state (objects demo_supervisor ''w'') = ''active''"
    "w_total_deadline (objects demo_supervisor ''w'') = Some 70" by code_simp+
  from compaction_bounded_and_lossless [OF demo_run this] show ?thesis by (rule conjunct2)
qed

text \<open>
  C24. Completion against timeout and restart. For a supervised attempt \<open>signal_handler_complete\<close> turns only an
  active watch into \<open>handler_done\<close>, so a timeout or a restart that came first keeps its error; for an
  attempt without timeouts it overwrites the state unconditionally, and the error of a restart that came
  first is gone, while the cancellation event stays set. \<open>finish_attempt\<close> never overwrites either error.
\<close>

theorem completion_and_cancellation:
  "(supervised (objects s k) \<and> inactive_result (objects s k) = Inl e \<longrightarrow>
      inactive_result (objects (signal_handler_complete k s) k) = Inl e) \<and>
   (\<not> supervised (objects s k) \<longrightarrow>
      inactive_result (objects (signal_handler_complete k s) k) = Inr () \<and>
      w_cancellation_set (objects (signal_handler_complete k s) k) = w_cancellation_set (objects s k)) \<and>
   (inactive_result (objects s k) = Inl e \<longrightarrow>
      inactive_result (objects (finish_attempt_locked k state now s) k) = Inl e)"
  by (auto simp: inactive_result_def signal_handler_complete_def finish_attempt_locked_def timeout_error_def
      execution_cancel_error_def Let_def split: if_splits option.splits)

theorem completion_and_cancellation_witness:
  "inactive_result (objects (finish_attempt_locked ''w'' ''completed'' 12
     (cancel_execution ''n'' 1 0 (Some ''x'') ''restarted'' 11 demo_supervisor)) ''w'') = Inl (JobRestartedError ''restarted'')"
proof -
  let ?s = "cancel_execution ''n'' 1 0 (Some ''x'') ''restarted'' 11 demo_supervisor"
  have "inactive_result (objects ?s ''w'') = Inl (JobRestartedError ''restarted'')" by code_simp
  with completion_and_cancellation [of ?s "''w''" "JobRestartedError ''restarted''"] show ?thesis by blast
qed

end
