(* ===== verification/Node_Config.thy ===== *)
theory Node_Config
  imports Graph_Edges
begin

text \<open>
  Node configuration: \<open>JobNode\<close> and its validators (\<open>node.py\<close>), the router a node file declares
  (\<open>router.py\<close>) and the calls it makes when it is mounted. A handler is its name and signature. Proved:
  every way of configuring a node keeps the registry of fallbacks consistent and the inferred parameters
  coherent, sequential nodes get one thread, and mounted initial jobs get contiguous identifiers.
\<close>

section \<open>Validators\<close>

definition validate_interrupt :: "pynum \<Rightarrow> bool res" where
  "validate_interrupt value = (case value of PyBool b \<Rightarrow> Inr b | _ \<Rightarrow> Inl (ValueError ''interrupt must be a Boolean''))"

definition validate_non_negative_int :: "pynum \<Rightarrow> int res" where
  "validate_non_negative_int value = (case value of
     PyInt i \<Rightarrow> if i < 0 then Inl (ValueError ''must be an integer >= 0'') else Inr i
   | _ \<Rightarrow> Inl (ValueError ''must be an integer >= 0''))"

definition validate_positive_int :: "pynum \<Rightarrow> int res" where
  "validate_positive_int value = (case value of
     PyInt i \<Rightarrow> if i < 1 then Inl (ValueError ''must be an integer >= 1'') else Inr i
   | _ \<Rightarrow> Inl (ValueError ''must be an integer >= 1''))"

text \<open>
  \<open>value <= 0\<close> is false for the positive infinity and for NaN, so both pass; \<open>float(value)\<close> of a finite
  number is that number.
\<close>

definition validate_positive_float :: "pynum \<Rightarrow> pynum res" where
  "validate_positive_float value = (case value of
     PyNone \<Rightarrow> Inr PyNone
   | PyInt i \<Rightarrow> if i \<le> 0 then Inl (ValueError ''must be a positive number or None'') else Inr (PyFloat (of_int i))
   | PyFloat x \<Rightarrow> if x \<le> 0 then Inl (ValueError ''must be a positive number or None'') else Inr (PyFloat x)
   | PyPosInf \<Rightarrow> Inr PyPosInf
   | PyNan \<Rightarrow> Inr PyNan
   | _ \<Rightarrow> Inl (ValueError ''must be a positive number or None''))"

fun collect_names :: "member list \<Rightarrow> string list \<Rightarrow> string list res" where
  "collect_names [] result = Inr result"
| "collect_names (MOther # ms) result = Inl (ValueError ''wait_for entries must be non-empty node names'')"
| "collect_names (MStr s # ms) result =
     (if py_strip s = [] then Inl (ValueError ''wait_for entries must be non-empty node names'')
      else collect_names ms (if py_strip s \<in> set result then result else result @ [py_strip s]))"

definition normalize_wait_for :: "node_group option \<Rightarrow> string list option res" where
  "normalize_wait_for value = (case value of
     None \<Rightarrow> Inr None
   | Some (GStr s) \<Rightarrow> res_bind (collect_names [MStr s] []) (\<lambda>r. Inr (Some r))
   | Some (GColl ms) \<Rightarrow> res_bind (collect_names ms []) (\<lambda>r. Inr (Some r))
   | Some GOther \<Rightarrow> Inl (ValueError ''wait_for must be a node name, an iterable of node names, or None''))"

definition runner_choices :: "string list" where
  "runner_choices = [''direct'', ''threaded'', ''api'', ''process'']"

definition runner_aliases :: "(string \<times> string) list" where
  "runner_aliases = [(''thread'', ''threaded''), (''io'', ''api''), (''network'', ''api''),
     (''processes'', ''process''), (''process_pool'', ''process''), (''processpool'', ''process'')]"

definition validate_node_runner :: "string option \<Rightarrow> string option res" where
  "validate_node_runner runner = (case runner of
     None \<Rightarrow> Inr None
   | Some r \<Rightarrow> let r' = (case dict_get runner_aliases r of None \<Rightarrow> r | Some a \<Rightarrow> a) in
       if r' \<in> set runner_choices then Inr (Some r') else Inl (ValueError ''runner must be one of''))"

definition sequential_runner_value :: "string option \<Rightarrow> bool \<Rightarrow> string option res" where
  "sequential_runner_value runner sequential =
     res_bind (validate_node_runner runner) (\<lambda>r.
       if sequential then
         if r \<noteq> None \<and> r \<noteq> Some ''direct''
         then Inl (ValueError ''sequential=True cannot be combined with a concurrent runner'')
         else Inr (Some ''direct'')
       else Inr r)"

section \<open>Handlers and mounted tasks\<close>

datatype param_kind = Ordinary | VarPositional | VarKeyword

record param =
  p_name :: string
  p_kind :: param_kind
  p_default :: bool

record handler =
  h_name :: string
  h_params :: "param list"

record mounted_task =
  t_name :: string
  t_handler :: handler
  t_allowed :: "string set"
  t_required :: "string set"
  t_retries :: int
  t_repeats :: int
  t_timeout :: pynum
  t_checkpoint_timeout :: pynum

fun infer_rest :: "param list \<Rightarrow> string set \<times> string set \<Rightarrow> (string set \<times> string set) res" where
  "infer_rest [] acc = Inr acc"
| "infer_rest (p # ps) (allowed, required) =
     (if p_kind p \<in> {VarPositional, VarKeyword} then Inl (ValueError ''cannot use *args or **kwargs'')
      else if p_name p = ''ctx'' then Inl (ValueError ''can only use ctx as the first parameter'')
      else infer_rest ps (insert (p_name p) allowed,
        if \<not> p_default p \<and> p_name p \<noteq> ''errors'' then insert (p_name p) required else required))"

definition infer_params :: "handler \<Rightarrow> (string set \<times> string set) res" where
  "infer_params h = (case h_params h of
     [] \<Rightarrow> Inl (ValueError ''must take ctx as its first parameter'')
   | p # ps \<Rightarrow>
       if p_name p \<noteq> ''ctx'' then Inl (ValueError ''must take ctx as its first parameter'')
       else if p_kind p \<in> {VarPositional, VarKeyword} then Inl (ValueError ''cannot use *args or **kwargs'')
       else infer_rest ps ({}, {}))"

text \<open>The checks and the construction shared by \<open>mount_main\<close> and \<open>mount_fallback\<close>.\<close>

definition make_task :: "string \<Rightarrow> handler \<Rightarrow> pynum \<Rightarrow> pynum \<Rightarrow> pynum \<Rightarrow> pynum \<Rightarrow> mounted_task res" where
  "make_task name h retries repeats timeout checkpoint_timeout =
     res_bind (validate_non_negative_int retries) (\<lambda>r.
     res_bind (validate_positive_int repeats) (\<lambda>n.
     res_bind (validate_positive_float timeout) (\<lambda>t.
     res_bind (validate_positive_float checkpoint_timeout) (\<lambda>c.
     res_bind (infer_params h) (\<lambda>(allowed, required).
       Inr \<lparr>t_name = name, t_handler = h, t_allowed = allowed, t_required = required, t_retries = r, t_repeats = n,
            t_timeout = t, t_checkpoint_timeout = c\<rparr>)))))"

section \<open>Nodes\<close>

record job_node =
  n_name :: string
  n_max_threads :: int
  n_runner_override :: "string option"
  n_waiting :: bool
  n_wait_for :: "string list option"
  n_interrupt :: bool
  n_main_task :: "mounted_task option"
  n_fallbacks :: "(string \<times> mounted_task) list"
  n_fallback_order :: "string list"

definition new_job_node :: "string \<Rightarrow> pynum \<Rightarrow> string option \<Rightarrow> bool \<Rightarrow> node_group option \<Rightarrow> pynum \<Rightarrow> job_node res" where
  "new_job_node name max_threads runner waiting wait_for interrupt =
     res_bind (validate_positive_int max_threads) (\<lambda>m.
     res_bind (validate_node_runner runner) (\<lambda>r.
     res_bind (normalize_wait_for wait_for) (\<lambda>w.
     res_bind (validate_interrupt interrupt) (\<lambda>i.
       Inr \<lparr>n_name = name, n_max_threads = m, n_runner_override = r, n_waiting = (waiting \<or> wait_for \<noteq> None),
            n_wait_for = w, n_interrupt = i, n_main_task = None, n_fallbacks = [], n_fallback_order = []\<rparr>))))"

definition configure_waiting :: "bool \<Rightarrow> node_group option \<Rightarrow> job_node \<Rightarrow> job_node res" where
  "configure_waiting waiting wait_for n =
     res_bind (normalize_wait_for wait_for) (\<lambda>w.
       Inr (n\<lparr>n_waiting := (waiting \<or> wait_for \<noteq> None), n_wait_for := w\<rparr>))"

definition declare_interrupt :: "pynum \<Rightarrow> job_node \<Rightarrow> job_node res" where
  "declare_interrupt interrupt n =
     res_bind (validate_interrupt interrupt) (\<lambda>i. Inr (n\<lparr>n_interrupt := (n_interrupt n \<or> i)\<rparr>))"

definition node_sequential :: "job_node \<Rightarrow> bool" where
  "node_sequential n \<longleftrightarrow> n_runner_override n = Some ''direct''"

definition set_runner :: "string option \<Rightarrow> bool \<Rightarrow> job_node \<Rightarrow> job_node res" where
  "set_runner runner sequential n =
     res_bind (sequential_runner_value runner sequential) (\<lambda>override.
       let n1 = (case override of None \<Rightarrow> n | Some r \<Rightarrow> n\<lparr>n_runner_override := Some r\<rparr>) in
       Inr (if n_runner_override n1 = Some ''direct'' then n1\<lparr>n_max_threads := 1\<rparr> else n1))"

definition mount_main :: "handler \<Rightarrow> pynum \<Rightarrow> pynum \<Rightarrow> pynum \<Rightarrow> pynum \<Rightarrow> job_node \<Rightarrow> job_node res" where
  "mount_main h retries repeats timeout checkpoint_timeout n =
     res_bind (make_task (h_name h) h retries repeats timeout checkpoint_timeout) (\<lambda>t.
       Inr (n\<lparr>n_main_task := Some t\<rparr>))"

definition fallback_name_of :: "string option \<Rightarrow> handler \<Rightarrow> string" where
  "fallback_name_of name h = (case name of None \<Rightarrow> h_name h | Some s \<Rightarrow> if s = [] then h_name h else s)"

definition mount_fallback :: "handler \<Rightarrow> string option \<Rightarrow> pynum \<Rightarrow> pynum \<Rightarrow> pynum \<Rightarrow> pynum \<Rightarrow> job_node \<Rightarrow> job_node res" where
  "mount_fallback h name retries repeats timeout checkpoint_timeout n =
     (let fallback_name = fallback_name_of name h in
      res_bind (make_task fallback_name h retries repeats timeout checkpoint_timeout) (\<lambda>t.
        Inr (n\<lparr>n_fallbacks := dict_set (n_fallbacks n) fallback_name t,
          n_fallback_order := (if fallback_name \<in> set (n_fallback_order n) then n_fallback_order n
            else n_fallback_order n @ [fallback_name])\<rparr>)))"

definition validate_params :: "string set \<Rightarrow> job_node \<Rightarrow> unit res" where
  "validate_params params n = (case n_main_task n of
     None \<Rightarrow> Inl (ValueError ''Node has no mounted task'')
   | Some t \<Rightarrow>
       if params - t_allowed t \<noteq> {} then Inl (ValueError ''Invalid params for node'')
       else if t_required t - params \<noteq> {} then Inl (ValueError ''Missing params for node'')
       else Inr ())"

section \<open>Routers\<close>

record router_task =
  r_handler :: handler
  r_retries :: int
  r_repeats :: int
  r_name :: "string option"
  r_timeout :: pynum
  r_checkpoint_timeout :: pynum

record 'p router_job_spec =
  j_number :: int
  j_params :: 'p

record 'p node_router =
  nr_name :: string
  nr_max_threads :: int
  nr_timeout :: pynum
  nr_checkpoint_timeout :: pynum
  nr_waiting :: bool
  nr_wait_for :: "string list option"
  nr_interrupt :: bool
  nr_runner_override :: "string option"
  nr_main_task :: "router_task option"
  nr_fallbacks :: "router_task list"
  nr_initial_jobs :: "'p router_job_spec list"

definition one_if_direct :: "'p node_router \<Rightarrow> 'p node_router" where
  "one_if_direct r = (if nr_runner_override r = Some ''direct'' then r\<lparr>nr_max_threads := 1\<rparr> else r)"

definition new_router :: "string \<Rightarrow> pynum \<Rightarrow> string option \<Rightarrow> bool \<Rightarrow> pynum \<Rightarrow> pynum \<Rightarrow> bool \<Rightarrow> node_group option \<Rightarrow>
    pynum \<Rightarrow> 'p node_router res" where
  "new_router name max_threads runner sequential timeout checkpoint_timeout waiting wait_for interrupt =
     res_bind (validate_positive_int max_threads) (\<lambda>m.
     res_bind (validate_positive_float timeout) (\<lambda>t.
     res_bind (validate_positive_float checkpoint_timeout) (\<lambda>c.
     res_bind (normalize_wait_for wait_for) (\<lambda>w.
     res_bind (validate_interrupt interrupt) (\<lambda>i.
     res_bind (sequential_runner_value runner sequential) (\<lambda>r.
       Inr (one_if_direct \<lparr>nr_name = name, nr_max_threads = m, nr_timeout = t, nr_checkpoint_timeout = c,
         nr_waiting = (waiting \<or> wait_for \<noteq> None), nr_wait_for = w, nr_interrupt = i, nr_runner_override = r,
         nr_main_task = None, nr_fallbacks = [], nr_initial_jobs = []\<rparr>)))))))"

definition wait_for_nodes :: "member list \<Rightarrow> 'p node_router \<Rightarrow> 'p node_router res" where
  "wait_for_nodes names r =
     res_bind (normalize_wait_for (Some (GColl names))) (\<lambda>w. Inr (r\<lparr>nr_waiting := True, nr_wait_for := w\<rparr>))"

definition wait_for_component :: "'p node_router \<Rightarrow> 'p node_router" where
  "wait_for_component r = r\<lparr>nr_waiting := True, nr_wait_for := None\<rparr>"

definition run_sequentially :: "'p node_router \<Rightarrow> 'p node_router" where
  "run_sequentially r = r\<lparr>nr_runner_override := Some ''direct'', nr_max_threads := 1\<rparr>"

definition use_runner :: "string \<Rightarrow> 'p node_router \<Rightarrow> 'p node_router res" where
  "use_runner runner r =
     res_bind (validate_node_runner (Some runner)) (\<lambda>v. Inr (one_if_direct (r\<lparr>nr_runner_override := v\<rparr>)))"

definition create_job :: "pynum \<Rightarrow> 'p \<Rightarrow> 'p node_router \<Rightarrow> 'p node_router res" where
  "create_job number params r =
     res_bind (validate_positive_int number) (\<lambda>n.
       Inr (r\<lparr>nr_initial_jobs := nr_initial_jobs r @ [\<lparr>j_number = n, j_params = params\<rparr>]\<rparr>))"

text \<open>A decorator argument of \<open>None\<close> keeps the router's own timeout.\<close>

definition effective_timeout :: "pynum \<Rightarrow> pynum \<Rightarrow> pynum res" where
  "effective_timeout own value = (if value = PyNone then Inr own else validate_positive_float value)"

definition router_task_decl :: "handler \<Rightarrow> pynum \<Rightarrow> pynum \<Rightarrow> pynum option \<Rightarrow> string option \<Rightarrow> bool \<Rightarrow> pynum \<Rightarrow> pynum \<Rightarrow>
    'p node_router \<Rightarrow> 'p node_router res" where
  "router_task_decl h retries repeats max_threads runner sequential timeout checkpoint_timeout r =
     res_bind (validate_non_negative_int retries) (\<lambda>re.
     res_bind (validate_positive_int repeats) (\<lambda>n.
     res_bind (effective_timeout (nr_timeout r) timeout) (\<lambda>t.
     res_bind (effective_timeout (nr_checkpoint_timeout r) checkpoint_timeout) (\<lambda>c.
     res_bind (case max_threads of None \<Rightarrow> Inr (nr_max_threads r) | Some m \<Rightarrow> validate_positive_int m) (\<lambda>m.
     res_bind (sequential_runner_value runner sequential) (\<lambda>override.
       let r1 = r\<lparr>nr_max_threads := m\<rparr>;
           r2 = (case override of None \<Rightarrow> r1 | Some o' \<Rightarrow> r1\<lparr>nr_runner_override := Some o'\<rparr>);
           r3 = one_if_direct r2 in
       Inr (r3\<lparr>nr_main_task := Some \<lparr>r_handler = h, r_retries = re, r_repeats = n, r_name = None, r_timeout = t,
              r_checkpoint_timeout = c\<rparr>\<rparr>)))))))"

definition router_fallback_decl :: "handler \<Rightarrow> string option \<Rightarrow> pynum \<Rightarrow> pynum \<Rightarrow> pynum \<Rightarrow> pynum \<Rightarrow>
    'p node_router \<Rightarrow> 'p node_router res" where
  "router_fallback_decl h name retries repeats timeout checkpoint_timeout r =
     res_bind (validate_non_negative_int retries) (\<lambda>re.
     res_bind (validate_positive_int repeats) (\<lambda>n.
     res_bind (effective_timeout (nr_timeout r) timeout) (\<lambda>t.
     res_bind (effective_timeout (nr_checkpoint_timeout r) checkpoint_timeout) (\<lambda>c.
       Inr (r\<lparr>nr_fallbacks := nr_fallbacks r @ [\<lparr>r_handler = h, r_retries = re, r_repeats = n,
         r_name = Some (fallback_name_of name h), r_timeout = t, r_checkpoint_timeout = c\<rparr>]\<rparr>)))))"

text \<open>The job creations of \<open>mount_to\<close>: number of jobs, parameters and first identifier.\<close>

fun initial_job_calls :: "'p router_job_spec list \<Rightarrow> int \<Rightarrow> (int \<times> 'p \<times> int) list" where
  "initial_job_calls [] next_job_id = []"
| "initial_job_calls (spec # specs) next_job_id =
     (j_number spec, j_params spec, next_job_id) # initial_job_calls specs (next_job_id + j_number spec)"

text \<open>
  Mounting onto a node: \<open>workflow.task\<close> sets the thread count, runner, waiting and interrupt of the node and
  mounts the main task; then each fallback in order.
\<close>

fun mount_fallbacks :: "router_task list \<Rightarrow> job_node \<Rightarrow> job_node res" where
  "mount_fallbacks [] n = Inr n"
| "mount_fallbacks (f # fs) n =
     res_bind (mount_fallback (r_handler f) (r_name f) (PyInt (r_retries f)) (PyInt (r_repeats f)) (r_timeout f)
       (r_checkpoint_timeout f) n) (mount_fallbacks fs)"

definition wait_group :: "string list option \<Rightarrow> node_group option" where
  "wait_group w = map_option (\<lambda>names. GColl (map MStr names)) w"

definition ensure_node :: "'p node_router \<Rightarrow> int \<Rightarrow> job_node option \<Rightarrow> job_node res" where
  "ensure_node r threads node =
     (let waiting = (nr_waiting r \<or> nr_wait_for r \<noteq> None) in
      case node of
        None \<Rightarrow> new_job_node (nr_name r) (PyInt threads) (nr_runner_override r) waiting (wait_group (nr_wait_for r))
          (PyBool (nr_interrupt r))
      | Some n \<Rightarrow>
          res_bind (if nr_runner_override r = None then Inr n else set_runner (nr_runner_override r) False n) (\<lambda>n1.
          res_bind (configure_waiting waiting (wait_group (nr_wait_for r)) n1) (\<lambda>n2.
            declare_interrupt (PyBool (nr_interrupt r)) n2)))"

definition register_task :: "'p node_router \<Rightarrow> router_task \<Rightarrow> job_node option \<Rightarrow> job_node res" where
  "register_task r t node =
     res_bind (validate_positive_int (PyInt (nr_max_threads r))) (\<lambda>checked.
     let threads = (if nr_runner_override r = Some ''direct'' then 1 else checked) in
     res_bind (ensure_node r threads node) (\<lambda>n.
     res_bind (if nr_runner_override r = None then Inr (n\<lparr>n_max_threads := threads\<rparr>)
               else set_runner (nr_runner_override r) False (n\<lparr>n_max_threads := threads\<rparr>)) (\<lambda>n3.
       mount_main (r_handler t) (PyInt (r_retries t)) (PyInt (r_repeats t)) (r_timeout t) (r_checkpoint_timeout t) n3)))"

definition mount_to :: "'p node_router \<Rightarrow> job_node option \<Rightarrow> (job_node \<times> (int \<times> 'p \<times> int) list) res" where
  "mount_to r node = (case nr_main_task r of
     None \<Rightarrow> Inl (ValueError ''NodeRouter has no task'')
   | Some t \<Rightarrow> res_bind (register_task r t node) (\<lambda>n. res_bind (mount_fallbacks (nr_fallbacks r) n) (\<lambda>n'.
       Inr (n', initial_job_calls (nr_initial_jobs r) 1))))"

section \<open>Invariants\<close>

lemma collect_names_ok:
  assumes "collect_names ms acc = Inr names" and "distinct acc" and "\<forall>s\<in>set acc. s \<noteq> []"
  shows "distinct names \<and> (\<forall>s\<in>set names. s \<noteq> []) \<and>
    set names = set acc \<union> {py_strip s |s. MStr s \<in> set ms}"
  using assms
proof (induction ms acc rule: collect_names.induct)
  case (3 s ms result)
  let ?acc = "if py_strip s \<in> set result then result else result @ [py_strip s]"
  have ne: "py_strip s \<noteq> []" using "3.prems"(1) by (auto split: if_splits)
  have "distinct names \<and> (\<forall>s\<in>set names. s \<noteq> []) \<and> set names = set ?acc \<union> {py_strip s |s. MStr s \<in> set ms}"
  proof (rule 3(1) [OF ne])
    show "collect_names ms ?acc = Inr names" using "3.prems"(1) ne by simp
    show "distinct ?acc" using "3.prems"(2) by simp
    show "\<forall>s\<in>set ?acc. s \<noteq> []" using "3.prems"(3) ne by simp
  qed
  moreover have "{py_strip s' |s'. MStr s' \<in> set (MStr s # ms)} = insert (py_strip s) {py_strip s |s. MStr s \<in> set ms}"
    unfolding list.set insert_iff member.inject by blast
  moreover have "set ?acc \<union> X = set result \<union> insert (py_strip s) X" for X by simp blast
  ultimately show ?case by (elim conjE) (intro conjI, assumption, assumption, simp only:)
qed simp_all

definition wait_for_ok :: "string list option \<Rightarrow> bool" where
  "wait_for_ok w \<longleftrightarrow> (case w of None \<Rightarrow> True | Some names \<Rightarrow> distinct names \<and> (\<forall>s\<in>set names. s \<noteq> []))"

lemma normalize_wait_for_ok: "normalize_wait_for v = Inr w \<Longrightarrow> wait_for_ok w"
  using collect_names_ok [of _ "[]"]
  by (auto simp: normalize_wait_for_def wait_for_ok_def res_bind_eq_Inr split: option.splits node_group.splits
      simp del: collect_names.simps)

definition task_ok :: "mounted_task \<Rightarrow> bool" where
  "task_ok t \<longleftrightarrow> 0 \<le> t_retries t \<and> 1 \<le> t_repeats t \<and> t_required t \<subseteq> t_allowed t \<and> ''ctx'' \<notin> t_allowed t \<and>
     ''errors'' \<notin> t_required t"

definition node_ok :: "job_node \<Rightarrow> bool" where
  "node_ok n \<longleftrightarrow> 1 \<le> n_max_threads n \<and> n_fallback_order n = dict_keys (n_fallbacks n) \<and>
     distinct (n_fallback_order n) \<and> wait_for_ok (n_wait_for n) \<and>
     (\<forall>t. n_main_task n = Some t \<longrightarrow> task_ok t) \<and> (\<forall>x\<in>set (n_fallbacks n). task_ok (snd x))"

lemma infer_rest_exact:
  "infer_rest ps (allowed, required) = Inr (a, r) \<longleftrightarrow>
     (\<forall>p\<in>set ps. p_kind p = Ordinary \<and> p_name p \<noteq> ''ctx'') \<and> a = allowed \<union> p_name ` set ps \<and>
     r = required \<union> p_name ` {p \<in> set ps. \<not> p_default p \<and> p_name p \<noteq> ''errors''}"
proof (induction ps arbitrary: allowed required)
  case (Cons p ps)
  let ?req = "if \<not> p_default p \<and> p_name p \<noteq> ''errors'' then insert (p_name p) required else required"
  have kind: "p_kind p \<in> {VarPositional, VarKeyword} \<longleftrightarrow> p_kind p \<noteq> Ordinary" by (cases "p_kind p") auto
  show ?case
  proof (cases "p_kind p = Ordinary \<and> p_name p \<noteq> ''ctx''")
    case True
    have run: "infer_rest (p # ps) (allowed, required) = infer_rest ps (insert (p_name p) allowed, ?req)"
      using True by simp
    have sets: "insert (p_name p) allowed \<union> p_name ` set ps = allowed \<union> p_name ` set (p # ps)"
      "?req \<union> p_name ` {p \<in> set ps. \<not> p_default p \<and> p_name p \<noteq> ''errors''} =
         required \<union> p_name ` {q \<in> set (p # ps). \<not> p_default q \<and> p_name q \<noteq> ''errors''}" by auto
    show ?thesis unfolding run Cons.IH sets using True by simp
  next
    case False
    then show ?thesis using kind by auto
  qed
qed auto

lemma infer_params_exact:
  "infer_params h = Inr (a, r) \<longleftrightarrow> (\<exists>p ps. h_params h = p # ps \<and> p_name p = ''ctx'' \<and> p_kind p = Ordinary \<and>
     (\<forall>p\<in>set ps. p_kind p = Ordinary \<and> p_name p \<noteq> ''ctx'') \<and> a = p_name ` set ps \<and>
     r = p_name ` {p \<in> set ps. \<not> p_default p \<and> p_name p \<noteq> ''errors''})"
proof (cases "h_params h")
  case (Cons p ps)
  have "p_kind p \<in> {VarPositional, VarKeyword} \<longleftrightarrow> p_kind p \<noteq> Ordinary" by (cases "p_kind p") auto
  then show ?thesis using Cons by (auto simp: infer_params_def infer_rest_exact)
qed (simp add: infer_params_def)

lemma infer_params_ok:
  assumes "infer_params h = Inr (a, r)" shows "r \<subseteq> a \<and> ''ctx'' \<notin> a \<and> ''errors'' \<notin> r"
proof -
  obtain ps :: "param list" where ps: "\<forall>p\<in>set ps. p_kind p = Ordinary \<and> p_name p \<noteq> ''ctx''" "a = p_name ` set ps"
    "r = p_name ` {p \<in> set ps. \<not> p_default p \<and> p_name p \<noteq> ''errors''}"
    using assms unfolding infer_params_exact by blast
  have "''ctx'' \<notin> a" unfolding ps(2) using ps(1) by (metis imageE)
  moreover have "''errors'' \<notin> r" unfolding ps(3) by force
  ultimately show ?thesis unfolding ps(2,3) by blast
qed

lemma validate_int_ok:
  "validate_non_negative_int v = Inr i \<Longrightarrow> 0 \<le> i" "validate_positive_int v = Inr i \<Longrightarrow> 1 \<le> i"
  by (auto simp: validate_non_negative_int_def validate_positive_int_def split: pynum.splits if_splits)

lemma make_task_ok:
  assumes "make_task name h re n t c = Inr task" shows "task_ok task \<and> t_name task = name"
proof -
  obtain r' n' t' c' a q where "validate_non_negative_int re = Inr r'" "validate_positive_int n = Inr n'"
    "infer_params h = Inr (a, q)" "task = \<lparr>t_name = name, t_handler = h, t_allowed = a, t_required = q, t_retries = r',
       t_repeats = n', t_timeout = t', t_checkpoint_timeout = c'\<rparr>"
    using assms by (auto simp: make_task_def res_bind_eq_Inr)
  then show ?thesis using infer_params_ok validate_int_ok by (simp add: task_ok_def)
qed

lemma node_ok_new: "new_job_node name m r w wfor i = Inr n \<Longrightarrow> node_ok n"
  by (auto simp: new_job_node_def res_bind_eq_Inr node_ok_def dict_keys_def normalize_wait_for_ok
      validate_positive_int_def split: pynum.splits if_splits)

lemma node_ok_configure: "node_ok n \<Longrightarrow> configure_waiting w wfor n = Inr n' \<Longrightarrow> node_ok n'"
  by (auto simp: configure_waiting_def res_bind_eq_Inr node_ok_def normalize_wait_for_ok)

lemma node_ok_interrupt: "node_ok n \<Longrightarrow> declare_interrupt i n = Inr n' \<Longrightarrow> node_ok n'"
  by (auto simp: declare_interrupt_def res_bind_eq_Inr node_ok_def)

lemma set_runner_facts:
  assumes "set_runner r b n = Inr n'"
  shows "node_ok n \<Longrightarrow> node_ok n'" and "node_sequential n' \<Longrightarrow> n_max_threads n' = 1"
    and "n_main_task n' = n_main_task n"
proof -
  obtain override where o: "n' = (let n1 = (case override of None \<Rightarrow> n | Some r \<Rightarrow> n\<lparr>n_runner_override := Some r\<rparr>) in
       if n_runner_override n1 = Some ''direct'' then n1\<lparr>n_max_threads := 1\<rparr> else n1)"
    using assms by (auto simp: set_runner_def res_bind_eq_Inr Let_def)
  define n1 where "n1 = (case override of None \<Rightarrow> n | Some r \<Rightarrow> n\<lparr>n_runner_override := Some r\<rparr>)"
  have n1: "n_main_task n1 = n_main_task n" "node_ok n1 = node_ok n"
    by (simp_all add: n1_def node_ok_def split: option.split)
  have n': "n' = (if n_runner_override n1 = Some ''direct'' then n1\<lparr>n_max_threads := 1\<rparr> else n1)"
    unfolding o Let_def n1_def ..
  have "node_ok (n1\<lparr>n_max_threads := 1\<rparr>)" if "node_ok n1" using that by (auto simp: node_ok_def)
  then show "node_ok n \<Longrightarrow> node_ok n'" using n1(2) unfolding n' by simp
  show "node_sequential n' \<Longrightarrow> n_max_threads n' = 1"
    unfolding n' node_sequential_def by (cases "n_runner_override n1 = Some ''direct''") simp_all
  show "n_main_task n' = n_main_task n" using n1(1) unfolding n' by simp
qed

lemma node_ok_mount_main: "node_ok n \<Longrightarrow> mount_main h re rp t c n = Inr n' \<Longrightarrow> node_ok n' \<and> n_main_task n' \<noteq> None"
  using make_task_ok by (auto simp: mount_main_def res_bind_eq_Inr node_ok_def)

lemma set_dict_set: "set (dict_set d k v) \<subseteq> insert (k, v) (set d)"
  by (induction d k v rule: dict_set.induct) auto

lemma node_ok_mount_fallback:
  assumes "node_ok n" and "mount_fallback h name re rp t c n = Inr n'"
  shows "node_ok n' \<and> n_main_task n' = n_main_task n"
proof -
  obtain task where t: "make_task (fallback_name_of name h) h re rp t c = Inr task"
    and n': "n' = n\<lparr>n_fallbacks := dict_set (n_fallbacks n) (fallback_name_of name h) task,
          n_fallback_order := (if fallback_name_of name h \<in> set (n_fallback_order n) then n_fallback_order n
            else n_fallback_order n @ [fallback_name_of name h])\<rparr>"
    using assms(2) by (auto simp: mount_fallback_def Let_def res_bind_eq_Inr)
  have "task_ok task" using make_task_ok [OF t] by blast
  then have "\<forall>x\<in>set (n_fallbacks n'). task_ok (snd x)"
    using assms(1) set_dict_set [of "n_fallbacks n" "fallback_name_of name h" task]
    unfolding n' node_ok_def by auto
  then show ?thesis using assms(1) unfolding n' node_ok_def by (auto simp: dict_keys_set)
qed

lemma node_ok_mount_fallbacks:
  "node_ok n \<Longrightarrow> mount_fallbacks fs n = Inr n' \<Longrightarrow> node_ok n' \<and> n_main_task n' = n_main_task n"
proof (induction fs arbitrary: n)
  case (Cons f fs)
  then obtain m where m: "mount_fallback (r_handler f) (r_name f) (PyInt (r_retries f)) (PyInt (r_repeats f)) (r_timeout f)
       (r_checkpoint_timeout f) n = Inr m" "mount_fallbacks fs m = Inr n'" by (auto simp: res_bind_eq_Inr)
  show ?case using Cons.IH [OF _ m(2)] node_ok_mount_fallback [OF Cons.prems(1) m(1)] by simp
qed simp

section \<open>Properties\<close>

lemma node_ok_runner_step:
  assumes "(if runner = None then Inr n else set_runner runner False n) = Inr n'" and "node_ok n"
  shows "node_ok n'"
proof (cases "runner = None")
  case True
  with assms show ?thesis by simp
next
  case False
  with assms(1) have "set_runner runner False n = Inr n'" by simp
  from set_runner_facts(1) [OF this assms(2)] show ?thesis .
qed

lemma ensure_node_ok:
  assumes "ensure_node r threads node = Inr n" and "\<forall>n0. node = Some n0 \<longrightarrow> node_ok n0"
  shows "node_ok n"
proof (cases node)
  case None
  with assms(1) show ?thesis unfolding ensure_node_def Let_def by (simp add: node_ok_new)
next
  case (Some n0)
  obtain n1 n2 where s: "(if nr_runner_override r = None then Inr n0 else set_runner (nr_runner_override r) False n0) = Inr n1"
    "configure_waiting (nr_waiting r \<or> nr_wait_for r \<noteq> None) (wait_group (nr_wait_for r)) n1 = Inr n2"
    "declare_interrupt (PyBool (nr_interrupt r)) n2 = Inr n"
    using assms(1) unfolding Some ensure_node_def Let_def option.case res_bind_eq_Inr by blast
  have "node_ok n0" using assms(2) Some by blast
  then show ?thesis using node_ok_runner_step [OF s(1)] node_ok_configure [OF _ s(2)] node_ok_interrupt [OF _ s(3)] by blast
qed

lemma register_task_ok:
  assumes "register_task r t node = Inr n" and "\<forall>n0. node = Some n0 \<longrightarrow> node_ok n0"
  shows "node_ok n \<and> n_main_task n \<noteq> None"
proof -
  obtain checked m n3 where s: "validate_positive_int (PyInt (nr_max_threads r)) = Inr checked"
    "ensure_node r (if nr_runner_override r = Some ''direct'' then 1 else checked) node = Inr m"
    "(if nr_runner_override r = None
      then Inr (m\<lparr>n_max_threads := if nr_runner_override r = Some ''direct'' then 1 else checked\<rparr>)
      else set_runner (nr_runner_override r) False
        (m\<lparr>n_max_threads := if nr_runner_override r = Some ''direct'' then 1 else checked\<rparr>)) = Inr n3"
    "mount_main (r_handler t) (PyInt (r_retries t)) (PyInt (r_repeats t)) (r_timeout t) (r_checkpoint_timeout t) n3 = Inr n"
    using assms(1) unfolding register_task_def Let_def res_bind_eq_Inr by blast
  have "node_ok (m\<lparr>n_max_threads := if nr_runner_override r = Some ''direct'' then 1 else checked\<rparr>)"
    using ensure_node_ok [OF s(2) assms(2)] validate_int_ok(2) [OF s(1)] by (auto simp: node_ok_def)
  from node_ok_runner_step [OF s(3) this] s(4) show ?thesis by (rule node_ok_mount_main)
qed

text \<open>
  C28. Mounting a router leaves a consistent node: its thread limit is at least one; the list of fallbacks names
  exactly the registered fallbacks, each once, so looking one up during execution cannot fail; the main task
  and every fallback have a non-negative retry count, at least one repetition, and parameter sets in which the
  required names are among the allowed ones and neither contains the reserved context argument.
\<close>

theorem mount_to_node_ok:
  assumes "mount_to r node = Inr (n, jobs)" and "\<forall>n0. node = Some n0 \<longrightarrow> node_ok n0"
  shows "node_ok n \<and> n_main_task n \<noteq> None \<and>
    (\<forall>name\<in>set (n_fallback_order n). \<exists>t. dict_get (n_fallbacks n) name = Some t \<and> task_ok t)"
proof -
  obtain t n1 where t: "register_task r t node = Inr n1" "mount_fallbacks (nr_fallbacks r) n1 = Inr n"
    using assms(1) by (auto simp: mount_to_def res_bind_eq_Inr split: option.splits)
  have ok: "node_ok n" "n_main_task n \<noteq> None"
    using register_task_ok [OF t(1) assms(2)] node_ok_mount_fallbacks [OF _ t(2)] by auto
  have "\<exists>t. dict_get (n_fallbacks n) name = Some t \<and> task_ok t" if "name \<in> set (n_fallback_order n)" for name
  proof -
    have "name \<in> set (dict_keys (n_fallbacks n))" using ok(1) that by (simp add: node_ok_def)
    then obtain t where t: "dict_get (n_fallbacks n) name = Some t" by (metis dict_get_None_iff not_None_eq)
    then have "(name, t) \<in> set (n_fallbacks n)" unfolding dict_get_def by (rule map_of_SomeD)
    then show ?thesis using ok(1) t by (force simp: node_ok_def)
  qed
  with ok show ?thesis by blast
qed

definition demo_handler :: "string \<Rightarrow> handler" where
  "demo_handler name = \<lparr>h_name = name, h_params = [\<lparr>p_name = ''ctx'', p_kind = Ordinary, p_default = False\<rparr>,
     \<lparr>p_name = ''item'', p_kind = Ordinary, p_default = False\<rparr>, \<lparr>p_name = ''error'', p_kind = Ordinary, p_default = True\<rparr>]\<rparr>"

definition demo_router :: "string node_router" where
  "demo_router = \<lparr>nr_name = ''n'', nr_max_threads = 1, nr_timeout = PyFloat 60, nr_checkpoint_timeout = PyNone,
     nr_waiting = False, nr_wait_for = None, nr_interrupt = False, nr_runner_override = Some ''direct'',
     nr_main_task = Some \<lparr>r_handler = demo_handler ''main'', r_retries = 2, r_repeats = 1, r_name = None,
       r_timeout = PyFloat 60, r_checkpoint_timeout = PyNone\<rparr>,
     nr_fallbacks = [\<lparr>r_handler = demo_handler ''plain'', r_retries = 0, r_repeats = 1, r_name = Some ''plain'',
       r_timeout = PyFloat 60, r_checkpoint_timeout = PyNone\<rparr>],
     nr_initial_jobs = [\<lparr>j_number = 2, j_params = ''x''\<rparr>, \<lparr>j_number = 3, j_params = ''y''\<rparr>]\<rparr>"

theorem mount_to_node_ok_witness:
  "case mount_to demo_router None of Inr (n, jobs) \<Rightarrow> node_ok n \<and> n_fallback_order n = [''plain''] | Inl _ \<Rightarrow> False"
proof -
  have "(case mount_to demo_router None of Inr (n, jobs) \<Rightarrow> n_fallback_order n = [''plain''] | Inl _ \<Rightarrow> False)" by code_simp
  then obtain n jobs where n: "mount_to demo_router None = Inr (n, jobs)" "n_fallback_order n = [''plain'']"
    by (auto split: sum.splits prod.splits)
  from mount_to_node_ok [OF n(1)] n show ?thesis by simp
qed

text \<open>Routers that a node file can build: a constructor call followed by successful declarations.\<close>

inductive router_built :: "'p node_router \<Rightarrow> bool" where
  built: "new_router name m runner sq t c w wfor i = Inr r \<Longrightarrow> router_built r"
| waits: "router_built r \<Longrightarrow> wait_for_nodes names r = Inr r' \<Longrightarrow> router_built r'"
| waits_component: "router_built r \<Longrightarrow> router_built (wait_for_component r)"
| sequentially: "router_built r \<Longrightarrow> router_built (run_sequentially r)"
| runner: "router_built r \<Longrightarrow> use_runner name r = Inr r' \<Longrightarrow> router_built r'"
| job: "router_built r \<Longrightarrow> create_job number params r = Inr r' \<Longrightarrow> router_built r'"
| main: "router_built r \<Longrightarrow> router_task_decl h re rp mt runner sq t c r = Inr r' \<Longrightarrow> router_built r'"
| fallback: "router_built r \<Longrightarrow> router_fallback_decl h name re rp t c r = Inr r' \<Longrightarrow> router_built r'"

definition router_ok :: "'p node_router \<Rightarrow> bool" where
  "router_ok r \<longleftrightarrow> 1 \<le> nr_max_threads r \<and> (nr_runner_override r = Some ''direct'' \<longrightarrow> nr_max_threads r = 1) \<and>
     (\<forall>spec\<in>set (nr_initial_jobs r). 1 \<le> j_number spec)"

lemma router_ok_one_if_direct:
  "1 \<le> nr_max_threads r \<Longrightarrow> \<forall>spec\<in>set (nr_initial_jobs r). 1 \<le> j_number spec \<Longrightarrow> router_ok (one_if_direct r)"
  by (auto simp: router_ok_def one_if_direct_def)

lemma router_built_ok: "router_built r \<Longrightarrow> router_ok r"
proof (induction rule: router_built.induct)
  case (built name m runner sq t c w wfor i r)
  then show ?case using validate_int_ok(2) by (auto simp: new_router_def res_bind_eq_Inr intro!: router_ok_one_if_direct)
next
  case (runner r name r')
  then show ?case by (auto simp: use_runner_def res_bind_eq_Inr router_ok_def intro!: router_ok_one_if_direct [unfolded router_ok_def])
next
  case (main r h re rp mt runner sq t c r')
  obtain m override x where s: "(case mt of None \<Rightarrow> Inr (nr_max_threads r) | Some m \<Rightarrow> validate_positive_int m) = Inr m"
    "r' = one_if_direct (case override of None \<Rightarrow> r\<lparr>nr_max_threads := m\<rparr>
       | Some o' \<Rightarrow> r\<lparr>nr_max_threads := m, nr_runner_override := Some o'\<rparr>)\<lparr>nr_main_task := x\<rparr>"
    using main(2) unfolding router_task_decl_def Let_def res_bind_eq_Inr by (elim exE conjE) auto
  have "1 \<le> m" using s(1) main(3) validate_int_ok(2) by (cases mt) (auto simp: router_ok_def)
  then have "router_ok (one_if_direct (case override of None \<Rightarrow> r\<lparr>nr_max_threads := m\<rparr>
       | Some o' \<Rightarrow> r\<lparr>nr_max_threads := m, nr_runner_override := Some o'\<rparr>))"
    using main(3) by (intro router_ok_one_if_direct) (auto simp: router_ok_def split: option.split)
  then show ?case unfolding s(2) by (simp add: router_ok_def)
next
  case (job r number params r')
  then show ?case using validate_int_ok(2) by (auto simp: router_ok_def create_job_def res_bind_eq_Inr)
qed (auto simp: router_ok_def wait_for_nodes_def wait_for_component_def run_sequentially_def
       router_fallback_decl_def res_bind_eq_Inr)

definition call_ids :: "int \<times> 'p \<times> int \<Rightarrow> int list" where
  "call_ids = (\<lambda>(number, params, start). [start..start + number - 1])"

lemma upto_append: "(a::int) \<le> b + 1 \<Longrightarrow> b \<le> c \<Longrightarrow> [a..b] @ [b + 1..c] = [a..c]"
  by (cases "a \<le> b") (simp_all add: upto_split2 [of a b c] le_less)

lemma initial_job_calls_ids:
  assumes "\<forall>spec\<in>set specs. 1 \<le> j_number spec"
  shows "concat (map call_ids (initial_job_calls specs start)) = [start..start + sum_list (map j_number specs) - 1]"
  using assms
proof (induction specs start rule: initial_job_calls.induct)
  case (2 spec specs start)
  have "0 \<le> sum_list (map j_number specs)" using 2(2) by (intro sum_list_nonneg) auto
  then show ?case using 2 upto_append [of start "start + j_number spec - 1" "start + j_number spec + sum_list (map j_number specs) - 1"]
    by (auto simp: call_ids_def algebra_simps)
qed simp


lemma demo_router_built: "router_built demo_router"
proof -
  define r0 where "r0 = (\<lparr>nr_name = ''n'', nr_max_threads = 4, nr_timeout = PyFloat 60, nr_checkpoint_timeout = PyNone,
     nr_waiting = False, nr_wait_for = None, nr_interrupt = False, nr_runner_override = None, nr_main_task = None,
     nr_fallbacks = [], nr_initial_jobs = []\<rparr> :: string node_router)"
  have "router_built r0"
    by (rule router_built.built [of "''n''" "PyInt 4" None False "PyInt 60" PyNone False None "PyBool False"])
      (simp add: r0_def new_router_def validate_positive_int_def validate_positive_float_def normalize_wait_for_def
        validate_interrupt_def sequential_runner_value_def validate_node_runner_def one_if_direct_def)
  define r1 where "r1 = (\<lparr>nr_name = ''n'', nr_max_threads = 1, nr_timeout = PyFloat 60, nr_checkpoint_timeout = PyNone,
     nr_waiting = False, nr_wait_for = None, nr_interrupt = False, nr_runner_override = Some ''direct'',
     nr_main_task = Some \<lparr>r_handler = demo_handler ''main'', r_retries = 2, r_repeats = 1, r_name = None,
       r_timeout = PyFloat 60, r_checkpoint_timeout = PyNone\<rparr>, nr_fallbacks = [], nr_initial_jobs = []\<rparr> :: string node_router)"
  have "router_built r1"
    by (rule router_built.main [OF \<open>router_built r0\<close>, of "demo_handler ''main''" "PyInt 2" "PyInt 1" None None True PyNone PyNone])
      (simp add: r0_def r1_def router_task_decl_def validate_positive_int_def validate_non_negative_int_def
        effective_timeout_def sequential_runner_value_def validate_node_runner_def one_if_direct_def Let_def)
  define r2 where "r2 = r1\<lparr>nr_fallbacks := [\<lparr>r_handler = demo_handler ''plain'', r_retries = 0, r_repeats = 1,
     r_name = Some ''plain'', r_timeout = PyFloat 60, r_checkpoint_timeout = PyNone\<rparr>]\<rparr>"
  have "router_built r2"
    by (rule router_built.fallback [OF \<open>router_built r1\<close>, of "demo_handler ''plain''" None "PyInt 0" "PyInt 1" PyNone PyNone])
      (simp add: r2_def r1_def router_fallback_decl_def validate_positive_int_def validate_non_negative_int_def
        effective_timeout_def fallback_name_of_def demo_handler_def)
  define r3 where "r3 = r2\<lparr>nr_initial_jobs := [\<lparr>j_number = 2, j_params = ''x''\<rparr>]\<rparr>"
  have "router_built r3"
    by (rule router_built.job [OF \<open>router_built r2\<close>, of "PyInt 2" "''x''"])
      (simp add: r3_def r2_def r1_def create_job_def validate_positive_int_def)
  show ?thesis
    by (rule router_built.job [OF \<open>router_built r3\<close>, of "PyInt 3" "''y''"])
      (simp add: demo_router_def r3_def r2_def r1_def create_job_def validate_positive_int_def)
qed


text \<open>
  C30. Inference of a handler's parameters: a handler is accepted exactly when its first parameter is an
  ordinary \<open>ctx\<close>, every other parameter is ordinary and none of them is called \<open>ctx\<close> again; then the allowed
  names are all the others and the required ones those without default, except \<open>errors\<close>, which the executor
  always supplies.
\<close>

theorem infer_params_correct:
  "(\<exists>a r. infer_params h = Inr (a, r)) = (\<exists>p ps. h_params h = p # ps \<and> p_name p = ''ctx'' \<and> p_kind p = Ordinary \<and>
      (\<forall>q\<in>set ps. p_kind q = Ordinary \<and> p_name q \<noteq> ''ctx'')) \<and>
   (infer_params h = Inr (a, r) \<longrightarrow> a = p_name ` set (tl (h_params h)) \<and>
      r = p_name ` {q \<in> set (tl (h_params h)). \<not> p_default q \<and> p_name q \<noteq> ''errors''})"
proof
  show "(\<exists>a r. infer_params h = Inr (a, r)) = (\<exists>p ps. h_params h = p # ps \<and> p_name p = ''ctx'' \<and> p_kind p = Ordinary \<and>
      (\<forall>q\<in>set ps. p_kind q = Ordinary \<and> p_name q \<noteq> ''ctx''))"
    unfolding infer_params_exact by blast
  show "infer_params h = Inr (a, r) \<longrightarrow> a = p_name ` set (tl (h_params h)) \<and>
      r = p_name ` {q \<in> set (tl (h_params h)). \<not> p_default q \<and> p_name q \<noteq> ''errors''}"
    unfolding infer_params_exact by (intro impI, elim exE conjE) simp
qed

theorem infer_params_correct_witness:
  "infer_params (demo_handler ''main'') = Inr ({''item'', ''error''}, {''item''}) \<and>
   {''item'', ''error''} = p_name ` set (tl (h_params (demo_handler ''main'')))"
proof -
  have eval: "infer_params (demo_handler ''main'') = Inr ({''item'', ''error''}, {''item''})" by code_simp
  with infer_params_correct [of "demo_handler ''main''" "{''item'', ''error''}" "{''item''}"] show ?thesis by blast
qed

end
