(* ===== verification/Task_Execution.thy ===== *)
theory Task_Execution
  imports Supervisor Node_Config
begin

text \<open>
  Execution of one job (\<open>workflow/task_execution.py\<close>, \<open>workflow/job_lifecycle.py\<close>): the outcome of one
  supervised handler call, repeats, retries, fallbacks, and the loop over restarted generations. What user
  code does is an argument: the outcome of the n-th handler call; so are the answers of the lease checks. The
  writes of events and debug lines succeed and are kept as a log.
\<close>

section \<open>The outcome of one handler call\<close>

text \<open>
  \<open>_invoke_handler_with_timeout\<close>: what the controller raises or returns, and the state it finishes the
  attempt with, from the watch as it finds it. First the handler thread, then the fiber.
\<close>

definition resolve_thread :: "attempt_watch \<Rightarrow> 'v res \<Rightarrow> string \<times> 'v res" where
  "resolve_thread w outcome =
     (case execution_cancel_error w of
        Some e \<Rightarrow> (''superseded'', Inl e)
      | None \<Rightarrow> (case timeout_error w of
          Some e \<Rightarrow> (''timed_out'', Inl e)
        | None \<Rightarrow> (case outcome of Inl e \<Rightarrow> (''failed'', Inl e) | Inr v \<Rightarrow> (''completed'', Inr v))))"

definition is_permit_error :: "exn \<Rightarrow> bool" where
  "is_permit_error e = (case e of ApiPermitStateError _ \<Rightarrow> True | _ \<Rightarrow> False)"

definition resolve_fiber :: "attempt_watch \<Rightarrow> 'v res \<Rightarrow> string \<times> 'v res" where
  "resolve_fiber w outcome =
     (case outcome of
        Inr v \<Rightarrow> (''completed'', Inr v)
      | Inl e \<Rightarrow>
          if is_permit_error e then (''failed'', Inl e)
          else (case execution_cancel_error w of
              Some r \<Rightarrow> (''superseded'', Inl r)
            | None \<Rightarrow> (case timeout_error w of Some t \<Rightarrow> (''timed_out'', Inl t) | None \<Rightarrow> (''failed'', Inl e))))"

section \<open>Repeats and retries\<close>

datatype exec_event =
    TaskStarted string string int int "exn option"
  | TaskFailed string string int int exn
  | RetryStarted string int int exn
  | FallbackStarted string exn

record invocation =
  i_task :: string
  i_role :: string
  i_attempt :: int
  i_repeat :: int
  i_error :: "exn option"
  i_errors :: "exn list"

record exec =
  x_events :: "exec_event list"
  x_history :: "exn list"
  x_calls :: "invocation list"
  x_checks :: nat

record 'v exec_env =
  e_outcome :: "nat \<Rightarrow> 'v res"
  e_current :: "nat \<Rightarrow> bool"
  e_owned :: bool

datatype 'v task_value = NoValue | One 'v | Many "'v list"

definition log_event :: "exec_event \<Rightarrow> exec \<Rightarrow> exec" where
  "log_event ev s = s\<lparr>x_events := x_events s @ [ev]\<rparr>"

definition check_job_execution :: "'v exec_env \<Rightarrow> exec \<Rightarrow> exec \<times> unit res" where
  "check_job_execution env s =
     (if \<not> e_owned env then (s, Inr ())
      else (s\<lparr>x_checks := x_checks s + 1\<rparr>,
        if e_current env (x_checks s) then Inr () else Inl (JobRestartedError ''was restarted'')))"

text \<open>The keyword arguments of a call: the job's own, and the failures where the handler takes them.\<close>

definition invocation_params :: "mounted_task \<Rightarrow> string set \<Rightarrow> string set" where
  "invocation_params t params = (params \<inter> t_allowed t) \<union>
     (if ''error'' \<in> t_allowed t then {''error''} else {}) \<union> (if ''errors'' \<in> t_allowed t then {''errors''} else {})"

definition missing_params :: "mounted_task \<Rightarrow> string set \<Rightarrow> string set" where
  "missing_params t params = t_required t - invocation_params t params"

fun run_repeats :: "'v exec_env \<Rightarrow> mounted_task \<Rightarrow> string set \<Rightarrow> string \<Rightarrow> bool \<Rightarrow> int \<Rightarrow> exn option \<Rightarrow> int list \<Rightarrow> exec \<Rightarrow>
    exec \<times> ((int \<times> exn) + 'v list)" where
  "run_repeats env t params role pre attempt prev [] s = (s, Inr [])"
| "run_repeats env t params role pre attempt prev (i # is) s =
     (if missing_params t params \<noteq> {} then (s, Inl (i, InvalidJobError ''Missing params''))
      else let s1 = (if pre \<and> role = ''main'' \<and> attempt = 1 \<and> i = 1 then s
                     else log_event (TaskStarted (t_name t) role attempt i prev) s) in
        case res_bind (validate_timeout (t_timeout t)) (\<lambda>_. validate_timeout (t_checkpoint_timeout t)) of
          Inl e \<Rightarrow> (s1, Inl (i, e))
        | Inr _ \<Rightarrow>
            let s2 = s1\<lparr>x_calls := x_calls s1 @ [\<lparr>i_task = t_name t, i_role = role, i_attempt = attempt, i_repeat = i,
                  i_error = prev, i_errors = x_history s1\<rparr>]\<rparr> in
            case e_outcome env (length (x_calls s1)) of
              Inl e \<Rightarrow> (s2, Inl (i, e))
            | Inr v \<Rightarrow> (case run_repeats env t params role pre attempt prev is s2 of
                (s3, Inl ie) \<Rightarrow> (s3, Inl ie)
              | (s3, Inr vs) \<Rightarrow> (s3, Inr (v # vs))))"

text \<open>Errors that leave the retry and fallback machinery at once.\<close>

definition aborts :: "exn \<Rightarrow> bool" where
  "aborts e = (case e of ApiPermitStateError _ \<Rightarrow> True | JobRestartedError _ \<Rightarrow> True | BaseExn _ \<Rightarrow> True | _ \<Rightarrow> False)"

definition pack_results :: "'v list \<Rightarrow> 'v task_value" where
  "pack_results vs = (case vs of [v] \<Rightarrow> One v | _ \<Rightarrow> Many vs)"

fun run_attempts :: "'v exec_env \<Rightarrow> mounted_task \<Rightarrow> string set \<Rightarrow> string \<Rightarrow> bool \<Rightarrow> int \<Rightarrow> int list \<Rightarrow> exn option \<Rightarrow> exec \<Rightarrow>
    exec \<times> 'v task_value res" where
  "run_attempts env t params role pre attempts [] prev s = (s, Inr NoValue)"
| "run_attempts env t params role pre attempts (a # as) prev s =
     (case run_repeats env t params role pre a prev [1..t_repeats t] s of
        (s1, Inr vs) \<Rightarrow> (s1, Inr (pack_results vs))
      | (s1, Inl (i, e)) \<Rightarrow>
          if aborts e then (s1, Inl e)
          else let s2 = (log_event (TaskFailed (t_name t) role a i e) s1)\<lparr>x_history := x_history s1 @ [e]\<rparr> in
            if a < attempts then
              (case check_job_execution env s2 of
                 (s3, Inl e') \<Rightarrow> (s3, Inl e')
               | (s3, Inr _) \<Rightarrow> run_attempts env t params role pre attempts as (Some e)
                   (log_event (RetryStarted (t_name t) (a + 1) attempts e) s3))
            else (s2, Inl e))"

definition execute_mounted_task :: "'v exec_env \<Rightarrow> mounted_task \<Rightarrow> string set \<Rightarrow> string \<Rightarrow> bool \<Rightarrow> exn option \<Rightarrow> exec \<Rightarrow>
    exec \<times> 'v task_value res" where
  "execute_mounted_task env t params role pre prev s =
     run_attempts env t params role pre (t_retries t + 1) [1..t_retries t + 1] prev s"

section \<open>Fallbacks\<close>

fun run_fallbacks :: "'v exec_env \<Rightarrow> job_node \<Rightarrow> string set \<Rightarrow> exn \<Rightarrow> string list \<Rightarrow> exn \<Rightarrow> exec \<Rightarrow>
    exec \<times> 'v task_value res" where
  "run_fallbacks env n params main_error [] terminal s = (s, Inl terminal)"
| "run_fallbacks env n params main_error (name # names) terminal s =
     (case dict_get (n_fallbacks n) name of
        None \<Rightarrow> (s, Inl (KeyError name))
      | Some t \<Rightarrow>
          if x_history s = [] then (s, Inl (RuntimeError ''list index out of range''))
          else case execute_mounted_task env t params ''fallback'' False (Some (last (x_history s)))
              (log_event (FallbackStarted name main_error) s) of
            (s1, Inr v) \<Rightarrow> (s1, Inr v)
          | (s1, Inl e) \<Rightarrow> if aborts e then (s1, Inl e)
              else (case check_job_execution env s1 of
                  (s2, Inl e') \<Rightarrow> (s2, Inl e')
                | (s2, Inr _) \<Rightarrow> run_fallbacks env n params main_error names e s2))"

definition execute_with_fallbacks :: "'v exec_env \<Rightarrow> job_node \<Rightarrow> string set \<Rightarrow> bool \<Rightarrow> exec \<Rightarrow> exec \<times> 'v task_value res" where
  "execute_with_fallbacks env n params pre s =
     (case n_main_task n of
        None \<Rightarrow> (s, Inl (RuntimeError ''AssertionError''))
      | Some t \<Rightarrow> (case execute_mounted_task env t params ''main'' pre None s of
          (s1, Inr v) \<Rightarrow> (s1, Inr v)
        | (s1, Inl e) \<Rightarrow> if aborts e then (s1, Inl e)
            else (case check_job_execution env s1 of
                (s2, Inl e') \<Rightarrow> (s2, Inl e')
              | (s2, Inr _) \<Rightarrow> run_fallbacks env n params e (n_fallback_order n) e s2)))"

definition fresh_exec :: exec where
  "fresh_exec = \<lparr>x_events = [], x_history = [], x_calls = [], x_checks = 0\<rparr>"

section \<open>Restarted generations\<close>

text \<open>
  \<open>_run_job\<close>: one pass of its loop per claimed generation. A pass is described by what storage and the
  executor answer: the claim, the executor's result, and the outcome of publishing it (writing the output
  under the execution guard and finalizing). \<open>Published\<close> records the status the pass finalized.
\<close>

record 'v job_pass =
  claim :: "(int \<times> string) res"
  executed :: "'v task_value res"
  published :: "unit res"

datatype 'v job_result = JobReturned "'v task_value" | JobRaised exn

text \<open>The terminal status a pass writes, if its publication succeeded.\<close>

definition pass_status :: "'v job_pass \<Rightarrow> (int \<times> string) option" where
  "pass_status p = (case (claim p, published p) of
     (Inr (generation, _), Inr _) \<Rightarrow> Some (generation, case executed p of Inr _ \<Rightarrow> ''done'' | Inl _ \<Rightarrow> ''failed'')
   | _ \<Rightarrow> None)"

text \<open>The fuel bounds the number of generations; \<open>None\<close> is running out of it.\<close>

fun run_job_loop :: "nat \<Rightarrow> (nat \<Rightarrow> 'v job_pass) \<Rightarrow> nat \<Rightarrow> (int \<times> string) list \<Rightarrow> ((int \<times> string) list \<times> 'v job_result) option" where
  "run_job_loop 0 passes k finals = None"
| "run_job_loop (Suc fuel) passes k finals = (let p = passes k in
     case claim p of
       Inl e \<Rightarrow> Some (finals, JobRaised e)
     | Inr (generation, execution) \<Rightarrow> (case executed p of
         Inl (ApiPermitStateError m) \<Rightarrow> Some (finals, JobRaised (ApiPermitStateError m))
       | Inl (JobRestartedError m) \<Rightarrow> run_job_loop fuel passes (k + 1) finals
       | r \<Rightarrow> (case published p of
           Inl (JobRestartedError m) \<Rightarrow> run_job_loop fuel passes (k + 1) finals
         | Inl e \<Rightarrow> Some (finals, JobRaised e)
         | Inr _ \<Rightarrow> (case r of
             Inr v \<Rightarrow> Some (finals @ [(generation, ''done'')], JobReturned v)
           | Inl e \<Rightarrow> Some (finals @ [(generation, ''failed'')],
               JobRaised (if is_exception e then JobFailedError ''failed'' else e))))))"

text \<open>
  The whole of \<open>_run_job\<close>: its guards, then the loop. The arguments say whether readiness is ignored, whether the
  node is ready, what the node table holds, whether a session scope is given, and what the claim context answers.
\<close>

definition run_job :: "bool \<Rightarrow> bool \<Rightarrow> job_node option \<Rightarrow> bool \<Rightarrow> unit res \<Rightarrow> nat \<Rightarrow> (nat \<Rightarrow> 'v job_pass) \<Rightarrow>
    ((int \<times> string) list \<times> 'v job_result) option" where
  "run_job ignore_readiness ready node scoped claim_context fuel passes =
     (case res_bind (raise_if (\<not> ignore_readiness \<and> \<not> ready) (InvalidGraphError ''is not ready yet'')) (\<lambda>_.
        res_bind (case node of None \<Rightarrow> Inl (KeyError ''node'') | Some n \<Rightarrow>
          raise_if (n_main_task n = None) (InvalidJobError ''has no mounted task'')) (\<lambda>_.
        res_bind (raise_if (\<not> scoped) (RuntimeError ''Job execution requires an explicit native session scope'')) (\<lambda>_.
        claim_context))) of
        Inl e \<Rightarrow> Some ([], JobRaised e)
      | Inr _ \<Rightarrow> run_job_loop fuel passes 0 [])"

section \<open>What the loops do\<close>

abbreviation ncalls :: "exec \<Rightarrow> nat" where
  "ncalls s \<equiv> length (x_calls s)"

text \<open>An aborting outcome among the calls \<open>a..b-1\<close> is the last of them and is the result.\<close>

definition abort_is_final :: "'v exec_env \<Rightarrow> nat \<Rightarrow> nat \<Rightarrow> 'w res \<Rightarrow> bool" where
  "abort_is_final env a b r \<longleftrightarrow> (\<forall>j e. a \<le> j \<and> j < b \<and> e_outcome env j = Inl e \<and> aborts e \<longrightarrow> Suc j = b \<and> r = Inl e)"

lemma abort_is_finalI:
  "(\<And>j e. a \<le> j \<Longrightarrow> j < b \<Longrightarrow> e_outcome env j = Inl e \<Longrightarrow> aborts e \<Longrightarrow> Suc j = b \<and> r = Inl e) \<Longrightarrow> abort_is_final env a b r"
  unfolding abort_is_final_def by blast

lemma log_event_frame [simp]:
  "x_calls (log_event ev s) = x_calls s" "x_history (log_event ev s) = x_history s" "x_checks (log_event ev s) = x_checks s"
  by (simp_all add: log_event_def)

lemma check_frame:
  "check_job_execution env s = (s', r) \<Longrightarrow> x_calls s' = x_calls s \<and> x_history s' = x_history s \<and>
     (\<forall>e. r = Inl e \<longrightarrow> aborts e)"
  by (auto simp: check_job_execution_def aborts_def split: if_splits)

lemma validate_timeout_no_abort: "validate_timeout v = Inl e \<Longrightarrow> \<not> aborts e"
  by (auto simp: validate_timeout_def aborts_def split: pynum.splits if_splits)

lemma run_repeats_spec:
  assumes "run_repeats env t params role pre attempt prev is s = (s', r)"
  shows "ncalls s \<le> ncalls s' \<and> ncalls s' \<le> ncalls s + length is \<and> x_history s' = x_history s \<and>
    (\<forall>vs. r = Inr vs \<longrightarrow> ncalls s' = ncalls s + length is \<and> length vs = length is \<and>
       (\<forall>j<length is. e_outcome env (ncalls s + j) = Inr (vs ! j)) \<and>
       (\<forall>j e'. ncalls s \<le> j \<and> j < ncalls s' \<longrightarrow> e_outcome env j \<noteq> Inl e')) \<and>
    (\<forall>i e. r = Inl (i, e) \<longrightarrow>
       (\<forall>j e'. ncalls s \<le> j \<and> j < ncalls s' \<and> e_outcome env j = Inl e' \<longrightarrow> Suc j = ncalls s' \<and> e' = e))"
  using assms
proof (induction "is" arbitrary: s s' r)
  case Nil
  then show ?case by auto
next
  case (Cons i "is")
  let ?s1 = "if pre \<and> role = ''main'' \<and> attempt = 1 \<and> i = 1 then s
     else log_event (TaskStarted (t_name t) role attempt i prev) s"
  let ?v = "res_bind (validate_timeout (t_timeout t)) (\<lambda>_. validate_timeout (t_checkpoint_timeout t))"
  let ?s2 = "?s1\<lparr>x_calls := x_calls ?s1 @ [\<lparr>i_task = t_name t, i_role = role, i_attempt = attempt, i_repeat = i,
     i_error = prev, i_errors = x_history ?s1\<rparr>]\<rparr>"
  have s1: "x_calls ?s1 = x_calls s" "x_history ?s1 = x_history s" by simp_all
  have s2: "ncalls ?s2 = Suc (ncalls s)" "x_history ?s2 = x_history s" by simp_all
  consider (missing) "missing_params t params \<noteq> {}"
    | (invalid) e where "missing_params t params = {}" "?v = Inl e"
    | (fails) x e where "missing_params t params = {}" "?v = Inr x" "e_outcome env (ncalls s) = Inl e"
    | (returns) x v where "missing_params t params = {}" "?v = Inr x" "e_outcome env (ncalls s) = Inr v"
    by (cases ?v; cases "e_outcome env (ncalls s)") auto
  then show ?case
  proof cases
    case missing
    then show ?thesis using Cons.prems by auto
  next
    case (invalid e)
    then have "s' = ?s1" "r = Inl (i, e)" using Cons.prems by (simp_all add: Let_def)
    then show ?thesis unfolding \<open>s' = ?s1\<close> s1 by auto
  next
    case (fails x e)
    have "run_repeats env t params role pre attempt prev (i # is) s = (?s2, Inl (i, e))"
      using fails s1 by (simp add: Let_def)
    then have sr: "s' = ?s2" "r = Inl (i, e)" using Cons.prems by simp_all
    show ?thesis unfolding sr s2 using fails(3) by (auto simp: less_Suc_eq)
  next
    case (returns x v)
    obtain s3 q where q: "run_repeats env t params role pre attempt prev is ?s2 = (s3, q)" by fastforce
    have run: "run_repeats env t params role pre attempt prev (i # is) s =
        (case q of Inl ie \<Rightarrow> (s3, Inl ie) | Inr vs \<Rightarrow> (s3, Inr (v # vs)))"
      using returns s1 q by (simp add: Let_def split: sum.split)
    have s': "s' = s3" using Cons.prems unfolding run by (cases q) auto
    note IH = Cons.IH [OF q, unfolded s2]
    show ?thesis
    proof (cases q)
      case (Inl ie)
      then have r: "r = Inl ie" using Cons.prems unfolding run by simp
      have "\<forall>j e'. ncalls s \<le> j \<and> j < ncalls s' \<and> e_outcome env j = Inl e' \<longrightarrow> Suc j = ncalls s' \<and> e' = e"
        if "ie = (i', e)" for i' e
      proof (intro allI impI)
        fix j e' assume j: "ncalls s \<le> j \<and> j < ncalls s' \<and> e_outcome env j = Inl e'"
        then have "j \<noteq> ncalls s" using returns(3) by auto
        then have "Suc (ncalls s) \<le> j \<and> j < ncalls s3 \<and> e_outcome env j = Inl e'" using j s' by simp
        moreover have "q = Inl (i', e)" using Inl that by simp
        ultimately show "Suc j = ncalls s' \<and> e' = e" using IH s' by blast
      qed
      then show ?thesis using IH s' r by auto
    next
      case (Inr vs)
      then have r: "r = Inr (v # vs)" using Cons.prems unfolding run by simp
      have len: "ncalls s3 = ncalls s + length (i # is)" "length vs = length is" "x_history s3 = x_history s"
        and vals: "\<forall>j<length is. e_outcome env (Suc (ncalls s) + j) = Inr (vs ! j)" using IH Inr by auto
      have "e_outcome env (ncalls s + j) = Inr ((v # vs) ! j)" if "j < length (i # is)" for j
        using that vals returns(3) by (cases j) auto
      moreover have "e_outcome env j \<noteq> Inl e'" if "ncalls s \<le> j" "j < ncalls s3" for j e'
        using IH Inr returns(3) that by (cases "j = ncalls s") auto
      ultimately show ?thesis unfolding s' r using len by simp
    qed
  qed
qed

text \<open>
  One mounted task: the number of calls, the results it returns, the failures it records, and that an
  aborting outcome ends it.
\<close>

definition task_spec :: "'v exec_env \<Rightarrow> nat \<Rightarrow> nat \<Rightarrow> exec \<Rightarrow> exec \<Rightarrow> 'v task_value res \<Rightarrow> bool" where
  "task_spec env attempts repeats s s' r \<longleftrightarrow>
     ncalls s \<le> ncalls s' \<and> ncalls s' \<le> ncalls s + attempts * repeats \<and>
     (\<forall>v. r = Inr v \<longrightarrow> (\<exists>vs. v = pack_results vs \<and> length vs = repeats \<and> ncalls s + repeats \<le> ncalls s' \<and>
        (\<forall>j<repeats. e_outcome env (ncalls s' - repeats + j) = Inr (vs ! j)))) \<and>
     (\<forall>e. r = Inl e \<and> \<not> aborts e \<longrightarrow> (\<exists>es. x_history s' = x_history s @ es \<and> length es = attempts \<and> es \<noteq> [] \<and> last es = e)) \<and>
     abort_is_final env (ncalls s) (ncalls s') r"

lemma task_spec_success:
  assumes "run_repeats env t params role pre a prev [1..t_repeats t] s = (s', Inr vs)"
  shows "task_spec env (Suc n) (nat (t_repeats t)) s s' (Inr (pack_results vs))"
proof -
  have R: "ncalls s' = ncalls s + nat (t_repeats t)" "length vs = nat (t_repeats t)"
    "\<forall>j<nat (t_repeats t). e_outcome env (ncalls s + j) = Inr (vs ! j)"
    "\<forall>j e'. ncalls s \<le> j \<and> j < ncalls s' \<longrightarrow> e_outcome env j \<noteq> Inl e'"
    using run_repeats_spec [OF assms] by auto
  then have "abort_is_final env (ncalls s) (ncalls s') (Inr (pack_results vs) :: 'a task_value res)"
    unfolding abort_is_final_def by blast
  with R(1-3) show ?thesis by (auto simp: task_spec_def)
qed

text \<open>A failed attempt, alone or followed by the rest of the task.\<close>

lemma failed_attempt:
  assumes "run_repeats env t params role pre a prev [1..t_repeats t] s = (s1, Inl (i, e))"
  shows "ncalls s \<le> ncalls s1 \<and> ncalls s1 \<le> ncalls s + nat (t_repeats t) \<and> x_history s1 = x_history s \<and>
    (\<forall>j e'. ncalls s \<le> j \<and> j < ncalls s1 \<and> e_outcome env j = Inl e' \<longrightarrow> Suc j = ncalls s1 \<and> e' = e)"
  using run_repeats_spec [OF assms] by auto

lemma task_spec_failure:
  assumes "run_repeats env t params role pre a prev [1..t_repeats t] s = (s1, Inl (i, e))"
    and "x_calls s' = x_calls s1" and "\<not> aborts e \<Longrightarrow> x_history s' = x_history s1 @ [e] \<and> n = 0"
  shows "task_spec env (Suc n) (nat (t_repeats t)) s s' (Inl e)"
  using failed_attempt [OF assms(1)] assms(2,3)
  by (auto simp: task_spec_def intro!: abort_is_finalI)

lemma task_spec_retry:
  assumes first: "run_repeats env t params role pre a prev [1..t_repeats t] s = (s1, Inl (i, e))" and "\<not> aborts e"
    and s3: "x_calls s3 = x_calls s1" "x_history s3 = x_history s1 @ [e]"
    and rest: "task_spec env n (nat (t_repeats t)) s3 s' r"
  shows "task_spec env (Suc n) (nat (t_repeats t)) s s' r"
proof -
  let ?R = "nat (t_repeats t)"
  note F = failed_attempt [OF first]
  have calls: "ncalls s \<le> ncalls s'" "ncalls s' \<le> ncalls s + Suc n * ?R"
  proof -
    have "ncalls s1 \<le> ncalls s'" "ncalls s' \<le> ncalls s1 + n * ?R" using rest s3(1) unfolding task_spec_def by simp_all
    then show "ncalls s \<le> ncalls s'" "ncalls s' \<le> ncalls s + Suc n * ?R" using F by simp_all
  qed
  moreover have "\<exists>vs. v = pack_results vs \<and> length vs = ?R \<and> ncalls s + ?R \<le> ncalls s' \<and>
      (\<forall>j<?R. e_outcome env (ncalls s' - ?R + j) = Inr (vs ! j))" if v: "r = Inr v" for v
  proof -
    obtain vs where "v = pack_results vs" "length vs = ?R" "ncalls s3 + ?R \<le> ncalls s'"
      "\<forall>j<?R. e_outcome env (ncalls s' - ?R + j) = Inr (vs ! j)" using rest v unfolding task_spec_def by blast
    then show ?thesis using F s3(1) by (intro exI [of _ vs]) simp
  qed
  moreover have "\<exists>es. x_history s' = x_history s @ es \<and> length es = Suc n \<and> es \<noteq> [] \<and> last es = e'"
    if e': "r = Inl e'" "\<not> aborts e'" for e'
  proof -
    obtain es where "x_history s' = x_history s3 @ es" "length es = n" "es \<noteq> []" "last es = e'"
      using rest e' unfolding task_spec_def by blast
    then show ?thesis using F s3(2) by (intro exI [of _ "e # es"]) simp
  qed
  moreover have "abort_is_final env (ncalls s) (ncalls s') r"
  proof (rule abort_is_finalI)
    fix j e' assume j: "ncalls s \<le> j" "j < ncalls s'" "e_outcome env j = Inl e'" "aborts e'"
    have "ncalls s1 \<le> j" using F j assms(2) by (metis not_le)
    then show "Suc j = ncalls s' \<and> r = Inl e'"
      using rest j s3(1) unfolding task_spec_def abort_is_final_def by simp
  qed
  ultimately show ?thesis unfolding task_spec_def by blast
qed

lemma task_spec_more: "task_spec env n R s s' r \<Longrightarrow> n \<le> m \<Longrightarrow> (\<forall>e. r = Inl e \<longrightarrow> aborts e) \<Longrightarrow> task_spec env m R s s' r"
  unfolding task_spec_def by (auto intro: order_trans [OF _ add_left_mono [OF mult_le_mono1]])

lemma run_attempts_spec:
  assumes "run_attempts env t params role pre attempts [k..attempts] prev s = (s', r)" and "k \<le> attempts"
  shows "task_spec env (nat (attempts - k + 1)) (nat (t_repeats t)) s s' r"
  using assms
proof (induction "nat (attempts - k)" arbitrary: k prev s)
  case (0 k prev s)
  then have k: "k = attempts" by simp
  obtain s1 q where q: "run_repeats env t params role pre attempts prev [1..t_repeats t] s = (s1, q)" by fastforce
  show ?case
  proof (cases q)
    case (Inr vs)
    then have "s' = s1" "r = Inr (pack_results vs)" using 0(2) q k by simp_all
    then show ?thesis using task_spec_success [of _ _ _ _ _ _ _ s s1 vs 0] q Inr by (simp add: k)
  next
    case (Inl ie)
    obtain i e where ie: "ie = (i, e)" by fastforce
    let ?s2 = "(log_event (TaskFailed (t_name t) role k i e) s1)\<lparr>x_history := x_history s1 @ [e]\<rparr>"
    have run: "run_attempts env t params role pre attempts [k..attempts] prev s = (if aborts e then s1 else ?s2, Inl e)"
      using q Inl ie by (simp add: k Let_def)
    have sr: "s' = (if aborts e then s1 else ?s2)" "r = Inl e" using 0(2) unfolding run by auto
    have "task_spec env (Suc 0) (nat (t_repeats t)) s s' (Inl e)"
      by (rule task_spec_failure) (use q Inl ie sr in simp_all)
    then show ?thesis unfolding sr(2) by (simp add: k)
  qed
next
  case (Suc n k prev s)
  have kl: "k < attempts" "[k..attempts] = k # [k + 1..attempts]"
    and n: "n = nat (attempts - (k + 1))" "k + 1 \<le> attempts" "nat (attempts - k + 1) = Suc (nat (attempts - (k + 1) + 1))"
    using Suc(2) by (auto simp: upto_rec1)
  obtain s1 q where q: "run_repeats env t params role pre k prev [1..t_repeats t] s = (s1, q)" by fastforce
  show ?case
  proof (cases q)
    case (Inr vs)
    then have "s' = s1" "r = Inr (pack_results vs)" using Suc(3) q unfolding kl(2) by simp_all
    then show ?thesis unfolding n(3) using task_spec_success q Inr by simp
  next
    case (Inl ie)
    obtain i e where ie: "ie = (i, e)" by fastforce
    let ?s2 = "(log_event (TaskFailed (t_name t) role k i e) s1)\<lparr>x_history := x_history s1 @ [e]\<rparr>"
    show ?thesis
    proof (cases "aborts e")
      case True
      then have "s' = s1" "r = Inl e" using Suc(3) q Inl ie unfolding kl(2) by simp_all
      then show ?thesis unfolding n(3) using task_spec_failure [of _ _ _ _ _ _ _ s s1 i e s1] q Inl ie True by simp
    next
      case False
      obtain s3 c where c: "check_job_execution env ?s2 = (s3, c)" by fastforce
      have s3: "x_calls s3 = x_calls s1" "x_history s3 = x_history s1 @ [e]" "\<And>e'. c = Inl e' \<Longrightarrow> aborts e'"
        using check_frame [OF c] by simp_all
      show ?thesis
      proof (cases c)
        case (Inl e')
        have sr: "s' = s3" "r = Inl e'" using Suc(3) q \<open>q = Inl ie\<close> ie False c Inl kl(1) unfolding kl(2) by (simp_all add: Let_def)
        have base: "task_spec env 0 (nat (t_repeats t)) s3 s3 (Inl e')"
          using s3(3) [OF Inl] by (auto simp: task_spec_def abort_is_final_def)
        have "task_spec env (Suc 0) (nat (t_repeats t)) s s3 (Inl e')"
          by (rule task_spec_retry [OF _ False s3(1,2) base]) (use q \<open>q = Inl ie\<close> ie in simp)
        then show ?thesis unfolding sr n(3) by (rule task_spec_more) (use s3(3) [OF Inl] in simp_all)
      next
        case (Inr u)
        let ?s4 = "log_event (RetryStarted (t_name t) (k + 1) attempts e) s3"
        have "run_attempts env t params role pre attempts [k + 1..attempts] (Some e) ?s4 = (s', r)"
          using Suc(3) q \<open>q = Inl ie\<close> ie False c Inr kl(1) unfolding kl(2) by (simp add: Let_def)
        from Suc(1) [OF n(1) this n(2)] show ?thesis unfolding n(3)
          using task_spec_retry [of _ _ _ _ _ _ _ s s1 i e ?s4] q \<open>q = Inl ie\<close> ie False s3(1,2) by simp
      qed
    qed
  qed
qed

lemma execute_mounted_task_spec:
  assumes "execute_mounted_task env t params role pre prev s = (s', r)" and "0 \<le> t_retries t"
  shows "task_spec env (nat (t_retries t + 1)) (nat (t_repeats t)) s s' r"
  using run_attempts_spec [of env t params role pre "t_retries t + 1" 1 prev s s' r] assms
  by (simp add: execute_mounted_task_def)

text \<open>The same contract for the main task followed by fallbacks; \<open>ts\<close> are the tasks still to run.\<close>

definition call_budget :: "mounted_task list \<Rightarrow> nat" where
  "call_budget ts = sum_list (map (\<lambda>t. nat (t_retries t + 1) * nat (t_repeats t)) ts)"

definition attempt_budget :: "mounted_task list \<Rightarrow> nat" where
  "attempt_budget ts = sum_list (map (\<lambda>t. nat (t_retries t + 1)) ts)"

definition chain_spec :: "'v exec_env \<Rightarrow> mounted_task list \<Rightarrow> exec \<Rightarrow> exec \<Rightarrow> 'v task_value res \<Rightarrow> bool" where
  "chain_spec env ts s s' r \<longleftrightarrow>
     ncalls s \<le> ncalls s' \<and> ncalls s' \<le> ncalls s + call_budget ts \<and>
     (\<forall>v. r = Inr v \<longrightarrow> (\<exists>t\<in>set ts. \<exists>vs. v = pack_results vs \<and> int (length vs) = t_repeats t \<and>
        ncalls s + length vs \<le> ncalls s' \<and> (\<forall>j<length vs. e_outcome env (ncalls s' - length vs + j) = Inr (vs ! j)))) \<and>
     (\<forall>e. r = Inl e \<and> \<not> aborts e \<longrightarrow> length (x_history s') = length (x_history s) + attempt_budget ts \<and>
        (ts \<noteq> [] \<longrightarrow> e = last (x_history s'))) \<and>
     abort_is_final env (ncalls s) (ncalls s') r"

lemma chain_spec_cons:
  assumes c: "chain_spec env ts s2 s' r" and ne: "ts \<noteq> []"
    and b: "ncalls s \<le> ncalls s1" "ncalls s1 \<le> ncalls s + nat (t_retries t + 1) * nat (t_repeats t)"
    and noabort: "\<And>j e. \<not> (ncalls s \<le> j \<and> j < ncalls s1 \<and> e_outcome env j = Inl e \<and> aborts e)"
    and s2: "x_calls s2 = x_calls s1" "length (x_history s2) = length (x_history s) + nat (t_retries t + 1)"
  shows "chain_spec env (t # ts) s s' r"
proof -
  have c': "abort_is_final env (ncalls s1) (ncalls s') r" "ncalls s1 \<le> ncalls s'" "ncalls s' \<le> ncalls s1 + call_budget ts"
    using c s2(1) by (simp_all add: chain_spec_def)
  have "abort_is_final env (ncalls s) (ncalls s') r"
  proof (rule abort_is_finalI)
    fix j e' assume j: "ncalls s \<le> j" "j < ncalls s'" "e_outcome env j = Inl e'" "aborts e'"
    then have "ncalls s1 \<le> j" using noabort [of j e'] by simp
    then show "Suc j = ncalls s' \<and> r = Inl e'" using c'(1) j unfolding abort_is_final_def by blast
  qed
  moreover have "\<exists>t'\<in>set (t # ts). \<exists>vs. v = pack_results vs \<and> int (length vs) = t_repeats t' \<and>
      ncalls s + length vs \<le> ncalls s' \<and> (\<forall>j<length vs. e_outcome env (ncalls s' - length vs + j) = Inr (vs ! j))"
    if v: "r = Inr v" for v
  proof -
    obtain t' vs where "t' \<in> set ts" "v = pack_results vs" "int (length vs) = t_repeats t'" "ncalls s2 + length vs \<le> ncalls s'"
      "\<forall>j<length vs. e_outcome env (ncalls s' - length vs + j) = Inr (vs ! j)" using c v unfolding chain_spec_def by blast
    then show ?thesis using b(1) s2(1) by (intro bexI [of _ t'] exI [of _ vs]) simp_all
  qed
  moreover have "length (x_history s') = length (x_history s) + attempt_budget (t # ts) \<and> e = last (x_history s')"
    if "r = Inl e" "\<not> aborts e" for e
    using c ne that s2(2) unfolding chain_spec_def attempt_budget_def by simp
  moreover have "ncalls s \<le> ncalls s'" "ncalls s' \<le> ncalls s + call_budget (t # ts)"
    using b c'(2,3) by (simp_all add: call_budget_def)
  ultimately show ?thesis unfolding chain_spec_def by blast
qed

lemma chain_spec_step:
  assumes t: "task_spec env (nat (t_retries t + 1)) (nat (t_repeats t)) s s1 r1" and ok: "task_ok t"
    and rest: "case r1 of Inr v \<Rightarrow> s' = s1 \<and> r = r1
      | Inl e \<Rightarrow> if aborts e then s' = s1 \<and> r = r1
          else \<exists>s2. x_calls s2 = x_calls s1 \<and> x_history s2 = x_history s1 \<and>
            (r = Inl e \<and> s' = s2 \<and> ts = [] \<or> ts \<noteq> [] \<and> chain_spec env ts s2 s' r \<or> s' = s2 \<and> (\<exists>e'. r = Inl e' \<and> aborts e'))"
  shows "chain_spec env (t # ts) s s' r"
proof -
  have rep: "1 \<le> t_repeats t" using ok by (simp add: task_ok_def)
  have b: "ncalls s \<le> ncalls s1" "ncalls s1 \<le> ncalls s + nat (t_retries t + 1) * nat (t_repeats t)"
    "abort_is_final env (ncalls s) (ncalls s1) r1" using t by (simp_all add: task_spec_def)
  have budgets: "call_budget (t # ts) = nat (t_retries t + 1) * nat (t_repeats t) + call_budget ts"
    "attempt_budget (t # ts) = nat (t_retries t + 1) + attempt_budget ts"
    by (simp_all add: call_budget_def attempt_budget_def)
  show ?thesis
  proof (cases r1)
    case (Inr v)
    then have sr: "s' = s1" "r = Inr v" using rest by simp_all
    obtain vs where vs: "v = pack_results vs" "length vs = nat (t_repeats t)" "ncalls s + nat (t_repeats t) \<le> ncalls s1"
      "\<forall>j<nat (t_repeats t). e_outcome env (ncalls s1 - nat (t_repeats t) + j) = Inr (vs ! j)"
      using t Inr unfolding task_spec_def by blast
    then have "\<exists>t'\<in>set (t # ts). \<exists>vs. v = pack_results vs \<and> int (length vs) = t_repeats t' \<and>
        ncalls s + length vs \<le> ncalls s1 \<and> (\<forall>j<length vs. e_outcome env (ncalls s1 - length vs + j) = Inr (vs ! j))"
      using rep by (intro bexI [of _ t] exI [of _ vs]) simp_all
    then show ?thesis using b Inr unfolding chain_spec_def sr budgets by simp
  next
    case (Inl e)
    show ?thesis
    proof (cases "aborts e")
      case True
      then have "s' = s1" "r = Inl e" using rest Inl by simp_all
      then show ?thesis using b Inl True unfolding chain_spec_def budgets by simp
    next
      case False
      obtain es where es: "x_history s1 = x_history s @ es" "length es = nat (t_retries t + 1)" "es \<noteq> []" "last es = e"
        using t Inl False unfolding task_spec_def by blast
      obtain s2 where s2: "x_calls s2 = x_calls s1" "x_history s2 = x_history s1"
        and alt: "r = Inl e \<and> s' = s2 \<and> ts = [] \<or> ts \<noteq> [] \<and> chain_spec env ts s2 s' r \<or> s' = s2 \<and> (\<exists>e'. r = Inl e' \<and> aborts e')"
        using rest Inl False by auto
      have noabort: "\<not> (ncalls s \<le> j \<and> j < ncalls s1 \<and> e_outcome env j = Inl e' \<and> aborts e')" for j e'
        using b(3) Inl False unfolding abort_is_final_def by blast
      from alt show ?thesis
      proof (elim disjE)
        assume "r = Inl e \<and> s' = s2 \<and> ts = []"
        then show ?thesis using b es s2 noabort
          by (simp add: chain_spec_def budgets call_budget_def attempt_budget_def) (auto intro!: abort_is_finalI)
      next
        assume "s' = s2 \<and> (\<exists>e'. r = Inl e' \<and> aborts e')"
        then show ?thesis using b s2 noabort
          by (auto simp: chain_spec_def budgets intro!: abort_is_finalI)
      next
        assume c: "ts \<noteq> [] \<and> chain_spec env ts s2 s' r"
        have "length (x_history s2) = length (x_history s) + nat (t_retries t + 1)" using es s2(2) by simp
        with c show ?thesis using chain_spec_cons [OF _ _ b(1,2) noabort s2(1)] by blast
      qed
    qed
  qed
qed

lemma node_fallback:
  assumes "node_ok n" and "name \<in> set (n_fallback_order n)"
  obtains t where "dict_get (n_fallbacks n) name = Some t" "task_ok t"
proof -
  have "name \<in> set (dict_keys (n_fallbacks n))" using assms by (simp add: node_ok_def)
  then obtain t where t: "dict_get (n_fallbacks n) name = Some t" by (metis dict_get_None_iff not_None_eq)
  then have "(name, t) \<in> set (n_fallbacks n)" unfolding dict_get_def by (rule map_of_SomeD)
  then show thesis using assms(1) t that by (force simp: node_ok_def)
qed

lemma run_fallbacks_spec:
  assumes "run_fallbacks env n params main_error (name # names) terminal s = (s', r)" and "node_ok n"
    and "set (name # names) \<subseteq> set (n_fallback_order n)" and "x_history s \<noteq> []"
  shows "chain_spec env (map (\<lambda>name. the (dict_get (n_fallbacks n) name)) (name # names)) s s' r"
  using assms
proof (induction names arbitrary: name terminal s)
  case Nil
  obtain t where t: "dict_get (n_fallbacks n) name = Some t" "task_ok t"
    using node_fallback [OF Nil(2)] Nil(3) by auto
  let ?s0 = "log_event (FallbackStarted name main_error) s"
  obtain s1 r1 where r1: "execute_mounted_task env t params ''fallback'' False (Some (last (x_history s))) ?s0 = (s1, r1)" by fastforce
  have spec: "task_spec env (nat (t_retries t + 1)) (nat (t_repeats t)) s s1 r1"
    using execute_mounted_task_spec [OF r1] t(2) unfolding task_ok_def task_spec_def by simp
  show ?case
  proof (simp only: list.map t(1) option.sel, rule chain_spec_step [OF spec t(2)], cases r1, goal_cases)
    case (1 e)
    obtain s2 c where c: "check_job_execution env s1 = (s2, c)" by fastforce
    show ?case using Nil(1,4) t(1) r1 1 c check_frame [OF c] by (cases c) (auto split: if_splits)
  qed (use Nil(1,4) t(1) r1 in auto)
next
  case (Cons name2 names)
  obtain t where t: "dict_get (n_fallbacks n) name = Some t" "task_ok t"
    using node_fallback [OF Cons(3)] Cons(4) by auto
  let ?s0 = "log_event (FallbackStarted name main_error) s"
  obtain s1 r1 where r1: "execute_mounted_task env t params ''fallback'' False (Some (last (x_history s))) ?s0 = (s1, r1)" by fastforce
  have spec: "task_spec env (nat (t_retries t + 1)) (nat (t_repeats t)) s s1 r1"
    using execute_mounted_task_spec [OF r1] t(2) unfolding task_ok_def task_spec_def by simp
  show ?case
  proof (simp only: list.map(2) [of _ name] t(1) option.sel, rule chain_spec_step [OF spec t(2)], cases r1, goal_cases)
    case (1 e)
    obtain s2 c where c: "check_job_execution env s1 = (s2, c)" by fastforce
    show ?case
    proof (cases "aborts e")
      case True
      then show ?thesis using Cons(2,5) t(1) r1 1 by auto
    next
      case False
      have hist: "x_history s2 \<noteq> []" "x_calls s2 = x_calls s1" "x_history s2 = x_history s1"
        using spec 1 False check_frame [OF c] unfolding task_spec_def by auto
      show ?thesis
      proof (cases c)
        case (Inl e')
        then show ?thesis using Cons(2,5) t(1) r1 1 False c hist check_frame [OF c] by auto
      next
        case (Inr u)
        have "run_fallbacks env n params main_error (name2 # names) e s2 = (s', r)"
          using Cons(2,5) t(1) r1 1 False c Inr by (simp split: if_splits)
        from Cons(1) [OF this Cons(3) _ hist(1)] Cons(4) show ?thesis using 1 False hist(2,3)
          by (auto intro!: exI [of _ s2])
      qed
    qed
  qed (use Cons(2,5) t(1) r1 in auto)
qed

lemma execute_with_fallbacks_spec:
  assumes ok: "node_ok n" and main: "n_main_task n = Some t" and run: "execute_with_fallbacks env n params pre s = (s', r)"
  shows "chain_spec env (t # map (\<lambda>name. the (dict_get (n_fallbacks n) name)) (n_fallback_order n)) s s' r"
proof -
  have t: "task_ok t" using ok main by (simp add: node_ok_def)
  obtain s1 r1 where r1: "execute_mounted_task env t params ''main'' pre None s = (s1, r1)" by fastforce
  have spec: "task_spec env (nat (t_retries t + 1)) (nat (t_repeats t)) s s1 r1"
    using execute_mounted_task_spec [OF r1] t by (simp add: task_ok_def)
  show ?thesis
  proof (rule chain_spec_step [OF spec t], cases r1, goal_cases)
    case (1 e)
    obtain s2 c where c: "check_job_execution env s1 = (s2, c)" by fastforce
    show ?case
    proof (cases "aborts e")
      case True
      then show ?thesis using run main r1 1 by (auto simp: execute_with_fallbacks_def)
    next
      case False
      have hist: "x_history s2 \<noteq> []" "x_calls s2 = x_calls s1" "x_history s2 = x_history s1"
        using spec 1 False check_frame [OF c] unfolding task_spec_def by auto
      show ?thesis
      proof (cases c)
        case (Inl e')
        then show ?thesis using run main r1 1 False c hist check_frame [OF c] by (auto simp: execute_with_fallbacks_def)
      next
        case (Inr u)
        have f: "run_fallbacks env n params e (n_fallback_order n) e s2 = (s', r)"
          using run main r1 1 False c Inr by (simp add: execute_with_fallbacks_def)
        show ?thesis
        proof (cases "n_fallback_order n")
          case Nil
          then show ?thesis using f 1 False hist(2,3) by (auto intro!: exI [of _ s2])
        next
          case (Cons name names)
          then have "chain_spec env (map (\<lambda>name. the (dict_get (n_fallbacks n) name)) (n_fallback_order n)) s2 s' r"
            using run_fallbacks_spec [OF f [unfolded Cons] ok _ hist(1)] by simp
          then show ?thesis using Cons 1 False hist(2,3) by (auto intro!: exI [of _ s2])
        qed
      qed
    qed
  qed (use run main r1 in \<open>auto simp: execute_with_fallbacks_def\<close>)
qed

section \<open>Properties\<close>

definition task_chain :: "job_node \<Rightarrow> mounted_task \<Rightarrow> mounted_task list" where
  "task_chain n t = t # map (\<lambda>name. the (dict_get (n_fallbacks n) name)) (n_fallback_order n)"

text \<open>
  C26. The retry and fallback policy of one execution, whatever the handlers do. The handlers are called at most
  (retries + 1) times repeats for the main task and each fallback together. A returned value consists of the
  results of one complete, uninterrupted series of repeats, the last calls made, all of which succeeded. A raised
  ordinary error means that every attempt of the main task and of every fallback was used up, each leaving one
  entry in the failure history, and the error is the latest of them. A permit error, a restart or an exit
  raised by a handler is the last call made and is raised unchanged: nothing is retried after it.
\<close>

theorem execute_with_fallbacks_policy:
  assumes "node_ok n" and "n_main_task n = Some t" and "execute_with_fallbacks env n params pre fresh_exec = (s', r)"
  shows "length (x_calls s') \<le> sum_list (map (\<lambda>t. nat (t_retries t + 1) * nat (t_repeats t)) (task_chain n t)) \<and>
    (case r of
       Inr v \<Rightarrow> \<exists>t'\<in>set (task_chain n t). \<exists>vs. v = pack_results vs \<and> int (length vs) = t_repeats t' \<and>
         length vs \<le> length (x_calls s') \<and>
         (\<forall>j<length vs. e_outcome env (length (x_calls s') - length vs + j) = Inr (vs ! j))
     | Inl e \<Rightarrow> aborts e \<or> e = last (x_history s') \<and>
         length (x_history s') = sum_list (map (\<lambda>t. nat (t_retries t + 1)) (task_chain n t))) \<and>
    (\<forall>j e. j < length (x_calls s') \<and> e_outcome env j = Inl e \<and> aborts e \<longrightarrow> Suc j = length (x_calls s') \<and> r = Inl e)"
proof -
  have c: "chain_spec env (task_chain n t) fresh_exec s' r"
    using execute_with_fallbacks_spec [OF assms] by (simp add: task_chain_def)
  have f: "x_calls fresh_exec = []" "x_history fresh_exec = []" "task_chain n t \<noteq> []" by (simp_all add: fresh_exec_def task_chain_def)
  show ?thesis
  proof (cases r)
    case (Inl e)
    then show ?thesis using c f unfolding chain_spec_def abort_is_final_def call_budget_def attempt_budget_def
      by simp blast
  next
    case (Inr v)
    then show ?thesis using c f unfolding chain_spec_def abort_is_final_def call_budget_def by simp
  qed
qed

definition demo_node :: job_node where
  "demo_node = (case mount_to demo_router None of Inr (n, jobs) \<Rightarrow> n | Inl _ \<Rightarrow> undefined)"

definition demo_env :: "string exec_env" where
  "demo_env = \<lparr>e_outcome = (\<lambda>n. if n < 3 then Inl (HandlerError ''boom'') else Inr ''ok''), e_current = (\<lambda>_. True), e_owned = True\<rparr>"

lemma demo_node_facts: "node_ok demo_node" "\<exists>t. n_main_task demo_node = Some t"
proof -
  have "(case mount_to demo_router None of Inr (n, jobs) \<Rightarrow> True | Inl _ \<Rightarrow> False)" by code_simp
  then obtain n jobs where n: "mount_to demo_router None = Inr (n, jobs)" by (auto split: sum.splits)
  then obtain t n1 where "register_task demo_router t None = Inr n1" "mount_fallbacks (nr_fallbacks demo_router) n1 = Inr n"
    by (auto simp: mount_to_def res_bind_eq_Inr split: option.splits)
  then have "node_ok n" "n_main_task n \<noteq> None"
    using register_task_ok [of demo_router t None n1] node_ok_mount_fallbacks [of n1 "nr_fallbacks demo_router" n] by auto
  moreover have "demo_node = n" using n by (simp add: demo_node_def)
  ultimately show "node_ok demo_node" "\<exists>t. n_main_task demo_node = Some t" by auto
qed

theorem execute_with_fallbacks_policy_witness:
  "case execute_with_fallbacks demo_env demo_node {''item''} False fresh_exec of (s', r) \<Rightarrow>
     r = Inr (One ''ok'') \<and> map i_task (x_calls s') = [''main'', ''main'', ''main'', ''plain''] \<and>
     (\<exists>vs. One ''ok'' = pack_results vs \<and> length vs \<le> 4 \<and> (\<forall>j<length vs. e_outcome demo_env (4 - length vs + j) = Inr (vs ! j)))"
proof -
  obtain t where t: "n_main_task demo_node = Some t" using demo_node_facts(2) by blast
  have "(case execute_with_fallbacks demo_env demo_node {''item''} False fresh_exec of (s', r) \<Rightarrow>
     r = Inr (One ''ok'') \<and> map i_task (x_calls s') = [''main'', ''main'', ''main'', ''plain''])" by code_simp
  then obtain s' where s': "execute_with_fallbacks demo_env demo_node {''item''} False fresh_exec = (s', Inr (One ''ok''))"
    and calls: "map i_task (x_calls s') = [''main'', ''main'', ''main'', ''plain'']" by auto
  have len: "length (x_calls s') = 4" using arg_cong [OF calls, of length] by simp
  from execute_with_fallbacks_policy [OF demo_node_facts(1) t s'] have
    "\<exists>vs. One ''ok'' = pack_results vs \<and> length vs \<le> 4 \<and> (\<forall>j<length vs. e_outcome demo_env (4 - length vs + j) = Inr (vs ! j))"
    unfolding len by auto
  with s' calls show ?thesis by simp
qed

text \<open>
  A job admitted by \<open>validate_params\<close> never fails for missing parameters: the keyword arguments that the
  executor builds for the main handler contain every required name and only allowed names.
\<close>

theorem admitted_job_has_its_params:
  assumes "validate_params params n = Inr ()" and "n_main_task n = Some t"
  shows "missing_params t params = {} \<and> invocation_params t params \<subseteq> t_allowed t \<and> params \<subseteq> invocation_params t params"
  using assms by (auto simp: validate_params_def missing_params_def invocation_params_def split: if_splits)

theorem admitted_job_has_its_params_witness:
  "\<exists>t. n_main_task demo_node = Some t \<and> missing_params t {''item''} = {}"
proof -
  obtain t where t: "n_main_task demo_node = Some t" using demo_node_facts(2) by blast
  have "validate_params {''item''} demo_node = Inr ()" by code_simp
  from admitted_job_has_its_params [OF this t] t show ?thesis by blast
qed

text \<open>
  The two timeout validators agree on finite values only. A timeout accepted when a task is declared is
  accepted when the attempt is registered unless it is infinite or NaN; those pass the declaration and are
  refused, with \<open>ValueError\<close>, at every attempt before the handler runs.
\<close>

theorem declared_timeouts_at_run_time:
  assumes "validate_positive_float v = Inr t"
  shows "(\<exists>x. validate_timeout t = Inr x) = (v \<noteq> PyPosInf \<and> v \<noteq> PyNan)"
  using assms by (auto simp: validate_positive_float_def validate_timeout_def split: pynum.splits if_splits)

theorem declared_timeouts_at_run_time_witness:
  "validate_positive_float PyPosInf = Inr PyPosInf \<and> \<not> (\<exists>x. validate_timeout PyPosInf = Inr x)"
proof -
  have "validate_positive_float PyPosInf = Inr PyPosInf" by code_simp
  with declared_timeouts_at_run_time [OF this] show ?thesis by simp
qed

text \<open>A pass that the loop follows by another generation.\<close>

definition superseded_pass :: "'v job_pass \<Rightarrow> bool" where
  "superseded_pass p \<longleftrightarrow> (\<exists>ge. claim p = Inr ge) \<and>
     ((\<exists>m. executed p = Inl (JobRestartedError m)) \<or>
      \<not> (\<exists>m. executed p = Inl (ApiPermitStateError m)) \<and> (\<exists>m. published p = Inl (JobRestartedError m)))"

lemma run_job_loop_superseded:
  "superseded_pass (passes k) \<Longrightarrow> run_job_loop (Suc fuel) passes k finals = run_job_loop fuel passes (k + 1) finals"
proof -
  assume "superseded_pass (passes k)"
  then consider g x m where "claim (passes k) = Inr (g, x)" "executed (passes k) = Inl (JobRestartedError m)"
    | g x m where "claim (passes k) = Inr (g, x)" "published (passes k) = Inl (JobRestartedError m)"
      "\<And>m. executed (passes k) \<noteq> Inl (ApiPermitStateError m)"
    unfolding superseded_pass_def by force
  then show ?thesis
  proof cases
    case 2
    then show ?thesis
      by (cases "executed (passes k)"; cases "projl (executed (passes k))") (simp_all add: Let_def)
  qed (simp add: Let_def)
qed



end
