(* ===== verification/Mutation_Writer.thy ===== *)
theory Mutation_Writer
  imports MWF_Prelude "HOL-Library.Multiset" "HOL-Library.Sublist"
begin

text \<open>
  The single writer lane of the project database (\<open>storage/sqlite/mutation_writer.py\<close>): requests with a
  serial number and a priority, the bounded collection of a batch, its execution in one transaction with one
  savepoint per unit, the settling of futures and the watermark the durability barrier waits on. The priority
  queue and the lazy heap of pending serials are kept as sorted lists. An operation is a function from the
  database to the database it leaves and a result or an error; the database it leaves matters only when it
  succeeds, because the writer rolls back to the savepoint otherwise. Clock readings and the requests that
  other threads enqueue meanwhile are arguments.
\<close>

section \<open>Requests\<close>

datatype 'v payload = PVal 'v | PExn exn

type_synonym 'v outcome = "bool \<times> 'v payload"

record ('db, 'k, 'i, 'v) mutation_request =
  mr_serial :: int
  mr_priority :: int
  mr_collect_seconds :: rat
  mr_weight :: int
  mr_operation :: "('db \<Rightarrow> 'db \<times> 'v res) option"
  mr_group_key :: "'k option"
  mr_group_item :: "'i option"
  mr_group_operation :: "('db \<Rightarrow> 'i option list \<Rightarrow> 'db \<times> 'v outcome list res) option"

datatype 'v future = Unresolved | CancelledFuture | Resolved "'v outcome"

record ('db, 'k, 'i, 'v) mutation_writer =
  mw_max_batch :: int
  mw_collect_seconds :: rat
  mw_claim_transaction_rows :: int
  mw_queue :: "('db, 'k, 'i, 'v) mutation_request list"
  mw_serial :: int
  mw_thread :: bool
  mw_completed_through :: int
  mw_pending_serials :: "int set"
  mw_pending_serial_heap :: "int list"
  mw_urgent_pending :: bool
  mw_active_priority :: "int option"
  mw_active_batch_size :: nat
  mw_futures :: "int \<Rightarrow> 'v future"

text \<open>
  The constructor; the last argument is the environment variable as an integer, \<open>None\<close> when its text is not one.
\<close>

definition new_writer :: "int \<Rightarrow> rat \<Rightarrow> int option \<Rightarrow> ('db, 'k, 'i, 'v) mutation_writer res" where
  "new_writer max_batch collect_seconds configured =
     (if max_batch < 1 then Inl (ValueError ''max_batch must be positive'')
      else if collect_seconds < 0 then Inl (ValueError ''collect_seconds must be non-negative'')
      else case configured of
        None \<Rightarrow> Inl (ValueError ''MWF_SQLITE_CLAIM_TRANSACTION_ROWS must be an integer between 32 and 1024'')
      | Some rows \<Rightarrow>
          if \<not> (32 \<le> rows \<and> rows \<le> 1024)
          then Inl (ValueError ''MWF_SQLITE_CLAIM_TRANSACTION_ROWS must be an integer between 32 and 1024'')
          else Inr \<lparr>mw_max_batch = max_batch, mw_collect_seconds = collect_seconds, mw_claim_transaction_rows = rows,
            mw_queue = [], mw_serial = 0, mw_thread = False, mw_completed_through = 0, mw_pending_serials = {},
            mw_pending_serial_heap = [], mw_urgent_pending = False, mw_active_priority = None,
            mw_active_batch_size = 0, mw_futures = (\<lambda>_. Unresolved)\<rparr>)"

text \<open>What a caller hands to \<open>_new_request\<close>: the body of the request without its serial.\<close>

record ('db, 'k, 'i, 'v) request_args =
  ra_priority :: pynum
  ra_collect_seconds :: "rat option"
  ra_weight :: pynum
  ra_operation :: "('db \<Rightarrow> 'db \<times> 'v res) option"
  ra_group_key :: "'k option"
  ra_group_item :: "'i option"
  ra_group_operation :: "('db \<Rightarrow> 'i option list \<Rightarrow> 'db \<times> 'v outcome list res) option"

definition new_request :: "('db, 'k, 'i, 'v) request_args \<Rightarrow> ('db, 'k, 'i, 'v) mutation_writer \<Rightarrow>
    (('db, 'k, 'i, 'v) mutation_request \<times> ('db, 'k, 'i, 'v) mutation_writer) res" where
  "new_request a w = (case ra_priority a of
     PyInt priority \<Rightarrow> (case ra_weight a of
       PyInt weight \<Rightarrow>
         if weight < 1 then Inl (ValueError ''mutation weight must be an integer >= 1'')
         else let window = (case ra_collect_seconds a of None \<Rightarrow> mw_collect_seconds w | Some c \<Rightarrow> c) in
           if window < 0 then Inl (ValueError ''collect_seconds must be non-negative'')
           else let serial = mw_serial w + 1 in
             Inr (\<lparr>mr_serial = serial, mr_priority = priority, mr_collect_seconds = window, mr_weight = weight,
                    mr_operation = ra_operation a, mr_group_key = ra_group_key a, mr_group_item = ra_group_item a,
                    mr_group_operation = ra_group_operation a\<rparr>,
                  w\<lparr>mw_serial := serial, mw_pending_serials := insert serial (mw_pending_serials w),
                    mw_pending_serial_heap := insort serial (mw_pending_serial_heap w)\<rparr>)
     | _ \<Rightarrow> Inl (ValueError ''mutation weight must be an integer >= 1''))
   | _ \<Rightarrow> Inl (TypeError ''priority must be an integer''))"

section \<open>The queue\<close>

text \<open>Entries are compared by (priority, serial); \<open>get\<close> takes the least.\<close>

definition queue_key :: "('db, 'k, 'i, 'v) mutation_request \<Rightarrow> int \<times> int" where
  "queue_key r = (mr_priority r, mr_serial r)"

definition queue_put :: "('db, 'k, 'i, 'v) mutation_request \<Rightarrow> ('db, 'k, 'i, 'v) mutation_request list \<Rightarrow>
    ('db, 'k, 'i, 'v) mutation_request list" where
  "queue_put r q = insort_key queue_key r q"

text \<open>\<open>_enqueue\<close> in its two atomic parts: the urgent signal, then the guarded put that also starts the thread.\<close>

definition enqueue_signal :: "('db, 'k, 'i, 'v) mutation_request \<Rightarrow> ('db, 'k, 'i, 'v) mutation_writer \<Rightarrow> ('db, 'k, 'i, 'v) mutation_writer" where
  "enqueue_signal r w = (if mr_priority r \<le> 5 then w\<lparr>mw_urgent_pending := True\<rparr> else w)"

definition enqueue_put :: "('db, 'k, 'i, 'v) mutation_request \<Rightarrow> ('db, 'k, 'i, 'v) mutation_writer \<Rightarrow> ('db, 'k, 'i, 'v) mutation_writer" where
  "enqueue_put r w = w\<lparr>mw_queue := queue_put r (mw_queue w), mw_thread := True\<rparr>"

definition enqueue :: "('db, 'k, 'i, 'v) mutation_request \<Rightarrow> ('db, 'k, 'i, 'v) mutation_writer \<Rightarrow> ('db, 'k, 'i, 'v) mutation_writer" where
  "enqueue r w = enqueue_put r (enqueue_signal r w)"

definition submit :: "('db, 'k, 'i, 'v) request_args \<Rightarrow> ('db, 'k, 'i, 'v) mutation_writer \<Rightarrow>
    (int \<times> ('db, 'k, 'i, 'v) mutation_writer) res" where
  "submit a w = res_bind (new_request a w) (\<lambda>(r, w'). Inr (mr_serial r, enqueue r w'))"

definition submit_grouped :: "('db, 'k, 'i, 'v) request_args \<Rightarrow> ('db, 'k, 'i, 'v) mutation_writer \<Rightarrow>
    (int \<times> ('db, 'k, 'i, 'v) mutation_writer) res" where
  "submit_grouped a w = (if ra_group_key a = None then Inl (ValueError ''group_key must not be None'') else submit a w)"

definition urgent_queued :: "('db, 'k, 'i, 'v) mutation_writer \<Rightarrow> bool" where
  "urgent_queued w = (\<exists>r\<in>set (mw_queue w). mr_priority r \<le> 5)"

definition refresh_urgent_signal :: "('db, 'k, 'i, 'v) mutation_writer \<Rightarrow> ('db, 'k, 'i, 'v) mutation_writer" where
  "refresh_urgent_signal w = (if urgent_queued w then w else w\<lparr>mw_urgent_pending := False\<rparr>)"

definition barrier_open :: "int option \<Rightarrow> ('db, 'k, 'i, 'v) mutation_writer \<Rightarrow> bool" where
  "barrier_open serial w = (\<not> mw_completed_through w < (case serial of None \<Rightarrow> mw_serial w | Some s \<Rightarrow> s))"

text \<open>The local part of \<open>diagnostics\<close>.\<close>

record writer_diagnostics =
  wd_queued :: nat
  wd_urgent :: nat
  wd_queued_by_priority :: "(int \<times> nat) list"
  wd_durability_backlog :: int
  wd_pending_mutations :: nat
  wd_completion_heap_entries :: nat

definition diagnostics :: "('db, 'k, 'i, 'v) mutation_writer \<Rightarrow> writer_diagnostics" where
  "diagnostics w = \<lparr>
     wd_queued = length (mw_queue w),
     wd_urgent = length (filter (\<lambda>r. mr_priority r \<le> 5) (mw_queue w)),
     wd_queued_by_priority = map (\<lambda>p. (p, length (filter (\<lambda>r. mr_priority r = p) (mw_queue w))))
       (sorted_set (map mr_priority (mw_queue w))),
     wd_durability_backlog = max 0 (mw_serial w - mw_completed_through w),
     wd_pending_mutations = card (mw_pending_serials w),
     wd_completion_heap_entries = length (mw_pending_serial_heap w)\<rparr>"

section \<open>Collecting a batch\<close>

definition batch_limits :: "('db, 'k, 'i, 'v) mutation_writer \<Rightarrow> int \<Rightarrow> int \<times> int" where
  "batch_limits w priority =
     (if priority \<ge> 20 then (min (mw_max_batch w) 128, 128)
      else if priority > 5 then (min (mw_max_batch w) 256, mw_claim_transaction_rows w)
      else (min (mw_max_batch w) 128, 128))"

definition batch_weight :: "('db, 'k, 'i, 'v) mutation_request list \<Rightarrow> int" where
  "batch_weight b = sum_list (map mr_weight b)"

text \<open>
  One iteration of the loop of \<open>_collect_batch\<close> at the clock reading \<open>now\<close>: \<open>Inl\<close> ends it. \<open>get\<close> waits until the
  deadline, so a queue that is still empty ends the loop.
\<close>

definition collect_more :: "rat \<Rightarrow> rat \<Rightarrow> ('db, 'k, 'i, 'v) mutation_request list \<Rightarrow> ('db, 'k, 'i, 'v) mutation_writer \<Rightarrow>
    ('db, 'k, 'i, 'v) mutation_writer + ('db, 'k, 'i, 'v) mutation_request list \<times> ('db, 'k, 'i, 'v) mutation_writer" where
  "collect_more deadline now batch w =
     (let priority = mr_priority (hd batch); (batch_limit, weight_limit) = batch_limits w priority in
      if \<not> int (length batch) < batch_limit then Inl w
      else if deadline - now \<le> 0 then Inl w
      else case mw_queue w of
        [] \<Rightarrow> Inl w
      | candidate # rest \<Rightarrow>
          if mr_priority candidate \<noteq> priority then Inl (w\<lparr>mw_queue := queue_put candidate rest\<rparr>)
          else if batch_weight batch + mr_weight candidate > weight_limit then Inl (w\<lparr>mw_queue := queue_put candidate rest\<rparr>)
          else Inr (batch @ [candidate], w\<lparr>mw_queue := rest\<rparr>))"

lemma collect_more_grows: "collect_more d t b w = Inr (b', w') \<Longrightarrow> length b' = Suc (length b) \<and> length b < 256"
  by (auto simp: collect_more_def batch_limits_def Let_def split: if_splits list.splits)

text \<open>
  The loop: \<open>polls n\<close> holds the clock reading of the iteration with \<open>n\<close> collected requests and the requests other
  threads put while it waits.
\<close>

function collect_loop :: "(nat \<Rightarrow> rat \<times> ('db, 'k, 'i, 'v) mutation_request list) \<Rightarrow> rat \<Rightarrow> ('db, 'k, 'i, 'v) mutation_request list \<Rightarrow>
    ('db, 'k, 'i, 'v) mutation_writer \<Rightarrow> ('db, 'k, 'i, 'v) mutation_request list \<times> ('db, 'k, 'i, 'v) mutation_writer" where
  "collect_loop polls deadline batch w =
     (case collect_more deadline (fst (polls (length batch))) batch (fold enqueue (snd (polls (length batch))) w) of
        Inl w' \<Rightarrow> (batch, w')
      | Inr (batch', w') \<Rightarrow> collect_loop polls deadline batch' w')"
  by pat_completeness auto
termination by (relation "measure (\<lambda>(polls, deadline, batch, w). 256 - length batch)") (auto dest!: collect_more_grows)

definition collect_batch :: "(nat \<Rightarrow> rat \<times> ('db, 'k, 'i, 'v) mutation_request list) \<Rightarrow> rat \<Rightarrow> ('db, 'k, 'i, 'v) mutation_request \<Rightarrow>
    ('db, 'k, 'i, 'v) mutation_writer \<Rightarrow> ('db, 'k, 'i, 'v) mutation_request list \<times> ('db, 'k, 'i, 'v) mutation_writer" where
  "collect_batch polls started first_request w = collect_loop polls (started + mr_collect_seconds first_request) [first_request] w"

section \<open>Executing a batch\<close>

datatype ('db, 'k, 'i, 'v) batch_unit = SingleUnit "('db, 'k, 'i, 'v) mutation_request" | GroupUnit 'k

text \<open>The first loop of \<open>_execute_batch\<close>: the units in order and the requests of each group.\<close>

fun batch_units :: "('db, 'k, 'i, 'v) mutation_request list \<Rightarrow> ('k \<times> ('db, 'k, 'i, 'v) mutation_request list) list \<Rightarrow>
    ('db, 'k, 'i, 'v) batch_unit list \<Rightarrow> ('k \<times> ('db, 'k, 'i, 'v) mutation_request list) list \<times> ('db, 'k, 'i, 'v) batch_unit list" where
  "batch_units [] grouped units = (grouped, units)"
| "batch_units (r # rs) grouped units = (case mr_group_key r of
     None \<Rightarrow> batch_units rs grouped (units @ [SingleUnit r])
   | Some k \<Rightarrow> (case dict_get grouped k of
       None \<Rightarrow> batch_units rs (dict_set grouped k [r]) (units @ [GroupUnit k])
     | Some g \<Rightarrow> batch_units rs (dict_set grouped k (g @ [r])) units))"

definition run_single :: "('db, 'k, 'i, 'v) mutation_request \<Rightarrow> 'db \<Rightarrow> 'db \<times> 'v res" where
  "run_single r db = (case mr_operation r of
     None \<Rightarrow> (db, Inl (TypeError ''object is not callable''))
   | Some operation \<Rightarrow> operation db)"

definition run_group :: "('db, 'k, 'i, 'v) mutation_request list \<Rightarrow> 'db \<Rightarrow> 'db \<times> 'v outcome list res" where
  "run_group g db = (case g of
     [] \<Rightarrow> (db, Inl (RuntimeError ''list index out of range''))
   | r # _ \<Rightarrow> (case mr_group_operation r of
       None \<Rightarrow> (db, Inl (TypeError ''object is not callable''))
     | Some operation \<Rightarrow> (case operation db (map mr_group_item g) of
         (db', Inl e) \<Rightarrow> (db', Inl e)
       | (db', Inr outs) \<Rightarrow>
           if length outs \<noteq> length g
           then (db', Inl (RuntimeError ''grouped SQLite mutation returned the wrong number of outcomes''))
           else (db', Inr outs))))"

definition group_outcome :: "'v outcome \<Rightarrow> 'v outcome" where
  "group_outcome out = (case out of
     (False, PVal v) \<Rightarrow> (False, PExn (RuntimeError ''str(result)''))
   | _ \<Rightarrow> out)"

text \<open>One unit under its savepoint: the database after it and the outcomes it adds.\<close>

definition execute_unit :: "('k \<times> ('db, 'k, 'i, 'v) mutation_request list) list \<Rightarrow> ('db, 'k, 'i, 'v) batch_unit \<Rightarrow> 'db \<Rightarrow>
    'db \<times> (int \<times> 'v outcome) list" where
  "execute_unit grouped u db = (case u of
     SingleUnit r \<Rightarrow> (case run_single r db of
         (db', Inl e) \<Rightarrow> (db, [(mr_serial r, False, PExn e)])
       | (db', Inr v) \<Rightarrow> (db', [(mr_serial r, True, PVal v)]))
   | GroupUnit k \<Rightarrow> (let g = (case dict_get grouped k of None \<Rightarrow> [] | Some g \<Rightarrow> g) in
       case run_group g db of
         (db', Inl e) \<Rightarrow> (db, map (\<lambda>r. (mr_serial r, False, PExn e)) g)
       | (db', Inr outs) \<Rightarrow> (db', zip (map mr_serial g) (map group_outcome outs))))"

fun execute_units :: "('k \<times> ('db, 'k, 'i, 'v) mutation_request list) list \<Rightarrow> ('db, 'k, 'i, 'v) batch_unit list \<Rightarrow> 'db \<Rightarrow>
    (int \<times> 'v outcome) list \<Rightarrow> 'db \<times> (int \<times> 'v outcome) list" where
  "execute_units grouped [] db outcomes = (db, outcomes)"
| "execute_units grouped (u # us) db outcomes = (case execute_unit grouped u db of
     (db', outs) \<Rightarrow> execute_units grouped us db' (fold (\<lambda>(s, out) d. dict_set d s out) outs outcomes))"

definition execute_batch :: "('db, 'k, 'i, 'v) mutation_request list \<Rightarrow> 'db \<Rightarrow> 'db \<times> (int \<times> 'v outcome) list" where
  "execute_batch rs db = (case batch_units rs [] [] of (grouped, units) \<Rightarrow> execute_units grouped units db [])"

text \<open>
  The transaction around a batch in \<open>_run\<close>: when opening or committing it raises, nothing of the batch is in
  the database and every request fails with that error.
\<close>

definition transact_batch :: "('db, 'k, 'i, 'v) mutation_request list \<Rightarrow> exn option \<Rightarrow> 'db \<Rightarrow> 'db \<times> (int \<times> 'v outcome) list" where
  "transact_batch rs failure db = (case failure of
     Some e \<Rightarrow> (db, map (\<lambda>r. (mr_serial r, False, PExn e)) rs)
   | None \<Rightarrow> execute_batch rs db)"

section \<open>Completing a batch\<close>

definition resolve_future :: "int \<Rightarrow> 'v outcome \<Rightarrow> (int \<Rightarrow> 'v future) \<Rightarrow> (int \<Rightarrow> 'v future)" where
  "resolve_future s out fs = (case fs s of Unresolved \<Rightarrow> fs(s := Resolved out) | _ \<Rightarrow> fs)"

definition record_completed :: "('db, 'k, 'i, 'v) mutation_request list \<Rightarrow> ('db, 'k, 'i, 'v) mutation_writer \<Rightarrow> ('db, 'k, 'i, 'v) mutation_writer" where
  "record_completed rs w =
     (let pending = mw_pending_serials w - set (map mr_serial rs);
          popped = dropWhile (\<lambda>s. s \<notin> pending) (mw_pending_serial_heap w);
          heap = (if length popped > 2 * card pending + 1024 then sorted_list_of_set pending else popped) in
      w\<lparr>mw_pending_serials := pending, mw_pending_serial_heap := heap,
        mw_completed_through := (case heap of [] \<Rightarrow> mw_serial w | s # _ \<Rightarrow> s - 1)\<rparr>)"

text \<open>\<open>_finish_batch\<close>; the lookup of a missing outcome is the \<open>KeyError\<close> that would end the writer thread.\<close>

fun resolve_all :: "('db, 'k, 'i, 'v) mutation_request list \<Rightarrow> (int \<times> 'v outcome) list \<Rightarrow> (int \<Rightarrow> 'v future) \<Rightarrow> (int \<Rightarrow> 'v future) res" where
  "resolve_all [] outcomes fs = Inr fs"
| "resolve_all (r # rs) outcomes fs = (case dict_get outcomes (mr_serial r) of
     None \<Rightarrow> Inl (KeyError ''serial'')
   | Some out \<Rightarrow> resolve_all rs outcomes (resolve_future (mr_serial r) out fs))"

definition finish_batch :: "('db, 'k, 'i, 'v) mutation_request list \<Rightarrow> (int \<times> 'v outcome) list \<Rightarrow> ('db, 'k, 'i, 'v) mutation_writer \<Rightarrow>
    ('db, 'k, 'i, 'v) mutation_writer res" where
  "finish_batch rs outcomes w =
     res_bind (resolve_all rs outcomes (mw_futures w)) (\<lambda>fs. Inr (record_completed rs (w\<lparr>mw_futures := fs\<rparr>)))"

definition begin_batch :: "('db, 'k, 'i, 'v) mutation_request list \<Rightarrow> ('db, 'k, 'i, 'v) mutation_writer \<Rightarrow> ('db, 'k, 'i, 'v) mutation_writer" where
  "begin_batch batch w = w\<lparr>mw_active_priority := Some (mr_priority (hd batch)), mw_active_batch_size := length batch\<rparr>"

definition end_batch :: "('db, 'k, 'i, 'v) mutation_writer \<Rightarrow> ('db, 'k, 'i, 'v) mutation_writer" where
  "end_batch w = w\<lparr>mw_active_priority := None, mw_active_batch_size := 0\<rparr>"

definition retire_if_idle :: "('db, 'k, 'i, 'v) mutation_writer \<Rightarrow> ('db, 'k, 'i, 'v) mutation_writer" where
  "retire_if_idle w = (if mw_queue w = [] then w\<lparr>mw_thread := False\<rparr> else w)"

text \<open>One turn of the loop of \<open>_run\<close>, with the arrivals and readings of its collection and the fate of its transaction.\<close>

definition run_turn :: "(nat \<Rightarrow> rat \<times> ('db, 'k, 'i, 'v) mutation_request list) \<Rightarrow> rat \<Rightarrow> exn option \<Rightarrow> ('db, 'k, 'i, 'v) mutation_writer \<times> 'db \<Rightarrow>
    (('db, 'k, 'i, 'v) mutation_writer \<times> 'db) res" where
  "run_turn polls started failure wd = (case wd of (w, db) \<Rightarrow> (case mw_queue w of
     [] \<Rightarrow> Inr (retire_if_idle w, db)
   | r # rest \<Rightarrow> (case collect_batch polls started r (w\<lparr>mw_queue := rest\<rparr>) of
       (batch, w1) \<Rightarrow> (case transact_batch batch failure db of
         (db', outcomes) \<Rightarrow> res_bind (finish_batch batch outcomes (begin_batch batch w1)) (\<lambda>w2.
           let w3 = end_batch w2;
               w4 = (if mr_priority r \<le> 5 then refresh_urgent_signal w3 else w3) in
           Inr (retire_if_idle w4, db'))))))"

section \<open>The threads\<close>

text \<open>
  Callers and the writer thread interleave: a caller reserves a serial, signals urgency and puts its request in
  three separate critical sections, and may cancel its future at any time; the writer thread is at one of the
  points of \<open>_run\<close>. The log keeps the executed batches with the failure of their transaction, if any.
\<close>

datatype ('db, 'k, 'i, 'v) phase =
    Waiting
  | Collecting "('db, 'k, 'i, 'v) mutation_request list" rat
  | Executing "('db, 'k, 'i, 'v) mutation_request list"
  | Finishing "('db, 'k, 'i, 'v) mutation_request list" "(int \<times> 'v outcome) list"
  | Refreshing
  | Clearing
  | Retiring

record ('db, 'k, 'i, 'v) writer_sys =
  ws_writer :: "('db, 'k, 'i, 'v) mutation_writer"
  ws_db :: 'db
  ws_reserved :: "('db, 'k, 'i, 'v) mutation_request list"
  ws_signalled :: "('db, 'k, 'i, 'v) mutation_request list"
  ws_phase :: "('db, 'k, 'i, 'v) phase"
  ws_log :: "(('db, 'k, 'i, 'v) mutation_request list \<times> exn option) list"

inductive writer_step :: "('db, 'k, 'i, 'v) writer_sys \<Rightarrow> ('db, 'k, 'i, 'v) writer_sys \<Rightarrow> bool" where
  reserve: "new_request a (ws_writer s) = Inr (r, w') \<Longrightarrow>
    writer_step s (s\<lparr>ws_writer := w', ws_reserved := r # ws_reserved s\<rparr>)"
| signal: "ws_reserved s = xs @ r # ys \<Longrightarrow>
    writer_step s (s\<lparr>ws_writer := enqueue_signal r (ws_writer s), ws_reserved := xs @ ys, ws_signalled := r # ws_signalled s\<rparr>)"
| put: "ws_signalled s = xs @ r # ys \<Longrightarrow>
    writer_step s (s\<lparr>ws_writer := enqueue_put r (ws_writer s), ws_signalled := xs @ ys\<rparr>)"
| cancel: "mw_futures (ws_writer s) u = Unresolved \<Longrightarrow>
    writer_step s (s\<lparr>ws_writer := (ws_writer s)\<lparr>mw_futures := (mw_futures (ws_writer s))(u := CancelledFuture)\<rparr>\<rparr>)"
| get: "ws_phase s = Waiting \<Longrightarrow> mw_thread (ws_writer s) \<Longrightarrow> mw_queue (ws_writer s) = r # rest \<Longrightarrow>
    writer_step s (s\<lparr>ws_writer := (ws_writer s)\<lparr>mw_queue := rest\<rparr>, ws_phase := Collecting [r] (now + mr_collect_seconds r)\<rparr>)"
| more: "ws_phase s = Collecting b d \<Longrightarrow> collect_more d now b (ws_writer s) = Inr (b', w') \<Longrightarrow>
    writer_step s (s\<lparr>ws_writer := w', ws_phase := Collecting b' d\<rparr>)"
| stop: "ws_phase s = Collecting b d \<Longrightarrow> collect_more d now b (ws_writer s) = Inl w' \<Longrightarrow>
    writer_step s (s\<lparr>ws_writer := begin_batch b w', ws_phase := Executing b\<rparr>)"
| transact: "ws_phase s = Executing b \<Longrightarrow> transact_batch b failure (ws_db s) = (db', outcomes) \<Longrightarrow>
    writer_step s (s\<lparr>ws_db := db', ws_phase := Finishing b outcomes, ws_log := ws_log s @ [(b, failure)]\<rparr>)"
| finish: "ws_phase s = Finishing b outcomes \<Longrightarrow> finish_batch b outcomes (ws_writer s) = Inr w' \<Longrightarrow>
    writer_step s (s\<lparr>ws_writer := end_batch w', ws_phase := (if mr_priority (hd b) \<le> 5 then Refreshing else Retiring)\<rparr>)"
| refresh: "ws_phase s = Refreshing \<Longrightarrow>
    writer_step s (s\<lparr>ws_phase := (if urgent_queued (ws_writer s) then Retiring else Clearing)\<rparr>)"
| clear: "ws_phase s = Clearing \<Longrightarrow>
    writer_step s (s\<lparr>ws_writer := (ws_writer s)\<lparr>mw_urgent_pending := False\<rparr>, ws_phase := Retiring\<rparr>)"
| retire: "ws_phase s = Retiring \<Longrightarrow>
    writer_step s (s\<lparr>ws_writer := retire_if_idle (ws_writer s), ws_phase := Waiting\<rparr>)"
| idle: "ws_phase s = Waiting \<Longrightarrow> mw_thread (ws_writer s) \<Longrightarrow> mw_queue (ws_writer s) = [] \<Longrightarrow>
    writer_step s (s\<lparr>ws_writer := retire_if_idle (ws_writer s)\<rparr>)"

definition writer_start :: "('db, 'k, 'i, 'v) mutation_writer \<Rightarrow> 'db \<Rightarrow> ('db, 'k, 'i, 'v) writer_sys" where
  "writer_start w db = \<lparr>ws_writer = w, ws_db = db, ws_reserved = [], ws_signalled = [], ws_phase = Waiting, ws_log = []\<rparr>"

inductive writer_reachable :: "'db \<Rightarrow> ('db, 'k, 'i, 'v) writer_sys \<Rightarrow> bool" for db where
  start: "new_writer m c rows = Inr w \<Longrightarrow> writer_reachable db (writer_start w db)"
| step: "writer_reachable db s \<Longrightarrow> writer_step s s' \<Longrightarrow> writer_reachable db s'"

text \<open>The database and the outcomes after a log of batches.\<close>

fun replay :: "(('db, 'k, 'i, 'v) mutation_request list \<times> exn option) list \<Rightarrow> 'db \<Rightarrow> 'db \<times> (int \<times> 'v outcome) list" where
  "replay [] db = (db, [])"
| "replay ((b, failure) # rest) db = (case transact_batch b failure db of
     (db', outs) \<Rightarrow> (case replay rest db' of (db'', outs') \<Rightarrow> (db'', outs @ outs')))"

lemma replay_snoc:
  "replay (l @ [(b, failure)]) db = (case replay l db of (db', outs) \<Rightarrow>
     (case transact_batch b failure db' of (db'', outs') \<Rightarrow> (db'', outs @ outs')))"
  by (induction l db rule: replay.induct) (auto split: prod.splits)

fun phase_requests :: "('db, 'k, 'i, 'v) phase \<Rightarrow> ('db, 'k, 'i, 'v) mutation_request list" where
  "phase_requests (Collecting b d) = b"
| "phase_requests (Executing b) = b"
| "phase_requests (Finishing b outs) = b"
| "phase_requests _ = []"

definition in_flight :: "('db, 'k, 'i, 'v) writer_sys \<Rightarrow> int list" where
  "in_flight s = map mr_serial (ws_reserved s @ ws_signalled s @ mw_queue (ws_writer s) @ phase_requests (ws_phase s))"

section \<open>The invariant of the bookkeeping\<close>

definition writer_inv :: "('db, 'k, 'i, 'v) mutation_writer \<Rightarrow> int list \<Rightarrow> bool" where
  "writer_inv w ids \<longleftrightarrow> distinct ids \<and> mw_pending_serials w = set ids \<and> set ids \<subseteq> {1..mw_serial w} \<and> 0 \<le> mw_serial w \<and>
     sorted (mw_pending_serial_heap w) \<and> set ids \<subseteq> set (mw_pending_serial_heap w) \<and>
     set (mw_pending_serial_heap w) \<subseteq> {1..mw_serial w} \<and> length (mw_pending_serial_heap w) \<le> 2 * length ids + 1024 \<and>
     mw_completed_through w = (if ids = [] then mw_serial w else Min (set ids) - 1) \<and>
     (\<forall>u\<in>{1..mw_serial w} - set ids. mw_futures w u \<noteq> Unresolved)"

lemma writer_invD:
  assumes "writer_inv w ids"
  shows "distinct ids" "mw_pending_serials w = set ids" "set ids \<subseteq> {1..mw_serial w}" "0 \<le> mw_serial w"
    "sorted (mw_pending_serial_heap w)" "set ids \<subseteq> set (mw_pending_serial_heap w)"
    "set (mw_pending_serial_heap w) \<subseteq> {1..mw_serial w}" "length (mw_pending_serial_heap w) \<le> 2 * length ids + 1024"
    "mw_completed_through w = (if ids = [] then mw_serial w else Min (set ids) - 1)"
    "\<And>u. u \<in> {1..mw_serial w} - set ids \<Longrightarrow> mw_futures w u \<noteq> Unresolved"
  by (insert assms, unfold writer_inv_def, (elim conjE, assumption)+, elim conjE, erule bspec)

lemma writer_inv_perm: "mset ids = mset ids' \<Longrightarrow> writer_inv w ids = writer_inv w ids'"
proof -
  assume m: "mset ids = mset ids'"
  then have "set ids = set ids'" "distinct ids = distinct ids'" "length ids = length ids'" "(ids = []) = (ids' = [])"
    by (auto dest: mset_eq_setD mset_eq_imp_distinct_iff mset_eq_length)
  then show ?thesis unfolding writer_inv_def by presburger
qed

lemma writer_inv_frame:
  assumes "mw_serial w' = mw_serial w" "mw_pending_serials w' = mw_pending_serials w"
    and "mw_pending_serial_heap w' = mw_pending_serial_heap w" "mw_completed_through w' = mw_completed_through w"
    and "\<And>u. mw_futures w u \<noteq> Unresolved \<Longrightarrow> mw_futures w' u \<noteq> Unresolved"
    and "writer_inv w ids"
  shows "writer_inv w' ids"
  using assms unfolding writer_inv_def by simp

lemma new_request_facts:
  assumes "new_request a w = Inr (r, w')"
  shows "mr_serial r = mw_serial w + 1" "mw_serial w' = mw_serial w + 1"
    "mw_pending_serials w' = insert (mw_serial w + 1) (mw_pending_serials w)"
    "mw_pending_serial_heap w' = insort (mw_serial w + 1) (mw_pending_serial_heap w)"
    "mw_completed_through w' = mw_completed_through w" "mw_futures w' = mw_futures w"
    "mw_queue w' = mw_queue w" "mw_thread w' = mw_thread w" "1 \<le> mr_weight r" "mw_urgent_pending w' = mw_urgent_pending w"
  using assms by (auto simp: new_request_def Let_def split: pynum.splits if_splits)

lemma writer_inv_new_request:
  assumes "new_request a w = Inr (r, w')" "writer_inv w ids"
  shows "writer_inv w' (mr_serial r # ids)"
proof -
  have min: "Min (insert (mw_serial w + 1) (set ids)) = (if ids = [] then mw_serial w + 1 else Min (set ids))"
  proof (cases "ids = []")
    case False
    then have "Min (set ids) \<in> set ids" by simp
    then have "Min (set ids) \<le> mw_serial w" using assms(2) by (auto simp: writer_inv_def simp del: Min_in)
    then have "min (mw_serial w + 1) (Min (set ids)) = Min (set ids)" by linarith
    then show ?thesis using False by (subst Min_insert) auto
  qed simp
  show ?thesis
    using assms(2) new_request_facts [OF assms(1)] min
    by (auto simp: writer_inv_def sorted_insort set_insort_key)
qed

lemma set_dropWhile_subset: "set (dropWhile p xs) \<subseteq> set xs"
  by (auto dest: set_dropWhileD)

text \<open>Removing the stale heads of the sorted heap leaves the least pending serial in front.\<close>

lemma drop_stale:
  assumes "sorted h" "P \<subseteq> set h"
  shows "P \<subseteq> set (dropWhile (\<lambda>s. s \<notin> P) h)" "sorted (dropWhile (\<lambda>s. s \<notin> P) h)"
    "dropWhile (\<lambda>s. s \<notin> P) h = s # t \<Longrightarrow> s \<in> P \<and> (\<forall>p\<in>P. s \<le> p)"
proof -
  show sub: "P \<subseteq> set (dropWhile (\<lambda>s. s \<notin> P) h)"
  proof
    fix p assume "p \<in> P"
    then show "p \<in> set (dropWhile (\<lambda>s. s \<notin> P) h)"
      using assms(2) set_takeWhileD [of p "\<lambda>s. s \<notin> P" h] takeWhile_dropWhile_id [of "\<lambda>s. s \<notin> P" h]
      by (metis Un_iff set_append subsetD)
  qed
  show so: "sorted (dropWhile (\<lambda>s. s \<notin> P) h)" using assms(1) by (rule sorted_dropWhile)
  assume e: "dropWhile (\<lambda>s. s \<notin> P) h = s # t"
  then have "s \<in> P" using hd_dropWhile [of "\<lambda>s. s \<notin> P" h] by force
  moreover have "\<forall>p\<in>P. s \<le> p" using so sub unfolding e by auto
  ultimately show "s \<in> P \<and> (\<forall>p\<in>P. s \<le> p)" by simp
qed

lemma record_completed_inv:
  assumes inv: "writer_inv w (map mr_serial rs @ ids)"
    and settled: "\<And>r. r \<in> set rs \<Longrightarrow> mw_futures w (mr_serial r) \<noteq> Unresolved"
  shows "writer_inv (record_completed rs w) ids"
proof -
  define P where "P = mw_pending_serials w - set (map mr_serial rs)"
  define h where "h = dropWhile (\<lambda>s. s \<notin> P) (mw_pending_serial_heap w)"
  define h' where "h' = (if length h > 2 * card P + 1024 then sorted_list_of_set P else h)"
  have P: "P = set ids" using inv by (auto simp: writer_inv_def P_def)
  have cardP: "card P = length ids" using inv by (simp add: writer_inv_def P distinct_card)
  have heap: "sorted (mw_pending_serial_heap w)" "P \<subseteq> set (mw_pending_serial_heap w)"
    using inv unfolding P by (auto simp: writer_inv_def)
  have h: "P \<subseteq> set h" "sorted h" "\<And>s t. h = s # t \<Longrightarrow> s \<in> P \<and> (\<forall>p\<in>P. s \<le> p)"
    unfolding h_def using drop_stale [OF heap] by blast+
  have "set h \<subseteq> set (mw_pending_serial_heap w)" "finite P" unfolding h_def P by (simp_all add: set_dropWhile_subset)
  then have h': "P \<subseteq> set h'" "sorted h'" "set h' \<subseteq> set (mw_pending_serial_heap w)"
    unfolding h'_def using h(1,2) heap(2) by simp_all
  have len: "length h' \<le> 2 * length ids + 1024" using inv by (auto simp: h'_def cardP P distinct_card writer_inv_def)
  have hd': "s \<in> P \<and> (\<forall>p\<in>P. s \<le> p)" if e: "h' = s # t" for s t
  proof (cases "length h > 2 * card P + 1024")
    case True
    then have e': "sorted_list_of_set P = s # t" using e by (simp add: h'_def)
    then have "set (s # t) = P" "sorted (s # t)" using P by (metis List.finite_set set_sorted_list_of_set, metis sorted_sorted_list_of_set)
    then show ?thesis by auto
  qed (use e h(3) h'_def in auto)
  have comp: "(case h' of [] \<Rightarrow> mw_serial w | s # _ \<Rightarrow> s - 1) = (if ids = [] then mw_serial w else Min (set ids) - 1)"
  proof (cases h')
    case Nil
    then show ?thesis using h'(1) P by simp
  next
    case (Cons s t)
    then have s: "s \<in> set ids" "\<And>p. p \<in> set ids \<Longrightarrow> s \<le> p" using hd' [OF Cons] P by simp_all
    then have "Min (set ids) = s" by (intro Min_eqI) simp_all
    moreover have "ids \<noteq> []" using s(1) by (cases ids) simp_all
    ultimately show ?thesis using Cons by simp
  qed
  have rc: "record_completed rs w = w\<lparr>mw_pending_serials := P, mw_pending_serial_heap := h',
      mw_completed_through := (case h' of [] \<Rightarrow> mw_serial w | s # _ \<Rightarrow> s - 1)\<rparr>"
    by (simp add: record_completed_def Let_def P_def h_def h'_def)
  have bits: "distinct ids" "set ids \<subseteq> {1..mw_serial w}" "0 \<le> mw_serial w" "set h' \<subseteq> {1..mw_serial w}"
    using writer_invD(1,3,4,7) [OF inv] h'(3) by simp_all
  moreover have "mw_futures w u \<noteq> Unresolved" if "u \<in> {1..mw_serial w} - set ids" for u
  proof (cases "u \<in> set (map mr_serial rs)")
    case True then show ?thesis using settled by auto
  next
    case False then show ?thesis using writer_invD(10) [OF inv, of u] that by simp
  qed
  ultimately show ?thesis
    unfolding writer_inv_def rc using h' len P comp by simp
qed

section \<open>Outcomes of a batch\<close>

definition unit_requests :: "('k \<times> ('db, 'k, 'i, 'v) mutation_request list) list \<Rightarrow> ('db, 'k, 'i, 'v) batch_unit \<Rightarrow>
    ('db, 'k, 'i, 'v) mutation_request list" where
  "unit_requests grouped u = (case u of SingleUnit r \<Rightarrow> [r] | GroupUnit k \<Rightarrow> (case dict_get grouped k of None \<Rightarrow> [] | Some g \<Rightarrow> g))"

lemma run_group_length: "run_group g db = (db', Inr outs) \<Longrightarrow> length outs = length g"
  by (auto simp: run_group_def split: list.splits option.splits prod.splits sum.splits if_splits)

lemma execute_unit_serials: "execute_unit grouped u db = (db', outs) \<Longrightarrow> map fst outs = map mr_serial (unit_requests grouped u)"
  by (auto simp: execute_unit_def unit_requests_def Let_def o_def split: batch_unit.splits prod.splits sum.splits option.splits
      dest: run_group_length)

lemma unit_requests_simps [simp]:
  "unit_requests grouped (SingleUnit r) = [r]"
  "dict_get grouped k = Some g \<Longrightarrow> unit_requests grouped (GroupUnit k) = g"
  "unit_requests (dict_set grouped k g) (GroupUnit k) = g"
  by (simp_all add: unit_requests_def dict_simps)

fun unit_keys :: "('db, 'k, 'i, 'v) batch_unit list \<Rightarrow> 'k list" where
  "unit_keys [] = []"
| "unit_keys (SingleUnit r # us) = unit_keys us"
| "unit_keys (GroupUnit k # us) = k # unit_keys us"

lemma unit_keys_append [simp]: "unit_keys (us @ vs) = unit_keys us @ unit_keys vs"
  by (induction us rule: unit_keys.induct) auto

lemma unit_keys_iff: "k \<in> set (unit_keys us) \<longleftrightarrow> GroupUnit k \<in> set us"
  by (induction us rule: unit_keys.induct) auto

lemma unit_requests_other:
  "k \<notin> set (unit_keys us) \<Longrightarrow> map (unit_requests (dict_set grouped k g)) us = map (unit_requests grouped) us"
  by (induction us rule: unit_keys.induct) (auto simp: unit_requests_def dict_simps)

lemma unit_requests_grow:
  assumes "dict_get grouped k = Some g" "k \<in> set (unit_keys us)" "distinct (unit_keys us)"
  shows "mset (concat (map (unit_requests (dict_set grouped k (g @ [r]))) us)) =
    add_mset r (mset (concat (map (unit_requests grouped) us)))"
proof -
  obtain xs ys where us: "us = xs @ GroupUnit k # ys" using assms(2) unit_keys_iff by (metis split_list)
  then have "k \<notin> set (unit_keys xs)" "k \<notin> set (unit_keys ys)" using assms(3) by auto
  then show ?thesis using assms(1) by (simp add: us unit_requests_other)
qed

text \<open>The units of a batch hold its requests, each once.\<close>

lemma batch_units_requests:
  assumes "batch_units rs grouped units = (grouped', units')"
    and "\<forall>k. (dict_get grouped k = None) = (k \<notin> set (unit_keys units))"
    and "distinct (unit_keys units)"
  shows "mset (concat (map (unit_requests grouped') units')) = mset (concat (map (unit_requests grouped) units)) + mset rs"
  using assms
proof (induction rs grouped units rule: batch_units.induct)
  case (2 r rs grouped units)
  show ?case
  proof (cases "mr_group_key r")
    case None
    then show ?thesis using 2 by simp
  next
    case (Some k)
    show ?thesis
    proof (cases "dict_get grouped k")
      case None
      then have k: "k \<notin> set (unit_keys units)" using 2(5) by blast
      have "mset (concat (map (unit_requests grouped') units')) =
          mset (concat (map (unit_requests (dict_set grouped k [r])) (units @ [GroupUnit k]))) + mset rs"
        using 2(2) [OF Some None] 2(4-6) Some None k by (simp add: dict_simps)
      then show ?thesis using k by (simp add: unit_requests_other)
    next
      case g: (Some g)
      then have k: "k \<in> set (unit_keys units)" using 2(5) by (metis option.distinct(1))
      have "mset (concat (map (unit_requests grouped') units')) =
          mset (concat (map (unit_requests (dict_set grouped k (g @ [r]))) units)) + mset rs"
        using 2(3) [OF Some g] 2(4-6) Some g k by (simp add: dict_simps)
      then show ?thesis using unit_requests_grow [OF g k 2(6)] by simp
    qed
  qed
qed simp

lemma dict_keys_fold:
  "set (dict_keys (fold (\<lambda>(s, out) d. dict_set d s out) outs d)) = set (dict_keys d) \<union> set (map fst outs)"
  by (induction outs arbitrary: d) (auto simp: dict_simps split: if_splits)

lemma execute_units_keys:
  "execute_units grouped us db outcomes = (db', outcomes') \<Longrightarrow>
    set (dict_keys outcomes') = set (dict_keys outcomes) \<union> set (map mr_serial (concat (map (unit_requests grouped) us)))"
proof (induction us arbitrary: db outcomes)
  case (Cons u us)
  obtain db1 outs where u: "execute_unit grouped u db = (db1, outs)" by fastforce
  have "set (map fst outs) = set (map mr_serial (unit_requests grouped u))" using execute_unit_serials [OF u] by simp
  then show ?case
    using Cons.IH [of db1] Cons.prems by (auto simp: u dict_keys_fold)
qed simp

lemma execute_batch_keys:
  assumes "execute_batch rs db = (db', outcomes)"
  shows "set (dict_keys outcomes) = set (map mr_serial rs)"
proof -
  obtain grouped us where b: "batch_units rs [] [] = (grouped, us)" by fastforce
  have "mset (concat (map (unit_requests grouped) us)) = mset rs"
    using batch_units_requests [OF b] by (simp add: dict_get_def)
  then have "set (concat (map (unit_requests grouped) us)) = set rs" by (rule mset_eq_setD)
  then show ?thesis using execute_units_keys [of grouped us db "[]"] assms
    by (simp add: execute_batch_def b dict_keys_def del: set_concat)
qed

lemma transact_batch_keys:
  "transact_batch rs failure db = (db', outcomes) \<Longrightarrow> set (dict_keys outcomes) = set (map mr_serial rs)"
  by (cases failure) (simp_all add: transact_batch_def execute_batch_keys, force simp: dict_keys_def)

section \<open>The invariant of the threads\<close>

lemma resolve_all_ok:
  assumes "\<forall>r\<in>set rs. mr_serial r \<in> set (dict_keys outs)"
  shows "\<exists>fs'. resolve_all rs outs fs = Inr fs' \<and> (\<forall>r\<in>set rs. fs' (mr_serial r) \<noteq> Unresolved) \<and>
    (\<forall>u. fs u \<noteq> Unresolved \<longrightarrow> fs' u = fs u) \<and> (\<forall>u out. fs' u = Resolved out \<longrightarrow> fs u = Resolved out \<or> (u, out) \<in> set outs)"
  using assms
proof (induction rs arbitrary: fs)
  case (Cons r rs)
  then obtain out where out: "dict_get outs (mr_serial r) = Some out" by (metis dict_get_None_iff list.set_intros(1) not_None_eq)
  then have mem: "(mr_serial r, out) \<in> set outs" by (simp add: dict_get_def map_of_SomeD)
  define f1 where "f1 = resolve_future (mr_serial r) out fs"
  have f1: "f1 (mr_serial r) \<noteq> Unresolved" "\<And>u. fs u \<noteq> Unresolved \<Longrightarrow> f1 u = fs u"
    "\<And>u out'. f1 u = Resolved out' \<Longrightarrow> fs u = Resolved out' \<or> (u, out') \<in> set outs"
    using mem by (auto simp: f1_def resolve_future_def split: future.splits if_splits)
  obtain fs' where fs': "resolve_all rs outs f1 = Inr fs'" "\<forall>r\<in>set rs. fs' (mr_serial r) \<noteq> Unresolved"
    "\<forall>u. f1 u \<noteq> Unresolved \<longrightarrow> fs' u = f1 u" "\<forall>u out. fs' u = Resolved out \<longrightarrow> f1 u = Resolved out \<or> (u, out) \<in> set outs"
    using Cons by (metis list.set_intros(2))
  have "resolve_all (r # rs) outs fs = Inr fs'" using out fs'(1) by (simp add: f1_def)
  moreover have "\<forall>x\<in>set (r # rs). fs' (mr_serial x) \<noteq> Unresolved" using fs'(2,3) f1(1) by auto
  moreover have "\<forall>u. fs u \<noteq> Unresolved \<longrightarrow> fs' u = fs u" using fs'(3) f1(2) by metis
  moreover have "\<forall>u out. fs' u = Resolved out \<longrightarrow> fs u = Resolved out \<or> (u, out) \<in> set outs" using fs'(4) f1(3) by blast
  ultimately show ?case by blast
qed simp

lemma record_completed_frame [simp]:
  "mw_futures (record_completed rs w) = mw_futures w" "mw_queue (record_completed rs w) = mw_queue w"
  "mw_thread (record_completed rs w) = mw_thread w" "mw_serial (record_completed rs w) = mw_serial w"
  "mw_max_batch (record_completed rs w) = mw_max_batch w"
  by (simp_all add: record_completed_def Let_def)

lemma finish_batch_ok:
  assumes inv: "writer_inv w (map mr_serial rs @ ids)" and keys: "set (map mr_serial rs) \<subseteq> set (dict_keys outs)"
  shows "\<exists>w'. finish_batch rs outs w = Inr w' \<and> writer_inv w' ids \<and> mw_queue w' = mw_queue w \<and> mw_thread w' = mw_thread w \<and>
    mw_serial w' = mw_serial w \<and> (\<forall>u out. mw_futures w' u = Resolved out \<longrightarrow> mw_futures w u = Resolved out \<or> (u, out) \<in> set outs)"
proof -
  obtain fs where fs: "resolve_all rs outs (mw_futures w) = Inr fs" "\<forall>r\<in>set rs. fs (mr_serial r) \<noteq> Unresolved"
    "\<forall>u. mw_futures w u \<noteq> Unresolved \<longrightarrow> fs u = mw_futures w u"
    "\<forall>u out. fs u = Resolved out \<longrightarrow> mw_futures w u = Resolved out \<or> (u, out) \<in> set outs"
  proof -
    have "\<forall>r\<in>set rs. mr_serial r \<in> set (dict_keys outs)" using keys by auto
    from resolve_all_ok [OF this, of "mw_futures w"] that show thesis by blast
  qed
  let ?w = "w\<lparr>mw_futures := fs\<rparr>"
  have "writer_inv ?w (map mr_serial rs @ ids)" by (rule writer_inv_frame [OF _ _ _ _ _ inv]) (use fs(3) in auto)
  then have "writer_inv (record_completed rs ?w) ids" by (rule record_completed_inv) (use fs(2) in simp)
  then show ?thesis using fs(1,4) by (simp add: finish_batch_def)
qed

definition logged :: "('db, 'k, 'i, 'v) writer_sys \<Rightarrow> int list" where
  "logged s = map mr_serial (concat (map fst (ws_log s)))"

fun finishing :: "('db, 'k, 'i, 'v) phase \<Rightarrow> ('db, 'k, 'i, 'v) mutation_request list" where
  "finishing (Finishing b outs) = b"
| "finishing _ = []"

definition thread_inv :: "('db, 'k, 'i, 'v) writer_sys \<Rightarrow> bool" where
  "thread_inv s \<longleftrightarrow> (mw_queue (ws_writer s) \<noteq> [] \<or> ws_phase s \<noteq> Waiting \<longrightarrow> mw_thread (ws_writer s))"

definition log_inv :: "'db \<Rightarrow> ('db, 'k, 'i, 'v) writer_sys \<Rightarrow> bool" where
  "log_inv db s \<longleftrightarrow> fst (replay (ws_log s) db) = ws_db s \<and>
     (\<forall>u out. mw_futures (ws_writer s) u = Resolved out \<longrightarrow> (u, out) \<in> set (snd (replay (ws_log s) db))) \<and>
     (\<forall>b outs. ws_phase s = Finishing b outs \<longrightarrow> set (dict_keys outs) = set (map mr_serial b) \<and> set outs \<subseteq> set (snd (replay (ws_log s) db)))"

definition once_inv :: "('db, 'k, 'i, 'v) writer_sys \<Rightarrow> bool" where
  "once_inv s \<longleftrightarrow> distinct (logged s) \<and>
     set (logged s) = ({1..mw_serial (ws_writer s)} - set (in_flight s)) \<union> set (map mr_serial (finishing (ws_phase s)))"

definition sys_inv :: "'db \<Rightarrow> ('db, 'k, 'i, 'v) writer_sys \<Rightarrow> bool" where
  "sys_inv db s \<longleftrightarrow> writer_inv (ws_writer s) (in_flight s) \<and> thread_inv s \<and> log_inv db s \<and> once_inv s"

lemma queue_put_mset [simp]: "mset (queue_put r q) = add_mset r (mset q)"
  by (simp add: queue_put_def)

lemma collect_more_cases:
  obtains (stop) q where "collect_more d t b w = Inl (w\<lparr>mw_queue := q\<rparr>)" "mset q = mset (mw_queue w)"
  | (more) r q where "collect_more d t b w = Inr (b @ [r], w\<lparr>mw_queue := q\<rparr>)" "mw_queue w = r # q"
      "mr_priority r = mr_priority (hd b)" "int (length b) < fst (batch_limits w (mr_priority r))"
      "batch_weight b + mr_weight r \<le> snd (batch_limits w (mr_priority r))"
proof (cases "mw_queue w")
  case Nil
  then have "collect_more d t b w = Inl (w\<lparr>mw_queue := mw_queue w\<rparr>)" by (simp add: collect_more_def Let_def split: prod.splits)
  then show thesis by (rule stop) simp
next
  case (Cons r q)
  obtain bl wl where l: "batch_limits w (mr_priority (hd b)) = (bl, wl)" by fastforce
  show thesis
  proof (cases "int (length b) < bl \<and> 0 < d - t")
    case False
    then have "collect_more d t b w = Inl (w\<lparr>mw_queue := mw_queue w\<rparr>)" using l by (auto simp: collect_more_def Let_def)
    then show thesis by (rule stop) simp
  next
    case True
    show thesis
    proof (cases "mr_priority r = mr_priority (hd b) \<and> batch_weight b + mr_weight r \<le> wl")
      case True2: True
      show thesis using True True2 l Cons by (intro more [of r q]) (simp_all add: collect_more_def Let_def)
    next
      case False
      then have "collect_more d t b w = Inl (w\<lparr>mw_queue := queue_put r q\<rparr>)" using True l Cons by (auto simp: collect_more_def Let_def)
      then show thesis by (rule stop) (simp add: Cons)
    qed
  qed
qed

text \<open>A step that only moves requests between the places in flight keeps the bookkeeping.\<close>

lemma writer_inv_move:
  assumes "mw_serial w' = mw_serial w" "mw_pending_serials w' = mw_pending_serials w"
    and "mw_pending_serial_heap w' = mw_pending_serial_heap w" "mw_completed_through w' = mw_completed_through w"
    and "mw_futures w' = mw_futures w" "mset ids' = mset ids" "writer_inv w ids"
  shows "writer_inv w' ids'"
  using writer_inv_frame [of w' w ids] writer_inv_perm [OF assms(6), of w'] assms by simp

definition moved :: "('db, 'k, 'i, 'v) writer_sys \<Rightarrow> ('db, 'k, 'i, 'v) writer_sys \<Rightarrow> bool" where
  "moved s s' \<longleftrightarrow> (let w = ws_writer s; w' = ws_writer s' in
     mw_serial w' = mw_serial w \<and> mw_pending_serials w' = mw_pending_serials w \<and>
     mw_pending_serial_heap w' = mw_pending_serial_heap w \<and> mw_completed_through w' = mw_completed_through w \<and>
     mw_futures w' = mw_futures w \<and> mset (in_flight s') = mset (in_flight s) \<and> ws_log s' = ws_log s \<and> ws_db s' = ws_db s \<and>
     finishing (ws_phase s') = finishing (ws_phase s) \<and> (\<forall>b outs. ws_phase s' = Finishing b outs \<longrightarrow> ws_phase s = Finishing b outs))"

lemma moved_inv:
  assumes "moved s s'" "sys_inv db s" "thread_inv s'"
  shows "sys_inv db s'"
proof -
  have "set (in_flight s') = set (in_flight s)" using assms(1) by (auto simp: moved_def Let_def dest: mset_eq_setD)
  moreover have "writer_inv (ws_writer s') (in_flight s')"
    using assms by (intro writer_inv_move [of "ws_writer s'" "ws_writer s" "in_flight s'" "in_flight s"]) (auto simp: moved_def Let_def sys_inv_def)
  ultimately show ?thesis using assms by (auto simp: sys_inv_def moved_def Let_def log_inv_def once_inv_def logged_def)
qed

lemma writer_fields_simps [simp]:
  "mw_queue (enqueue_put r w) = queue_put r (mw_queue w)" "mw_thread (enqueue_put r w)"
  "mw_queue (enqueue_signal r w) = mw_queue w" "mw_thread (enqueue_signal r w) = mw_thread w"
  "mw_queue (begin_batch b w) = mw_queue w" "mw_thread (begin_batch b w) = mw_thread w"
  "mw_queue (end_batch w) = mw_queue w" "mw_thread (end_batch w) = mw_thread w"
  "mw_queue (retire_if_idle w) = mw_queue w"
  "mw_serial (enqueue_put r w) = mw_serial w" "mw_pending_serials (enqueue_put r w) = mw_pending_serials w" "mw_futures (enqueue_put r w) = mw_futures w" "mw_pending_serial_heap (enqueue_put r w) = mw_pending_serial_heap w" "mw_completed_through (enqueue_put r w) = mw_completed_through w" "mw_max_batch (enqueue_put r w) = mw_max_batch w" "mw_claim_transaction_rows (enqueue_put r w) = mw_claim_transaction_rows w"
  "mw_serial (enqueue_signal r w) = mw_serial w" "mw_pending_serials (enqueue_signal r w) = mw_pending_serials w" "mw_futures (enqueue_signal r w) = mw_futures w" "mw_pending_serial_heap (enqueue_signal r w) = mw_pending_serial_heap w" "mw_completed_through (enqueue_signal r w) = mw_completed_through w" "mw_max_batch (enqueue_signal r w) = mw_max_batch w" "mw_claim_transaction_rows (enqueue_signal r w) = mw_claim_transaction_rows w"
  "mw_serial (begin_batch b w) = mw_serial w" "mw_pending_serials (begin_batch b w) = mw_pending_serials w" "mw_futures (begin_batch b w) = mw_futures w" "mw_pending_serial_heap (begin_batch b w) = mw_pending_serial_heap w" "mw_completed_through (begin_batch b w) = mw_completed_through w" "mw_max_batch (begin_batch b w) = mw_max_batch w" "mw_claim_transaction_rows (begin_batch b w) = mw_claim_transaction_rows w"
  "mw_serial (end_batch w) = mw_serial w" "mw_pending_serials (end_batch w) = mw_pending_serials w" "mw_futures (end_batch w) = mw_futures w" "mw_pending_serial_heap (end_batch w) = mw_pending_serial_heap w" "mw_completed_through (end_batch w) = mw_completed_through w" "mw_max_batch (end_batch w) = mw_max_batch w" "mw_claim_transaction_rows (end_batch w) = mw_claim_transaction_rows w"
  "mw_serial (retire_if_idle w) = mw_serial w" "mw_pending_serials (retire_if_idle w) = mw_pending_serials w" "mw_futures (retire_if_idle w) = mw_futures w" "mw_pending_serial_heap (retire_if_idle w) = mw_pending_serial_heap w" "mw_completed_through (retire_if_idle w) = mw_completed_through w" "mw_max_batch (retire_if_idle w) = mw_max_batch w" "mw_claim_transaction_rows (retire_if_idle w) = mw_claim_transaction_rows w"
  by (simp_all add: enqueue_put_def enqueue_signal_def begin_batch_def end_batch_def retire_if_idle_def)

lemma sys_inv_reserve:
  assumes "new_request a (ws_writer s) = Inr (r, w')" "sys_inv db s"
  shows "sys_inv db (s\<lparr>ws_writer := w', ws_reserved := r # ws_reserved s\<rparr>)" (is "sys_inv db ?s")
proof -
  note f = new_request_facts [OF assms(1)]
  have fl: "in_flight ?s = mr_serial r # in_flight s" by (simp add: in_flight_def f(7))
  have inv: "writer_inv (ws_writer s) (in_flight s)" and rest: "thread_inv s" "log_inv db s" "once_inv s"
    using assms(2) by (simp_all add: sys_inv_def)
  have "writer_inv w' (in_flight ?s)" unfolding fl by (rule writer_inv_new_request [OF assms(1) inv])
  moreover have "thread_inv ?s" using rest(1) by (simp add: thread_inv_def f)
  moreover have "log_inv db ?s" using rest(2) by (simp add: log_inv_def f)
  moreover have "once_inv ?s"
    using rest(3) writer_invD(4) [OF inv] by (auto simp: once_inv_def fl f logged_def)
  ultimately show ?thesis by (simp add: sys_inv_def)
qed

lemma sys_inv_transact:
  assumes ph: "ws_phase s = Executing b" and tr: "transact_batch b failure (ws_db s) = (db', outcomes)" and inv: "sys_inv db s"
  shows "sys_inv db (s\<lparr>ws_db := db', ws_phase := Finishing b outcomes, ws_log := ws_log s @ [(b, failure)]\<rparr>)" (is "sys_inv db ?s")
proof -
  have fl: "in_flight ?s = in_flight s" by (simp add: in_flight_def ph)
  have w: "writer_inv (ws_writer s) (in_flight s)" and rest: "thread_inv s" "log_inv db s" "once_inv s"
    using inv by (simp_all add: sys_inv_def)
  have b: "distinct (map mr_serial b)" "set (map mr_serial b) \<subseteq> set (in_flight s)"
    using writer_invD(1) [OF w] by (auto simp: in_flight_def ph)
  have bs: "set (map mr_serial b) \<subseteq> {1..mw_serial (ws_writer s)}" using b(2) writer_invD(3) [OF w] by blast
  have lg: "logged ?s = logged s @ map mr_serial b" by (simp add: logged_def)
  have rp: "replay (ws_log s) db = (ws_db s, snd (replay (ws_log s) db))" using rest(2) by (simp add: log_inv_def prod_eq_iff)
  have rp': "replay (ws_log ?s) db = (db', snd (replay (ws_log s) db) @ outcomes)"
    by (simp add: replay_snoc) (subst rp, simp add: tr)
  have "thread_inv ?s" using rest(1) by (simp add: thread_inv_def ph)
  moreover have "log_inv db ?s"
    using rest(2) transact_batch_keys [OF tr] unfolding log_inv_def rp' by (auto simp del: set_map)
  moreover have "once_inv ?s"
    using rest(3) b bs unfolding once_inv_def lg fl by (auto simp: ph simp del: set_map)
  ultimately show ?thesis using w by (simp add: sys_inv_def fl)
qed

lemma sys_inv_finish:
  assumes ph: "ws_phase s = Finishing b outcomes" and inv: "sys_inv db s" and q: "phase_requests p = []" "finishing p = []" "\<And>b outs. p \<noteq> Finishing b outs"
    and fin: "finish_batch b outcomes (ws_writer s) = Inr w'"
  shows "sys_inv db (s\<lparr>ws_writer := end_batch w', ws_phase := p\<rparr>)" (is "sys_inv db ?s")
proof -
  let ?rest = "map mr_serial (ws_reserved s @ ws_signalled s @ mw_queue (ws_writer s))"
  have w: "writer_inv (ws_writer s) (in_flight s)" and rest: "thread_inv s" "log_inv db s" "once_inv s"
    using inv by (simp_all add: sys_inv_def)
  have "writer_inv (ws_writer s) (map mr_serial b @ ?rest)"
    using w writer_inv_perm [of "in_flight s" "map mr_serial b @ ?rest" "ws_writer s"] by (simp add: in_flight_def ph)
  moreover have "set (map mr_serial b) \<subseteq> set (dict_keys outcomes)" using rest(2) ph by (simp add: log_inv_def)
  ultimately have fb: "writer_inv w' ?rest" "mw_queue w' = mw_queue (ws_writer s)" "mw_thread w' = mw_thread (ws_writer s)"
    "mw_serial w' = mw_serial (ws_writer s)"
    "\<forall>u out. mw_futures w' u = Resolved out \<longrightarrow> mw_futures (ws_writer s) u = Resolved out \<or> (u, out) \<in> set outcomes"
    using finish_batch_ok [of "ws_writer s" b ?rest outcomes] fin by auto
  have fl: "in_flight ?s = ?rest" by (simp add: in_flight_def q fb(2))
  have fl': "set (in_flight s) = set ?rest \<union> set (map mr_serial b)" "set ?rest \<inter> set (map mr_serial b) = {}"
    using writer_invD(1) [OF w] by (auto simp: in_flight_def ph)
  have "writer_inv (end_batch w') ?rest" by (rule writer_inv_move [OF _ _ _ _ _ _ fb(1)]) simp_all
  moreover have "thread_inv ?s" using rest(1) by (simp add: thread_inv_def ph fb)
  moreover have "log_inv db ?s"
  proof -
    have old: "set outcomes \<subseteq> set (snd (replay (ws_log s) db))" "fst (replay (ws_log s) db) = ws_db s"
      "\<And>u out. mw_futures (ws_writer s) u = Resolved out \<Longrightarrow> (u, out) \<in> set (snd (replay (ws_log s) db))"
      using rest(2) ph unfolding log_inv_def by auto
    have "(u, out) \<in> set (snd (replay (ws_log s) db))" if "mw_futures w' u = Resolved out" for u out
      using fb(5) that old(1,3) by (meson subsetD)
    then show ?thesis using old(2) q(3) by (simp add: log_inv_def)
  qed
  moreover have "once_inv ?s"
    using rest(3) fl' writer_invD(3) [OF w] unfolding once_inv_def fl by (auto simp: ph q fb(4) logged_def)
  ultimately show ?thesis by (simp add: sys_inv_def fl)
qed

lemma sys_inv_start: "new_writer m c rows = Inr w \<Longrightarrow> sys_inv db (writer_start w db)"
  by (auto simp: new_writer_def writer_start_def sys_inv_def writer_inv_def in_flight_def thread_inv_def log_inv_def once_inv_def logged_def
      split: if_splits option.splits)

lemma sys_inv_cancel:
  assumes "sys_inv db s"
  shows "sys_inv db (s\<lparr>ws_writer := (ws_writer s)\<lparr>mw_futures := (mw_futures (ws_writer s))(u := CancelledFuture)\<rparr>\<rparr>)" (is "sys_inv db ?s")
proof -
  have fl: "in_flight ?s = in_flight s" by (simp add: in_flight_def)
  have "writer_inv (ws_writer s) (in_flight s)" using assms by (simp add: sys_inv_def)
  then have "writer_inv (ws_writer ?s) (in_flight s)" by (rule writer_inv_frame [rotated -1]) auto
  then show ?thesis using assms by (auto simp: sys_inv_def fl thread_inv_def log_inv_def once_inv_def logged_def)
qed

lemma sys_inv_step:
  assumes "writer_step s s'" "sys_inv db s"
  shows "sys_inv db s'"
  using assms
proof (cases rule: writer_step.cases)
  case (reserve a r w')
  show ?thesis unfolding reserve(1) by (rule sys_inv_reserve [OF reserve(2) assms(2)])
next
  case (transact b failure db' outcomes)
  show ?thesis unfolding transact(1) by (rule sys_inv_transact [OF transact(2,3) assms(2)])
next
  case (finish b outcomes w')
  show ?thesis unfolding finish(1) by (rule sys_inv_finish [OF finish(2) assms(2) _ _ _ finish(3)]) auto
next
  case (cancel u)
  show ?thesis unfolding cancel(1) by (rule sys_inv_cancel [OF assms(2)])
next
  case step: (more b d now b' w')
  have "moved s s' \<and> thread_inv s'"
  proof (cases rule: collect_more_cases [of d now b "ws_writer s"])
    case (stop q)
    then show ?thesis using step(3) by simp
  next
    case (more r q)
    then have e: "b' = b @ [r]" "w' = (ws_writer s)\<lparr>mw_queue := q\<rparr>" using step(3) by simp_all
    have "thread_inv s" using assms(2) by (simp add: sys_inv_def)
    then have "thread_inv s'" unfolding thread_inv_def step(1) e using step(2) by simp
    moreover have "moved s s'" unfolding moved_def step(1) e Let_def in_flight_def by (simp add: more(2) step(2))
    ultimately show ?thesis by simp
  qed
  then show ?thesis using moved_inv [OF _ assms(2)] by simp
next
  case step: (stop b d now w')
  have "moved s s' \<and> thread_inv s'"
  proof (cases rule: collect_more_cases [of d now b "ws_writer s"])
    case (stop q)
    then have "s' = s\<lparr>ws_writer := begin_batch b ((ws_writer s)\<lparr>mw_queue := q\<rparr>), ws_phase := Executing b\<rparr>" using step(1,3) by simp
    then show ?thesis using assms(2) step(2) stop(2) by (simp add: moved_def in_flight_def Let_def sys_inv_def thread_inv_def)
  next
    case (more r q)
    then show ?thesis using step(3) by simp
  qed
  then show ?thesis using moved_inv [OF _ assms(2)] by simp
next
  case (signal xs r ys)
  have "moved s s'" "thread_inv s'" using assms(2) signal by (simp_all add: moved_def in_flight_def Let_def sys_inv_def thread_inv_def)
  then show ?thesis using moved_inv [OF _ assms(2)] by simp
next
  case (put xs r ys)
  have "moved s s'" "thread_inv s'" using assms(2) put by (simp_all add: moved_def in_flight_def Let_def sys_inv_def thread_inv_def)
  then show ?thesis using moved_inv [OF _ assms(2)] by simp
next
  case (get r rest now)
  have "moved s s'" "thread_inv s'" using assms(2) get by (simp_all add: moved_def in_flight_def Let_def sys_inv_def thread_inv_def)
  then show ?thesis using moved_inv [OF _ assms(2)] by simp
next
  case refresh
  have "moved s s'" "thread_inv s'" using assms(2) refresh by (simp_all add: moved_def in_flight_def Let_def sys_inv_def thread_inv_def)
  then show ?thesis using moved_inv [OF _ assms(2)] by simp
next
  case clear
  have "moved s s'" "thread_inv s'" using assms(2) clear by (simp_all add: moved_def in_flight_def Let_def sys_inv_def thread_inv_def)
  then show ?thesis using moved_inv [OF _ assms(2)] by simp
next
  case retire
  have "moved s s'" "thread_inv s'" using assms(2) retire
    by (simp_all add: moved_def in_flight_def Let_def sys_inv_def thread_inv_def retire_if_idle_def)
  then show ?thesis using moved_inv [OF _ assms(2)] by simp
next
  case idle
  have "moved s s'" "thread_inv s'" using assms(2) idle by (simp_all add: moved_def in_flight_def Let_def sys_inv_def thread_inv_def)
  then show ?thesis using moved_inv [OF _ assms(2)] by simp
qed

lemma sys_inv_reachable: "writer_reachable db s \<Longrightarrow> sys_inv db s"
  by (induction rule: writer_reachable.induct) (auto intro: sys_inv_start sys_inv_step)

section \<open>The loop of the writer thread\<close>

text \<open>The turns of \<open>_run\<close> until the thread retires; \<open>None\<close> is running out of fuel.\<close>

fun run_writer :: "nat \<Rightarrow> (nat \<Rightarrow> (nat \<Rightarrow> rat \<times> ('db, 'k, 'i, 'v) mutation_request list) \<times> rat \<times> exn option) \<Rightarrow> nat \<Rightarrow>
    ('db, 'k, 'i, 'v) mutation_writer \<times> 'db \<Rightarrow> (('db, 'k, 'i, 'v) mutation_writer \<times> 'db) res option" where
  "run_writer 0 env k wd = None"
| "run_writer (Suc fuel) env k wd = (case env k of (polls, started, failure) \<Rightarrow>
     (case run_turn polls started failure wd of
        Inl e \<Rightarrow> Some (Inl e)
      | Inr (w, db) \<Rightarrow> if mw_thread w then run_writer fuel env (k + 1) (w, db) else Some (Inr (w, db))))"

lemma enqueue_frame [simp]:
  "mw_queue (enqueue r w) = queue_put r (mw_queue w)" "mw_max_batch (enqueue r w) = mw_max_batch w"
  "mw_claim_transaction_rows (enqueue r w) = mw_claim_transaction_rows w"
  by (simp_all add: enqueue_def)

lemma fold_enqueue_frame:
  "mset (mw_queue (fold enqueue rs w)) = mset rs + mset (mw_queue w)"
  "mw_max_batch (fold enqueue rs w) = mw_max_batch w" "mw_claim_transaction_rows (fold enqueue rs w) = mw_claim_transaction_rows w"
  by (induction rs arbitrary: w) simp_all

lemma batch_limits_fold [simp]: "batch_limits (fold enqueue rs w) p = batch_limits w p"
  by (simp add: batch_limits_def fold_enqueue_frame)

lemma batch_limits_queue [simp]: "batch_limits (w\<lparr>mw_queue := q\<rparr>) = batch_limits w"
  by (simp add: batch_limits_def fun_eq_iff)

text \<open>What the collecting loop keeps, whatever arrives meanwhile.\<close>

lemma collect_loop_spec:
  assumes "collect_loop polls d b w = (b', w')" "b \<noteq> []"
  shows "mset b' + mset (mw_queue w') = mset b + mset (mw_queue w) + mset (concat (map (\<lambda>n. snd (polls n)) [length b..<Suc (length b')]))
    \<and> length b \<le> length b' \<and> hd b' = hd b \<and> (\<forall>r\<in>set b'. r \<in> set b \<or> mr_priority r = mr_priority (hd b))
    \<and> (b' = b \<or> int (length b') \<le> fst (batch_limits w (mr_priority (hd b))) \<and> batch_weight b' \<le> snd (batch_limits w (mr_priority (hd b))))"
  using assms
proof (induction polls d b w rule: collect_loop.induct)
  case (1 polls d b w)
  let ?w = "fold enqueue (snd (polls (length b))) w"
  show ?case
  proof (cases rule: collect_more_cases [of d "fst (polls (length b))" b ?w])
    case (stop q)
    then have "b' = b" "w' = ?w\<lparr>mw_queue := q\<rparr>" using 1(2) by auto
    then show ?thesis using stop(2) by (simp add: fold_enqueue_frame)
  next
    case (more r q)
    then have next_turn: "collect_loop polls d (b @ [r]) (?w\<lparr>mw_queue := q\<rparr>) = (b', w')" using 1(2) by simp
    note ih = 1(1) [OF more(1) refl next_turn]
    have w: "batch_weight (b @ [r]) = batch_weight b + mr_weight r" by (simp add: batch_weight_def)
    have m: "mset (mw_queue ?w) = mset (snd (polls (length b))) + mset (mw_queue w)" by (rule fold_enqueue_frame(1))
    have lim: "batch_limits ?w = batch_limits w" by (simp add: fun_eq_iff)
    have len: "Suc (length b) \<le> length b'" and ms: "mset b' + mset (mw_queue w') = mset (b @ [r]) + mset q +
        mset (concat (map (\<lambda>n. snd (polls n)) [Suc (length b)..<Suc (length b')]))"
      using ih by simp_all
    have "[length b..<Suc (length b')] = length b # [Suc (length b)..<Suc (length b')]"
      using len by (simp add: upt_conv_Cons)
    then have "mset b' + mset (mw_queue w') = mset b + mset (mw_queue w) + mset (concat (map (\<lambda>n. snd (polls n)) [length b..<Suc (length b')]))"
      using ms m more(2) by (simp del: upt_Suc)
    then show ?thesis using ih len 1(3) more(3-5) unfolding batch_limits_queue lim by (auto simp: w)
  qed
qed

text \<open>
  C35. A collected batch is bounded and nothing is lost: it starts with the request that opened it, all its
  requests have that request's priority, it has at most the number of requests that its priority allows and at
  most the weight that its priority allows (unless the opening request alone is heavier), and the batch and the
  queue left behind hold exactly the opening request, the queue before and everything enqueued meanwhile.
\<close>

theorem collect_batch_bounded:
  assumes "collect_batch polls started r w = (b, w')"
  shows "hd b = r \<and> (\<forall>x\<in>set b. mr_priority x = mr_priority r) \<and>
    int (length b) \<le> max 1 (fst (batch_limits w (mr_priority r))) \<and>
    batch_weight b \<le> max (mr_weight r) (snd (batch_limits w (mr_priority r))) \<and>
    mset b + mset (mw_queue w') = add_mset r (mset (mw_queue w)) + mset (concat (map (\<lambda>n. snd (polls n)) [1..<Suc (length b)]))"
proof -
  have l: "collect_loop polls (started + mr_collect_seconds r) [r] w = (b, w')" using assms by (simp add: collect_batch_def)
  note spec = collect_loop_spec [OF l]
  have "int (length b) \<le> max 1 (fst (batch_limits w (mr_priority r))) \<and> batch_weight b \<le> max (mr_weight r) (snd (batch_limits w (mr_priority r)))"
  proof (cases "b = [r]")
    case False
    then show ?thesis using spec by (simp add: le_max_iff_disj)
  qed (simp add: batch_weight_def)
  then show ?thesis using spec by auto
qed

definition demo_request :: "int \<Rightarrow> int \<Rightarrow> int \<Rightarrow> (int list, string, int, int) mutation_request" where
  "demo_request s p wt = \<lparr>mr_serial = s, mr_priority = p, mr_collect_seconds = 1, mr_weight = wt,
     mr_operation = Some (\<lambda>db. (db @ [s], if s = 2 then Inl (HandlerError ''no'') else Inr s)), mr_group_key = None,
     mr_group_item = None, mr_group_operation = None\<rparr>"

definition demo_writer :: "(int list, string, int, int) mutation_writer" where
  "demo_writer = (case new_writer 1024 0 (Some 192) of Inr w \<Rightarrow> w\<lparr>mw_queue := [demo_request 2 5 100, demo_request 3 5 20, demo_request 4 5 9]\<rparr>
     | Inl _ \<Rightarrow> undefined)"

theorem collect_batch_bounded_witness:
  "case collect_batch (\<lambda>n. (0, [])) 0 (demo_request 1 5 1) demo_writer of (b, w') \<Rightarrow>
     map mr_serial b = [1, 2, 3] \<and> map mr_serial (mw_queue w') = [4] \<and> batch_weight b \<le> 128"
proof -
  obtain b w' where c: "collect_batch (\<lambda>n. (0, [])) 0 (demo_request 1 5 1) demo_writer = (b, w')" by fastforce
  have "case collect_batch (\<lambda>n. (0, [])) 0 (demo_request 1 5 1) demo_writer of (b, w') \<Rightarrow>
     map mr_serial b = [1, 2, 3] \<and> map mr_serial (mw_queue w') = [4]" by code_simp
  moreover have "batch_weight b \<le> 128"
    using collect_batch_bounded [OF c] by (simp add: demo_request_def batch_limits_def)
  ultimately show ?thesis using c by simp
qed

section \<open>Turns of the loop as steps of the threads\<close>

lemma collect_loop_steps:
  assumes quiet: "\<forall>n. snd (polls n) = []"
    and "collect_loop polls d b w = (b', w')" "writer_reachable db (s\<lparr>ws_writer := w, ws_phase := Collecting b d\<rparr>)"
  shows "writer_reachable db (s\<lparr>ws_writer := begin_batch b' w', ws_phase := Executing b'\<rparr>)"
  using assms
proof (induction polls d b w rule: collect_loop.induct)
  case (1 polls d b w)
  let ?s = "s\<lparr>ws_writer := w, ws_phase := Collecting b d\<rparr>" and ?t = "fst (polls (length b))"
  have q: "snd (polls (length b)) = []" using 1(2) by simp
  show ?case
  proof (cases "collect_more d ?t b w")
    case (Inl w1)
    then have "b' = b" "w' = w1" using 1(3) q by auto
    moreover have "writer_step ?s (?s\<lparr>ws_writer := begin_batch b w1, ws_phase := Executing b\<rparr>)"
      by (rule writer_step.stop [where now = ?t]) (use Inl in simp_all)
    ultimately show ?thesis using writer_reachable.step [OF 1(4)] by simp
  next
    case (Inr p)
    obtain b1 w1 where p: "p = (b1, w1)" by fastforce
    have "writer_step ?s (?s\<lparr>ws_writer := w1, ws_phase := Collecting b1 d\<rparr>)"
      by (rule writer_step.more [where now = ?t]) (use Inr p in simp_all)
    then have "writer_reachable db (s\<lparr>ws_writer := w1, ws_phase := Collecting b1 d\<rparr>)"
      using writer_reachable.step [OF 1(4)] by simp
    moreover have "collect_loop polls d b1 w1 = (b', w')" using 1(3) q Inr p by simp
    ultimately show ?thesis using 1(1) [OF _ refl _ _ , of b1 w1] 1(2) Inr p q by simp
  qed
qed

lemma finish_steps:
  assumes reach: "writer_reachable db s" and ph: "ws_phase s = Finishing b outs"
  shows "\<exists>w2. finish_batch b outs (ws_writer s) = Inr w2 \<and> mw_queue w2 = mw_queue (ws_writer s) \<and> mw_thread w2 = mw_thread (ws_writer s) \<and>
    (let w3 = end_batch w2; w4 = (if mr_priority (hd b) \<le> 5 then refresh_urgent_signal w3 else w3) in
     writer_reachable db (s\<lparr>ws_writer := retire_if_idle w4, ws_phase := Waiting\<rparr>))"
proof -
  have inv: "sys_inv db s" using reach by (rule sys_inv_reachable)
  then have w: "writer_inv (ws_writer s) (in_flight s)" and keys: "set (map mr_serial b) \<subseteq> set (dict_keys outs)"
    using ph by (simp_all add: sys_inv_def log_inv_def)
  have "writer_inv (ws_writer s) (map mr_serial b @ map mr_serial (ws_reserved s @ ws_signalled s @ mw_queue (ws_writer s)))"
    using w writer_inv_perm [of "in_flight s" "map mr_serial b @ map mr_serial (ws_reserved s @ ws_signalled s @ mw_queue (ws_writer s))" "ws_writer s"]
    by (simp add: in_flight_def ph)
  from finish_batch_ok [OF this keys] obtain w2 where w2: "finish_batch b outs (ws_writer s) = Inr w2"
    "mw_queue w2 = mw_queue (ws_writer s)" "mw_thread w2 = mw_thread (ws_writer s)" by blast
  let ?w3 = "end_batch w2"
  let ?s2 = "\<lambda>w p. s\<lparr>ws_writer := w, ws_phase := p\<rparr>"
  have r2: "writer_reachable db (?s2 ?w3 (if mr_priority (hd b) \<le> 5 then Refreshing else Retiring))"
    by (rule writer_reachable.step [OF reach writer_step.finish [OF ph w2(1)]])
  have urgent: "writer_reachable db (?s2 (refresh_urgent_signal ?w3) Retiring)" if "mr_priority (hd b) \<le> 5"
  proof -
    have r: "writer_reachable db (?s2 ?w3 Refreshing)" using r2 that by simp
    have r3: "writer_reachable db (?s2 ?w3 (if urgent_queued ?w3 then Retiring else Clearing))"
      using writer_reachable.step [OF r writer_step.refresh] by simp
    show ?thesis
    proof (cases "urgent_queued ?w3")
      case False
      then have "writer_reachable db (?s2 ?w3 Clearing)" using r3 by simp
      from writer_reachable.step [OF this writer_step.clear] show ?thesis using False by (simp add: refresh_urgent_signal_def)
    qed (use r3 in \<open>simp add: refresh_urgent_signal_def\<close>)
  qed
  have r4: "writer_reachable db (?s2 (if mr_priority (hd b) \<le> 5 then refresh_urgent_signal ?w3 else ?w3) Retiring)"
    using urgent r2 by (cases "mr_priority (hd b) \<le> 5") simp_all
  have "writer_reachable db (?s2 (retire_if_idle (if mr_priority (hd b) \<le> 5 then refresh_urgent_signal ?w3 else ?w3)) Waiting)"
    using writer_reachable.step [OF r4 writer_step.retire] by simp
  then show ?thesis using w2 by (simp add: Let_def)
qed

lemma refresh_frame [simp]:
  "mw_queue (refresh_urgent_signal w) = mw_queue w" "mw_thread (refresh_urgent_signal w) = mw_thread w"
  by (simp_all add: refresh_urgent_signal_def)

text \<open>A turn in which nothing arrives is a sequence of steps, cannot fail and shortens the queue.\<close>

lemma run_turn_steps:
  assumes reach: "writer_reachable db s" and ph: "ws_phase s = Waiting" and th: "mw_thread (ws_writer s)" and quiet: "\<forall>n. snd (polls n) = []"
  shows "\<exists>w' d' l. run_turn polls started failure (ws_writer s, ws_db s) = Inr (w', d') \<and>
    writer_reachable db (s\<lparr>ws_writer := w', ws_db := d', ws_log := l\<rparr>) \<and> mw_thread w' = (mw_queue w' \<noteq> []) \<and>
    length (mw_queue w') \<le> length (mw_queue (ws_writer s)) - 1 \<and>
    (\<forall>x\<in>set l. x \<in> set (ws_log s) \<or> snd x = failure \<and> set (fst x) \<subseteq> set (mw_queue (ws_writer s)))"
proof (cases "mw_queue (ws_writer s)")
  case Nil
  have "writer_reachable db (s\<lparr>ws_writer := retire_if_idle (ws_writer s)\<rparr>)"
    by (rule writer_reachable.step [OF reach writer_step.idle]) (use ph th Nil in simp_all)
  then have "writer_reachable db (s\<lparr>ws_writer := retire_if_idle (ws_writer s), ws_db := ws_db s, ws_log := ws_log s\<rparr>)" by simp
  then show ?thesis using Nil unfolding run_turn_def
    by (intro exI [of _ "retire_if_idle (ws_writer s)"] exI [of _ "ws_db s"] exI [of _ "ws_log s"]) (simp add: retire_if_idle_def)
next
  case (Cons r rest)
  let ?w0 = "(ws_writer s)\<lparr>mw_queue := rest\<rparr>" and ?d = "started + mr_collect_seconds r"
  obtain b w1 where cb: "collect_loop polls ?d [r] ?w0 = (b, w1)" by fastforce
  have "writer_step s (s\<lparr>ws_writer := ?w0, ws_phase := Collecting [r] ?d\<rparr>)"
    by (rule writer_step.get) (use ph th Cons in simp_all)
  then have r1: "writer_reachable db (s\<lparr>ws_writer := ?w0, ws_phase := Collecting [r] ?d\<rparr>)" by (rule writer_reachable.step [OF reach])
  have r2: "writer_reachable db (s\<lparr>ws_writer := begin_batch b w1, ws_phase := Executing b\<rparr>)" (is "writer_reachable db ?s2")
    by (rule collect_loop_steps [OF quiet cb r1])
  note spec = collect_loop_spec [OF cb]
  have hdb: "hd b = r" and len: "length b + length (mw_queue w1) = Suc (length rest)" "Suc 0 \<le> length b"
    and sub: "set b \<subseteq> insert r (set rest)"
  proof -
    have "mset b + mset (mw_queue w1) = add_mset r (mset rest)" using spec quiet by simp
    then have "size (mset b + mset (mw_queue w1)) = Suc (length rest)" by simp
    then show "length b + length (mw_queue w1) = Suc (length rest)" by simp
    have "mset b + mset (mw_queue w1) = mset (r # rest)" using spec quiet by simp
    then have "set (b @ mw_queue w1) = set (r # rest)" by (intro mset_eq_setD) simp
    then show "set b \<subseteq> insert r (set rest)" by auto
  qed (use spec in simp_all)
  obtain d' outs where tr: "transact_batch b failure (ws_db s) = (d', outs)" by fastforce
  let ?s3 = "?s2\<lparr>ws_db := d', ws_phase := Finishing b outs, ws_log := ws_log ?s2 @ [(b, failure)]\<rparr>"
  have "writer_step ?s2 ?s3" by (rule writer_step.transact) (use tr in simp_all)
  then have r3: "writer_reachable db ?s3" by (rule writer_reachable.step [OF r2])
  have th3: "mw_thread w1" using sys_inv_reachable [OF r2] by (simp add: sys_inv_def thread_inv_def)
  from finish_steps [OF r3, of b outs] obtain w2 where w2: "finish_batch b outs (begin_batch b w1) = Inr w2"
    "mw_queue w2 = mw_queue w1" "mw_thread w2"
    and r4: "let w3 = end_batch w2; w4 = (if mr_priority (hd b) \<le> 5 then refresh_urgent_signal w3 else w3) in
     writer_reachable db (?s3\<lparr>ws_writer := retire_if_idle w4, ws_phase := Waiting\<rparr>)" using th3 by auto
  let ?w4 = "if mr_priority r \<le> 5 then refresh_urgent_signal (end_batch w2) else end_batch w2"
  have "run_turn polls started failure (ws_writer s, ws_db s) = Inr (retire_if_idle ?w4, d')"
    unfolding run_turn_def by (simp add: Cons collect_batch_def cb tr w2(1) Let_def del: collect_loop.simps)
  moreover have "writer_reachable db (s\<lparr>ws_writer := retire_if_idle ?w4, ws_db := d', ws_log := ws_log s @ [(b, failure)]\<rparr>)"
  proof -
    have "?s3\<lparr>ws_writer := retire_if_idle ?w4, ws_phase := Waiting\<rparr> =
        s\<lparr>ws_writer := retire_if_idle ?w4, ws_db := d', ws_log := ws_log s @ [(b, failure)]\<rparr>"
      using ph by (cases s) simp
    then show ?thesis using r4 unfolding Let_def hdb by metis
  qed
  moreover have "mw_queue (retire_if_idle ?w4) = mw_queue w1" "mw_thread (retire_if_idle ?w4) = (mw_queue w1 \<noteq> [])"
    using w2(2,3) by (simp_all add: retire_if_idle_def)
  ultimately show ?thesis using len Cons sub
    by (intro exI [of _ "retire_if_idle ?w4"] exI [of _ d'] exI [of _ "ws_log s @ [(b, failure)]"]) simp
qed

lemma submit_reachable:
  assumes reach: "writer_reachable db s" and sub: "submit a (ws_writer s) = Inr (u, w')"
  shows "writer_reachable db (s\<lparr>ws_writer := w'\<rparr>)"
proof -
  obtain r w1 where r: "new_request a (ws_writer s) = Inr (r, w1)" "w' = enqueue_put r (enqueue_signal r w1)"
    using sub by (auto simp: submit_def res_bind_eq_Inr enqueue_def)
  let ?s1 = "s\<lparr>ws_writer := w1, ws_reserved := r # ws_reserved s\<rparr>"
  let ?s2 = "?s1\<lparr>ws_writer := enqueue_signal r w1, ws_reserved := ws_reserved s, ws_signalled := r # ws_signalled s\<rparr>"
  have r1: "writer_reachable db ?s1" by (rule writer_reachable.step [OF reach writer_step.reserve [OF r(1)]])
  have "writer_step ?s1 ?s2" using writer_step.signal [of ?s1 "[]" r "ws_reserved s"] by simp
  then have r2: "writer_reachable db ?s2" by (rule writer_reachable.step [OF r1])
  have "writer_step ?s2 (s\<lparr>ws_writer := w'\<rparr>)" using writer_step.put [of ?s2 "[]" r "ws_signalled s"] r(2) by (cases s) simp
  then show ?thesis by (rule writer_reachable.step [OF r2])
qed

text \<open>A writer with three submissions, the second of which will fail.\<close>

definition demo_args :: "int \<Rightarrow> (int list, string, int, int) request_args" where
  "demo_args n = \<lparr>ra_priority = PyInt 10, ra_collect_seconds = Some 1, ra_weight = PyInt 100,
     ra_operation = Some (\<lambda>db. (db @ [n], if n = 2 then Inl (HandlerError ''no'') else Inr n)), ra_group_key = None,
     ra_group_item = None, ra_group_operation = None\<rparr>"

definition demo_submitted :: "(int list, string, int, int) mutation_writer res" where
  "demo_submitted = res_bind (new_writer 1024 0 (Some 200)) (\<lambda>w0. res_bind (submit (demo_args 1) w0) (\<lambda>(_, w1).
     res_bind (submit (demo_args 2) w1) (\<lambda>(_, w2). res_bind (submit (demo_args 3) w2) (\<lambda>(_, w3). Inr w3))))"

lemma case_InrD: "(case x of Inl _ \<Rightarrow> False | Inr w \<Rightarrow> P w) \<Longrightarrow> x = Inr w \<Longrightarrow> P w"
  by simp

lemma demo_submitted_reachable:
  obtains w where "demo_submitted = Inr w" "writer_reachable [] (writer_start w [])"
proof -
  have "case demo_submitted of Inr _ \<Rightarrow> True | Inl _ \<Rightarrow> False" by code_simp
  then obtain w where w: "demo_submitted = Inr w" by (auto split: sum.splits)
  then obtain w0 u1 w1 u2 w2 u3 where steps: "new_writer 1024 0 (Some 200) = Inr w0" "submit (demo_args 1) w0 = Inr (u1, w1)"
    "submit (demo_args 2) w1 = Inr (u2, w2)" "submit (demo_args 3) w2 = Inr (u3, w)"
    by (auto simp: demo_submitted_def res_bind_eq_Inr)
  have "writer_reachable [] (writer_start w0 [])" by (rule writer_reachable.start [OF steps(1)])
  then have "writer_reachable [] (writer_start w1 [])" using submit_reachable [of "[]" "writer_start w0 []"] steps(2)
    by (fastforce simp: writer_start_def)
  then have "writer_reachable [] (writer_start w2 [])" using submit_reachable [of "[]" "writer_start w1 []"] steps(3)
    by (fastforce simp: writer_start_def)
  then have "writer_reachable [] (writer_start w [])" using submit_reachable [of "[]" "writer_start w2 []"] steps(4)
    by (fastforce simp: writer_start_def)
  with w show thesis by (rule that)
qed

text \<open>The same writer after one turn of its loop, which takes two of the three requests.\<close>

definition demo_turn :: "((int list, string, int, int) mutation_writer \<times> int list) res" where
  "demo_turn = res_bind demo_submitted (\<lambda>w. run_turn (\<lambda>n. (0, [])) 0 None (w, []))"

lemma demo_turn_reachable:
  obtains w l where "demo_turn = Inr (w, [1])" "writer_reachable [] ((writer_start w [1])\<lparr>ws_log := l\<rparr>)"
    "mw_serial w = 3" "barrier_open (Some 2) w"
proof -
  obtain w where w: "demo_submitted = Inr w" "writer_reachable [] (writer_start w [])" by (rule demo_submitted_reachable)
  have "case demo_submitted of Inr w \<Rightarrow> mw_thread w | Inl _ \<Rightarrow> False" by code_simp
  from case_InrD [OF this w(1)] have th: "mw_thread w" .
  from run_turn_steps [OF w(2), of "\<lambda>n. (0, [])" 0 None] th obtain w' d' l where
    t: "run_turn (\<lambda>n. (0, [])) 0 None (w, []) = Inr (w', d')" "writer_reachable [] ((writer_start w [])\<lparr>ws_writer := w', ws_db := d', ws_log := l\<rparr>)"
    by (auto simp: writer_start_def)
  have d: "demo_turn = Inr (w', d')" unfolding demo_turn_def w(1) using t(1) by simp
  have "case demo_turn of Inr (w', d') \<Rightarrow> d' = [1] \<and> mw_serial w' = 3 \<and> barrier_open (Some 2) w' | Inl _ \<Rightarrow> False" by code_simp
  from case_InrD [OF this d] have f: "d' = [1]" "mw_serial w' = 3" "barrier_open (Some 2) w'" by simp_all
  have "writer_reachable [] ((writer_start w' [1])\<lparr>ws_log := l\<rparr>)" using t(2) f(1) by (simp add: writer_start_def)
  then show thesis using d f that by simp
qed

text \<open>
  C33. The writer thread drains its queue: from every reachable state in which no caller is in the middle of a
  submission and the thread is about to wait, and whatever transactions fail, if nothing more arrives then the
  loop never raises, ends after at most as many turns as there are queued requests (one if there is none), and
  leaves the queue empty, the thread retired and the watermark at the last serial, so that every barrier is open.
\<close>

theorem writer_drains:
  assumes "writer_reachable db s" and "ws_phase s = Waiting" and "mw_thread (ws_writer s)"
    and "ws_reserved s = []" and "ws_signalled s = []"
    and "\<forall>k n. snd (fst (env k) n) = []" and "length (mw_queue (ws_writer s)) < fuel"
  shows "\<exists>w' d'. run_writer fuel env k (ws_writer s, ws_db s) = Some (Inr (w', d')) \<and> mw_queue w' = [] \<and> \<not> mw_thread w' \<and>
    mw_completed_through w' = mw_serial w' \<and> barrier_open None w'"
  using assms
proof (induction fuel arbitrary: s k)
  case (Suc fuel)
  obtain polls started failure where env: "env k = (polls, started, failure)" by (cases "env k") auto
  then have quiet: "\<forall>n. snd (polls n) = []" using Suc.prems(6) by (metis fst_conv)
  from run_turn_steps [OF Suc.prems(1-3) quiet] obtain w' d' l where
    t: "run_turn polls started failure (ws_writer s, ws_db s) = Inr (w', d')"
    "writer_reachable db (s\<lparr>ws_writer := w', ws_db := d', ws_log := l\<rparr>)" (is "writer_reachable db ?s")
    "mw_thread w' = (mw_queue w' \<noteq> [])" "length (mw_queue w') \<le> length (mw_queue (ws_writer s)) - 1" by blast
  show ?case
  proof (cases "mw_queue w' = []")
    case True
    have "writer_inv w' (in_flight ?s)" using sys_inv_reachable [OF t(2)] by (simp add: sys_inv_def)
    moreover have "in_flight ?s = []" using True Suc.prems(2,4,5) by (simp add: in_flight_def)
    ultimately have "mw_completed_through w' = mw_serial w'" using writer_invD(9) by fastforce
    then show ?thesis using True t(1,3) by (simp add: env barrier_open_def)
  next
    case False
    then have "length (mw_queue w') < fuel" using t(4) Suc.prems(7) by (cases "mw_queue (ws_writer s)") auto
    then have "\<exists>w'' d''. run_writer fuel env (k + 1) (ws_writer ?s, ws_db ?s) = Some (Inr (w'', d'')) \<and> mw_queue w'' = [] \<and> \<not> mw_thread w'' \<and>
        mw_completed_through w'' = mw_serial w'' \<and> barrier_open None w''"
      using Suc.prems t(2,3) False by (intro Suc.IH) simp_all
    then show ?thesis using t(1,3) False by (simp add: env)
  qed
qed simp

theorem writer_drains_witness:
  "case demo_submitted of Inl _ \<Rightarrow> False | Inr w \<Rightarrow> length (mw_queue w) = 3 \<and>
     (\<exists>w' d'. run_writer 4 (\<lambda>_. (\<lambda>_. (0, []), 0, None)) 0 (w, []) = Some (Inr (w', d')) \<and> mw_queue w' = [] \<and> barrier_open None w')"
proof -
  obtain w where w: "demo_submitted = Inr w" "writer_reachable [] (writer_start w [])" by (rule demo_submitted_reachable)
  have "case demo_submitted of Inr w \<Rightarrow> mw_thread w \<and> length (mw_queue w) = 3 | Inl _ \<Rightarrow> False" by code_simp
  from case_InrD [OF this w(1)] have th: "mw_thread w" "length (mw_queue w) = 3" by simp_all
  have "\<exists>w' d'. run_writer 4 (\<lambda>_. (\<lambda>_. (0, []), 0, None)) 0 (ws_writer (writer_start w []), ws_db (writer_start w [])) = Some (Inr (w', d')) \<and>
      mw_queue w' = [] \<and> \<not> mw_thread w' \<and> mw_completed_through w' = mw_serial w' \<and> barrier_open None w'"
    by (rule writer_drains [OF w(2)]) (use th in \<open>simp_all add: writer_start_def\<close>)
  then show ?thesis unfolding w(1) using th by (auto simp: writer_start_def)
qed

text \<open>
  C32. The database is the result of the executed batches in order, each request is executed at most once, and a
  settled future reports what its transaction did, in every interleaving of the callers with the writer thread:
  replaying the executed batches from the initial database gives the current one; no serial occurs in two
  batches; the serials not executed yet are exactly those still in flight; each result delivered to a caller is
  among the outcomes of the replay; and a queued request always has a live writer thread.
\<close>

theorem writer_executes_once:
  assumes "writer_reachable db s"
  shows "fst (replay (ws_log s) db) = ws_db s \<and> distinct (logged s) \<and>
    {1..mw_serial (ws_writer s)} - set (in_flight s) \<subseteq> set (logged s) \<and> set (logged s) \<subseteq> {1..mw_serial (ws_writer s)} \<and>
    (\<forall>u out. mw_futures (ws_writer s) u = Resolved out \<longrightarrow> (u, out) \<in> set (snd (replay (ws_log s) db))) \<and>
    (mw_queue (ws_writer s) \<noteq> [] \<longrightarrow> mw_thread (ws_writer s))"
proof -
  have inv: "sys_inv db s" using assms by (rule sys_inv_reachable)
  then have w: "writer_inv (ws_writer s) (in_flight s)" by (simp add: sys_inv_def)
  have "set (map mr_serial (finishing (ws_phase s))) \<subseteq> set (in_flight s)" by (cases "ws_phase s") (auto simp: in_flight_def)
  then show ?thesis using inv writer_invD(3) [OF w] unfolding sys_inv_def log_inv_def once_inv_def thread_inv_def by (auto simp del: set_map)
qed

theorem writer_executes_once_witness:
  "\<exists>s. writer_reachable ([] :: int list) (s :: (int list, string, int, int) writer_sys) \<and> ws_db s = [1] \<and> fst (replay (ws_log s) []) = [1]"
proof -
  obtain w l where w: "writer_reachable [] ((writer_start w [1 :: int])\<lparr>ws_log := l\<rparr> :: (int list, string, int, int) writer_sys)"
    by (rule demo_turn_reachable)
  let ?s = "(writer_start w [1])\<lparr>ws_log := l\<rparr>"
  have "ws_db ?s = [1]" by (simp add: writer_start_def)
  moreover have "fst (replay (ws_log ?s) []) = ws_db ?s" using writer_executes_once [OF w] by simp
  ultimately show ?thesis using w by metis
qed

text \<open>
  C31. The durability barrier: in every reachable state, a barrier on a serial that was handed out is open exactly
  when no request up to that serial is still in flight; then each of them has been executed in a transaction and
  its future is settled. The heap behind the watermark stays proportional to the requests in flight.
\<close>

theorem barrier_is_durable:
  assumes "writer_reachable db s" and "t \<le> mw_serial (ws_writer s)"
  shows "(barrier_open (Some t) (ws_writer s) \<longleftrightarrow> {1..t} \<inter> set (in_flight s) = {}) \<and>
    (barrier_open (Some t) (ws_writer s) \<longrightarrow> (\<forall>u\<in>{1..t}. u \<in> set (logged s) \<and> mw_futures (ws_writer s) u \<noteq> Unresolved)) \<and>
    length (mw_pending_serial_heap (ws_writer s)) \<le> 2 * length (in_flight s) + 1024"
proof -
  have inv: "sys_inv db s" using assms(1) by (rule sys_inv_reachable)
  then have w: "writer_inv (ws_writer s) (in_flight s)" and o: "once_inv s" by (simp_all add: sys_inv_def)
  note d = writer_invD [OF w]
  have iff: "barrier_open (Some t) (ws_writer s) \<longleftrightarrow> {1..t} \<inter> set (in_flight s) = {}"
  proof (cases "in_flight s = []")
    case True
    then show ?thesis using d(9) assms(2) by (simp add: barrier_open_def)
  next
    case False
    then have m: "Min (set (in_flight s)) \<in> set (in_flight s)" "\<And>u. u \<in> set (in_flight s) \<Longrightarrow> Min (set (in_flight s)) \<le> u"
      by simp_all
    have c: "mw_completed_through (ws_writer s) = Min (set (in_flight s)) - 1" using d(9) False by simp
    have "barrier_open (Some t) (ws_writer s) \<longleftrightarrow> t < Min (set (in_flight s))" unfolding barrier_open_def c option.case by linarith
    also have "\<dots> \<longleftrightarrow> {1..t} \<inter> set (in_flight s) = {}"
    proof
      assume l: "t < Min (set (in_flight s))"
      have "u \<notin> set (in_flight s)" if "u \<le> t" for u using m(2) [of u] l that by linarith
      then show "{1..t} \<inter> set (in_flight s) = {}" by fastforce
    next
      assume e: "{1..t} \<inter> set (in_flight s) = {}"
      have "1 \<le> Min (set (in_flight s))" using m(1) d(3) by auto
      then show "t < Min (set (in_flight s))" using e m(1) by (meson atLeastAtMost_iff disjoint_iff linorder_not_less)
    qed
    finally show ?thesis .
  qed
  have "u \<in> set (logged s) \<and> mw_futures (ws_writer s) u \<noteq> Unresolved"
    if "{1..t} \<inter> set (in_flight s) = {}" "u \<in> {1..t}" for u
  proof -
    have "u \<in> {1..mw_serial (ws_writer s)} - set (in_flight s)" using that assms(2) by auto
    then show ?thesis using d(10) o unfolding once_inv_def by blast
  qed
  then show ?thesis using iff d(8) by blast
qed

theorem barrier_is_durable_witness:
  "\<exists>s. writer_reachable ([] :: int list) (s :: (int list, string, int, int) writer_sys) \<and> mw_serial (ws_writer s) = 3 \<and>
     (\<forall>u\<in>{1..2}. u \<in> set (logged s) \<and> mw_futures (ws_writer s) u \<noteq> Unresolved)"
proof -
  obtain w l where w: "writer_reachable [] ((writer_start w [1 :: int])\<lparr>ws_log := l\<rparr> :: (int list, string, int, int) writer_sys)"
    "mw_serial w = 3" "barrier_open (Some 2) w" by (rule demo_turn_reachable)
  let ?s = "(writer_start w [1])\<lparr>ws_log := l\<rparr>"
  have "\<forall>u\<in>{1..2}. u \<in> set (logged ?s) \<and> mw_futures (ws_writer ?s) u \<noteq> Unresolved"
    using barrier_is_durable [OF w(1), of 2] w(2,3) by (simp add: writer_start_def)
  moreover have "mw_serial (ws_writer ?s) = 3" using w(2) by (simp add: writer_start_def)
  ultimately show ?thesis using w(1) by blast
qed

section \<open>Isolation of the units of a batch\<close>

text \<open>The database a unit's own operation leaves, without any rollback, and a unit all of whose requests failed.\<close>

definition unit_effect :: "('k \<times> ('db, 'k, 'i, 'v) mutation_request list) list \<Rightarrow> ('db, 'k, 'i, 'v) batch_unit \<Rightarrow> 'db \<Rightarrow> 'db" where
  "unit_effect grouped u db = (case u of SingleUnit r \<Rightarrow> fst (run_single r db) | GroupUnit k \<Rightarrow> fst (run_group (unit_requests grouped u) db))"

definition unit_failed :: "('k \<times> ('db, 'k, 'i, 'v) mutation_request list) list \<Rightarrow> (int \<times> 'v outcome) list \<Rightarrow> ('db, 'k, 'i, 'v) batch_unit \<Rightarrow> bool" where
  "unit_failed grouped outs u \<longleftrightarrow> (\<exists>e. \<forall>r\<in>set (unit_requests grouped u). dict_get outs (mr_serial r) = Some (False, PExn e))"

lemma dict_get_fold:
  assumes "distinct (map fst xs)"
  shows "dict_get (fold (\<lambda>(s, out) d. dict_set d s out) xs d) k = (case map_of xs k of None \<Rightarrow> dict_get d k | Some v \<Rightarrow> Some v)"
  using assms
proof (induction xs arbitrary: d)
  case (Cons x xs)
  then have "map_of xs (fst x) = None" by (simp add: map_of_eq_None_iff)
  then show ?case using Cons by (cases x) (auto simp: dict_simps split: option.splits)
qed simp

lemma execute_unit_cases:
  assumes "execute_unit grouped u db = (db', outs)"
  obtains (applied) "db' = unit_effect grouped u db" "\<And>r. u = SingleUnit r \<Longrightarrow> \<exists>v. outs = [(mr_serial r, True, PVal v)]"
  | (failed) e where "db' = db" "outs = map (\<lambda>r. (mr_serial r, False, PExn e)) (unit_requests grouped u)"
proof (cases u)
  case (SingleUnit r)
  then show thesis using assms applied failed
    by (cases "run_single r db") (auto simp: execute_unit_def unit_effect_def split: sum.splits)
next
  case (GroupUnit k)
  have g: "(case dict_get grouped k of None \<Rightarrow> [] | Some g \<Rightarrow> g) = unit_requests grouped u" by (simp add: GroupUnit unit_requests_def)
  show thesis using assms applied failed GroupUnit
    by (cases "run_group (unit_requests grouped u) db") (auto simp: execute_unit_def unit_effect_def Let_def g split: sum.splits)
qed

lemma execute_units_isolated:
  assumes "execute_units grouped us db outs = (db', outs')" "distinct us"
    and "distinct (map mr_serial (concat (map (unit_requests grouped) us)))"
  shows "(\<forall>s. s \<notin> mr_serial ` set (concat (map (unit_requests grouped) us)) \<longrightarrow> dict_get outs' s = dict_get outs s) \<and>
    (\<exists>us'. subseq us' us \<and> db' = fold (unit_effect grouped) us' db \<and> (\<forall>u\<in>set us - set us'. unit_failed grouped outs' u) \<and>
      (\<forall>r. SingleUnit r \<in> set us' \<longrightarrow> (\<exists>v. dict_get outs' (mr_serial r) = Some (True, PVal v))))"
  using assms
proof (induction us arbitrary: db outs)
  case (Cons u us)
  obtain db1 o1 where u: "execute_unit grouped u db = (db1, o1)" by fastforce
  let ?outs = "fold (\<lambda>(s, out) d. dict_set d s out) o1 outs"
  have o1: "map fst o1 = map mr_serial (unit_requests grouped u)" by (rule execute_unit_serials [OF u])
  have d1: "distinct (map fst o1)" using Cons.prems(3) unfolding o1 by simp
  have step: "execute_units grouped us db1 ?outs = (db', outs')" using Cons.prems(1) by (simp add: u)
  have disj: "mr_serial r \<notin> mr_serial ` set (concat (map (unit_requests grouped) us))" if "r \<in> set (unit_requests grouped u)" for r
    using Cons.prems(3) that by auto
  from Cons.IH [OF step] Cons.prems obtain us' where keep: "\<And>s. s \<notin> mr_serial ` set (concat (map (unit_requests grouped) us)) \<Longrightarrow> dict_get outs' s = dict_get ?outs s"
    and us': "subseq us' us" "db' = fold (unit_effect grouped) us' db1" "\<forall>u\<in>set us - set us'. unit_failed grouped outs' u"
      "\<forall>r. SingleUnit r \<in> set us' \<longrightarrow> (\<exists>v. dict_get outs' (mr_serial r) = Some (True, PVal v))" by auto
  have mine: "dict_get outs' (mr_serial r) = (case map_of o1 (mr_serial r) of None \<Rightarrow> dict_get outs (mr_serial r) | Some v \<Rightarrow> Some v)"
    if "r \<in> set (unit_requests grouped u)" for r
    using keep [OF disj [OF that]] dict_get_fold [OF d1] by simp
  have other: "dict_get outs' s = dict_get outs s" if "s \<notin> mr_serial ` set (concat (map (unit_requests grouped) (u # us)))" for s
  proof -
    have "s \<notin> set (map fst o1)" "s \<notin> mr_serial ` set (concat (map (unit_requests grouped) us))" using that unfolding o1 by auto
    then show ?thesis using keep dict_get_fold [OF d1, of outs s] by (simp add: map_of_eq_None_iff [THEN iffD2])
  qed
  from u show ?case
  proof (cases rule: execute_unit_cases)
    case applied
    have "\<exists>v. dict_get outs' (mr_serial r) = Some (True, PVal v)" if "u = SingleUnit r" for r
      using applied(2) [OF that] mine [of r] that by auto
    then show ?thesis using other us' applied(1) by (intro conjI exI [of _ "u # us'"]) auto
  next
    case (failed e)
    have "map_of o1 (mr_serial r) = Some (False, PExn e)" if "r \<in> set (unit_requests grouped u)" for r
      using d1 that unfolding failed(2) by (intro map_of_is_SomeI) auto
    then have "unit_failed grouped outs' u" using mine unfolding unit_failed_def by auto
    moreover have "u \<notin> set us'" using us'(1) Cons.prems(2) by (auto dest: list_emb_set)
    ultimately show ?thesis using other us' failed(1) by (intro conjI exI [of _ us']) auto
  qed
qed (simp, intro exI [of _ "[]"], simp)

lemma batch_units_nonempty:
  assumes "batch_units rs grouped units = (grouped', units')" "\<forall>k. (dict_get grouped k = None) = (k \<notin> set (unit_keys units))"
    and "\<forall>k. dict_get grouped k \<noteq> Some []"
  shows "\<forall>u\<in>set units'. unit_requests grouped' u \<noteq> []"
  using assms
proof (induction rs grouped units rule: batch_units.induct)
  case (1 grouped units)
  show ?case
  proof
    fix u assume u: "u \<in> set units'"
    show "unit_requests grouped' u \<noteq> []"
    proof (cases u)
      case (GroupUnit k)
      then have "k \<in> set (unit_keys units)" using u 1(1) unit_keys_iff [of k units] by simp
      then obtain g where "dict_get grouped k = Some g" "g \<noteq> []" using 1(2,3) by fastforce
      then show ?thesis using 1(1) GroupUnit by simp
    qed simp
  qed
next
  case (2 r rs grouped units)
  show ?case
  proof (cases "mr_group_key r")
    case None
    then show ?thesis using 2 by simp
  next
    case (Some k)
    show ?thesis
    proof (cases "dict_get grouped k")
      case None
      then show ?thesis using 2(2) [OF Some None] 2(4-6) Some by (simp add: dict_simps None)
    next
      case g: (Some g)
      then have "k \<in> set (unit_keys units)" using 2(5) by (metis option.distinct(1))
      then show ?thesis using 2(3) [OF Some g] 2(4-6) Some g by (auto simp: dict_simps)
    qed
  qed
qed

lemma distinct_units:
  "distinct (map mr_serial (concat (map (unit_requests grouped) us))) \<Longrightarrow> \<forall>u\<in>set us. unit_requests grouped u \<noteq> [] \<Longrightarrow> distinct us"
proof (induction us)
  case (Cons u us)
  then obtain r where r: "r \<in> set (unit_requests grouped u)" by (meson list.set_intros(1) list.set_sel(1))
  have "u \<notin> set us"
  proof
    assume "u \<in> set us"
    then have "mr_serial r \<in> mr_serial ` set (concat (map (unit_requests grouped) us))" using r by auto
    moreover have "mr_serial r \<in> set (map mr_serial (unit_requests grouped u))" using r by simp
    ultimately show False using Cons.prems(1) by auto
  qed
  then show ?case using Cons by simp
qed simp

text \<open>
  C34. One transaction carries a batch of independent units, single requests and groups: every request gets
  exactly one outcome; the database after the batch is that of a subsequence of the units applied one after the
  other, each complete; every unit outside it was rolled back to its savepoint, left no trace and failed all its
  requests with one error; and the single requests inside it succeeded.
\<close>

theorem execute_batch_isolated:
  assumes "execute_batch rs db = (db', outcomes)" and "distinct (map mr_serial rs)"
  shows "set (dict_keys outcomes) = set (map mr_serial rs) \<and> (case batch_units rs [] [] of (grouped, us) \<Rightarrow>
    mset (concat (map (unit_requests grouped) us)) = mset rs \<and>
    (\<exists>us'. subseq us' us \<and> db' = fold (unit_effect grouped) us' db \<and> (\<forall>u\<in>set us - set us'. unit_failed grouped outcomes u) \<and>
      (\<forall>r. SingleUnit r \<in> set us' \<longrightarrow> (\<exists>v. dict_get outcomes (mr_serial r) = Some (True, PVal v)))))"
proof -
  obtain grouped us where b: "batch_units rs [] [] = (grouped, us)" by fastforce
  have m: "mset (concat (map (unit_requests grouped) us)) = mset rs"
    using batch_units_requests [OF b] by (simp add: dict_get_def)
  then have d: "distinct (map mr_serial (concat (map (unit_requests grouped) us)))"
    using assms(2) by (metis mset_eq_imp_distinct_iff mset_map)
  have "\<forall>u\<in>set us. unit_requests grouped u \<noteq> []" using batch_units_nonempty [OF b] by (simp add: dict_get_def)
  then have du: "distinct us" using distinct_units [OF d] by simp
  have e: "execute_units grouped us db [] = (db', outcomes)" using assms(1) by (simp add: execute_batch_def b)
  show ?thesis using execute_batch_keys [OF assms(1)] m execute_units_isolated [OF e du d] unfolding b by simp
qed

theorem execute_batch_isolated_witness:
  "case execute_batch [demo_request 1 5 1, demo_request 2 5 1, demo_request 3 5 1] [] of (db', outcomes) \<Rightarrow> db' = [1, 3] \<and>
    (\<exists>us'. subseq us' (snd (batch_units [demo_request 1 5 1, demo_request 2 5 1, demo_request 3 5 1] [] [])) \<and> [1, 3] = fold (unit_effect []) us' [])"
proof -
  let ?rs = "[demo_request 1 5 1, demo_request 2 5 1, demo_request 3 5 1]"
  obtain db' outs where e: "execute_batch ?rs [] = (db', outs)" by fastforce
  obtain us where us: "batch_units ?rs [] [] = ([], us)" by (simp add: demo_request_def)
  have "fst (execute_batch ?rs []) = [1, 3]" by code_simp
  then have "db' = [1, 3]" by (simp only: e fst_conv)
  moreover have "distinct (map mr_serial ?rs)" by (simp add: demo_request_def)
  note execute_batch_isolated [OF e this, unfolded us prod.case]
  ultimately show ?thesis unfolding e us by auto
qed

section \<open>The urgent signal\<close>

lemma finish_step_exists:
  assumes "writer_reachable db s" "ws_phase s = Finishing b outs"
  shows "\<exists>w'. finish_batch b outs (ws_writer s) = Inr w' \<and> mw_queue w' = mw_queue (ws_writer s) \<and> mw_thread w' = mw_thread (ws_writer s)"
  using finish_steps [OF assms] by blast

text \<open>Draining one urgent request while a second one is between its signal and its put.\<close>

lemma urgent_race:
  fixes s :: "('db, 'k, 'i, 'v) writer_sys"
  assumes reach: "writer_reachable db s" and ph: "ws_phase s = Waiting" and th: "mw_thread (ws_writer s)"
    and q: "mw_queue (ws_writer s) = [a]" and res: "ws_reserved s = [b]" "ws_signalled s = []"
    and urgent: "mr_priority a \<le> 5" "mr_priority b \<le> 5"
  shows "\<exists>s' :: ('db, 'k, 'i, 'v) writer_sys. writer_reachable db s' \<and> ws_phase s' = Waiting \<and> ws_reserved s' = [] \<and> ws_signalled s' = [] \<and>
    urgent_queued (ws_writer s') \<and> \<not> mw_urgent_pending (ws_writer s')"
proof -
  let ?w1 = "(ws_writer s)\<lparr>mw_queue := []\<rparr>" and ?d = "0 + mr_collect_seconds a"
  note go = writer_reachable.step
  have r1: "writer_reachable db (s\<lparr>ws_writer := ?w1, ws_phase := Collecting [a] ?d\<rparr>)" (is "writer_reachable db ?s1")
    by (rule go [OF reach writer_step.get]) (use ph th q in simp_all)
  have "collect_more ?d 0 [a] ?w1 = Inl ?w1" by (simp add: collect_more_def Let_def split: prod.splits)
  then have "writer_step ?s1 (?s1\<lparr>ws_writer := begin_batch [a] ?w1, ws_phase := Executing [a]\<rparr>)" (is "writer_step ?s1 ?s2")
    by (intro writer_step.stop [where now = 0]) simp_all
  then have r2: "writer_reachable db ?s2" by (rule go [OF r1])
  obtain db' outs where tr: "transact_batch [a] None (ws_db ?s2) = (db', outs)" by fastforce
  let ?s3 = "?s2\<lparr>ws_db := db', ws_phase := Finishing [a] outs, ws_log := ws_log ?s2 @ [([a], None)]\<rparr>"
  have r3: "writer_reachable db ?s3" by (rule go [OF r2 writer_step.transact [OF _ tr]]) simp
  obtain w4 where w4: "finish_batch [a] outs (ws_writer ?s3) = Inr w4" "mw_queue w4 = []" "mw_thread w4"
    using finish_step_exists [OF r3] th by auto
  have "writer_step ?s3 (?s3\<lparr>ws_writer := end_batch w4, ws_phase := (if mr_priority (hd [a]) \<le> 5 then Refreshing else Retiring)\<rparr>)"
    by (rule writer_step.finish [OF _ w4(1)]) simp
  then have r4: "writer_reachable db (?s3\<lparr>ws_writer := end_batch w4, ws_phase := Refreshing\<rparr>)" (is "writer_reachable db ?s4")
    using go [OF r3] urgent by simp
  let ?w5 = "enqueue_signal b (end_batch w4)"
  have "writer_step ?s4 (?s4\<lparr>ws_writer := ?w5, ws_reserved := [], ws_signalled := [b]\<rparr>)" (is "writer_step ?s4 ?s5")
    using writer_step.signal [of ?s4 "[]" b "[]"] res by simp
  then have r5: "writer_reachable db ?s5" by (rule go [OF r4])
  have "\<not> urgent_queued ?w5" using w4(2) by (simp add: urgent_queued_def)
  then have r6: "writer_reachable db (?s5\<lparr>ws_phase := Clearing\<rparr>)" (is "writer_reachable db ?s6")
    using go [OF r5 writer_step.refresh] by simp
  have r7: "writer_reachable db (?s6\<lparr>ws_writer := ?w5\<lparr>mw_urgent_pending := False\<rparr>, ws_phase := Retiring\<rparr>)" (is "writer_reachable db ?s7")
    using go [OF r6 writer_step.clear] by simp
  let ?w8 = "enqueue_put b (?w5\<lparr>mw_urgent_pending := False\<rparr>)"
  have "writer_step ?s7 (?s7\<lparr>ws_writer := ?w8, ws_signalled := []\<rparr>)" (is "writer_step ?s7 ?s8")
    using writer_step.put [of ?s7 "[]" b "[]"] by simp
  then have r8: "writer_reachable db ?s8" by (rule go [OF r7])
  have r9: "writer_reachable db (?s8\<lparr>ws_writer := retire_if_idle ?w8, ws_phase := Waiting\<rparr>)" (is "writer_reachable db ?s9")
    using go [OF r8 writer_step.retire] by simp
  have q8: "b \<in> set (mw_queue ?w8)" by (simp add: queue_put_def set_insort_key)
  then have "mw_queue ?w8 \<noteq> []" by auto
  then have "retire_if_idle ?w8 = ?w8" by (simp add: retire_if_idle_def)
  then have u9: "urgent_queued (ws_writer ?s9)" using q8 urgent(2) unfolding urgent_queued_def by auto
  have n9: "\<not> mw_urgent_pending (ws_writer ?s9)" by (simp add: retire_if_idle_def enqueue_put_def)
  have f9: "ws_phase ?s9 = Waiting" "ws_reserved ?s9 = []" "ws_signalled ?s9 = []" by simp_all
  show ?thesis by (rule exI [where x = ?s9], intro conjI) (rule r9 f9 u9 n9)+
qed

text \<open>
  C36. The urgent signal is only advisory: because \<open>_enqueue\<close> sets it before the put and outside the guard, and
  \<open>_refresh_urgent_signal\<close> clears it after looking at the queue, a state is reachable in which an urgent request is
  queued, every caller has finished its submission, and the signal is off.
\<close>

theorem urgent_signal_can_be_lost:
  "\<exists>s. writer_reachable ([] :: int list) (s :: (int list, string, int, int) writer_sys) \<and> ws_phase s = Waiting \<and> ws_reserved s = [] \<and>
     ws_signalled s = [] \<and> urgent_queued (ws_writer s) \<and> \<not> mw_urgent_pending (ws_writer s)"
proof -
  let ?a = "(demo_args 1)\<lparr>ra_priority := PyInt 5\<rparr>"
  obtain w0 :: "(int list, string, int, int) mutation_writer" where w0: "new_writer 1024 0 (Some 200) = Inr w0" "mw_queue w0 = []"
    by (simp add: new_writer_def)
  obtain ra w1 where a: "new_request ?a w0 = Inr (ra, w1)" "mr_priority ra = 5" by (simp add: new_request_def demo_args_def Let_def)
  then have "submit ?a w0 = Inr (mr_serial ra, enqueue ra w1)" by (simp add: submit_def)
  with submit_reachable [of "[]" "writer_start w0 []"] writer_reachable.start [OF w0(1), of "[]"]
  have r1: "writer_reachable [] (writer_start (enqueue ra w1) [])" by (fastforce simp: writer_start_def)
  obtain rb w2 where b: "new_request ?a (enqueue ra w1) = Inr (rb, w2)" "mr_priority rb = 5"
    by (simp add: new_request_def demo_args_def Let_def)
  let ?s = "(writer_start (enqueue ra w1) [])\<lparr>ws_writer := w2, ws_reserved := [rb]\<rparr>"
  have r2: "writer_reachable [] ?s"
    using writer_reachable.step [OF r1 writer_step.reserve] b(1) by (fastforce simp: writer_start_def)
  have "mw_queue w2 = [ra]" "mw_thread w2"
    using new_request_facts(7,8) [OF b(1)] new_request_facts(7) [OF a(1)] w0(2) by (simp_all add: queue_put_def enqueue_def)
  then show ?thesis using urgent_race [OF r2, of ra rb] a(2) b(2) by (simp add: writer_start_def)
qed

section \<open>What the lane promises to the operations submitted to it\<close>

text \<open>Two submissions to a new writer and the turn that executes them; what holds of both requests holds of all it logs.\<close>

lemma two_submissions:
  assumes steps: "new_writer m c configured = Inr w0" "submit a1 w0 = Inr (u1, w1)" "submit a2 w1 = Inr (u2, w2)"
      "run_turn (\<lambda>n. (0, [])) 0 None (w2, db) = Inr (w', db')"
    and ok: "\<And>wr r wr'. new_request a1 wr = Inr (r, wr') \<Longrightarrow> allowed r" "\<And>wr r wr'. new_request a2 wr = Inr (r, wr') \<Longrightarrow> allowed r"
  shows "\<exists>l. writer_reachable db ((writer_start w2 db)\<lparr>ws_writer := w', ws_db := db', ws_log := l\<rparr>) \<and> (\<forall>(b, failure)\<in>set l. \<forall>r\<in>set b. allowed r)"
proof -
  obtain r1 v1 where r1: "new_request a1 w0 = Inr (r1, v1)" "w1 = enqueue r1 v1"
    using steps(2) by (auto simp: submit_def res_bind_eq_Inr)
  obtain r2 v2 where r2: "new_request a2 w1 = Inr (r2, v2)" "w2 = enqueue r2 v2"
    using steps(3) by (auto simp: submit_def res_bind_eq_Inr)
  have "mw_queue w0 = []" using steps(1) by (auto simp: new_writer_def split: if_splits option.splits)
  then have q: "set (mw_queue w2) \<subseteq> {r1, r2}" "mw_thread w2"
    using new_request_facts(7) [OF r1(1)] new_request_facts(7) [OF r2(1)]
    by (auto simp: r1(2) r2(2) enqueue_def queue_put_def set_insort_key)
  have all: "\<forall>r\<in>set (mw_queue w2). allowed r" using q(1) ok(1) [OF r1(1)] ok(2) [OF r2(1)] by auto
  have "writer_reachable db (writer_start w0 db)" by (rule writer_reachable.start [OF steps(1)])
  then have "writer_reachable db (writer_start w1 db)" using submit_reachable [of db "writer_start w0 db"] steps(2)
    by (fastforce simp: writer_start_def)
  then have reach: "writer_reachable db (writer_start w2 db)" using submit_reachable [of db "writer_start w1 db"] steps(3)
    by (fastforce simp: writer_start_def)
  obtain l where l: "writer_reachable db ((writer_start w2 db)\<lparr>ws_writer := w', ws_db := db', ws_log := l\<rparr>)"
    "\<forall>x\<in>set l. set (fst x) \<subseteq> set (mw_queue w2)"
    using run_turn_steps [OF reach, of "\<lambda>n. (0, [])" 0 None] q(2) steps(4) by (auto simp: writer_start_def)
  have "\<forall>(b, failure)\<in>set l. \<forall>r\<in>set b. allowed r" using l(2) all by fastforce
  with l(1) show ?thesis by blast
qed

text \<open>
  A component that submits operations to the writer describes them by \<open>allowed\<close> and promises that each of them,
  when it succeeds, takes the database along a preorder. The lane promises in return that the whole database
  moves along that preorder, in every interleaving and whatever fails.
\<close>

locale mutation_lane =
  fixes allowed :: "('db, 'k, 'i, 'v) mutation_request \<Rightarrow> bool"
    and progress :: "'db \<Rightarrow> 'db \<Rightarrow> bool"
  assumes progress_refl: "progress db db"
    and progress_trans: "progress db1 db2 \<Longrightarrow> progress db2 db3 \<Longrightarrow> progress db1 db3"
    and single_progress: "allowed r \<Longrightarrow> run_single r db = (db', Inr v) \<Longrightarrow> progress db db'"
    and group_progress: "(\<And>r. r \<in> set g \<Longrightarrow> allowed r) \<Longrightarrow> run_group g db = (db', Inr outs) \<Longrightarrow> progress db db'"
begin

lemma unit_progress:
  assumes "\<And>r. r \<in> set (unit_requests grouped u) \<Longrightarrow> allowed r" and "execute_unit grouped u db = (db', outs)"
  shows "progress db db'"
proof (cases u)
  case (SingleUnit r)
  then show ?thesis using assms single_progress [of r db] progress_refl
    by (auto simp: execute_unit_def split: prod.splits sum.splits)
next
  case (GroupUnit k)
  obtain db1 r1 where g: "run_group (unit_requests grouped u) db = (db1, r1)" by fastforce
  have "execute_unit grouped u db = (case run_group (unit_requests grouped u) db of
       (db', Inl e) \<Rightarrow> (db, map (\<lambda>r. (mr_serial r, False, PExn e)) (unit_requests grouped u))
     | (db', Inr outs) \<Rightarrow> (db', zip (map mr_serial (unit_requests grouped u)) (map group_outcome outs)))"
  proof -
    have "unit_requests grouped (GroupUnit k) = (case dict_get grouped k of None \<Rightarrow> [] | Some g \<Rightarrow> g)" by (simp add: unit_requests_def)
    then show ?thesis by (simp only: GroupUnit execute_unit_def Let_def batch_unit.case)
  qed
  then show ?thesis using assms(2) group_progress [OF assms(1)] progress_refl g by (cases r1) auto
qed

lemma units_progress:
  assumes "\<And>u r. u \<in> set us \<Longrightarrow> r \<in> set (unit_requests grouped u) \<Longrightarrow> allowed r" and "execute_units grouped us db outs = (db', outs')"
  shows "progress db db'"
  using assms
proof (induction us arbitrary: db outs)
  case Nil
  then show ?case by (simp add: progress_refl)
next
  case (Cons u us)
  obtain db1 o1 where u: "execute_unit grouped u db = (db1, o1)" by fastforce
  have "progress db db1" by (rule unit_progress [OF _ u]) (use Cons.prems(1) in auto)
  moreover have "progress db1 db'"
    by (rule Cons.IH [of db1 "fold (\<lambda>(s, out) d. dict_set d s out) o1 outs"]) (use Cons.prems u in auto)
  ultimately show ?case by (rule progress_trans)
qed

lemma batch_progress:
  assumes "\<And>r. r \<in> set rs \<Longrightarrow> allowed r" and "transact_batch rs failure db = (db', outs)"
  shows "progress db db'"
proof (cases failure)
  case None
  obtain grouped us where b: "batch_units rs [] [] = (grouped, us)" by fastforce
  have "mset (concat (map (unit_requests grouped) us)) = mset rs"
    using batch_units_requests [OF b] by (simp add: dict_get_def)
  then have "set (concat (map (unit_requests grouped) us)) = set rs" by (rule mset_eq_setD)
  then show ?thesis
    using assms None by (intro units_progress [of us grouped db "[]" db' outs]) (auto simp: transact_batch_def execute_batch_def b)
qed (use assms progress_refl in \<open>simp add: transact_batch_def\<close>)

lemma replay_progress:
  assumes "\<forall>(b, failure)\<in>set l. \<forall>r\<in>set b. allowed r"
  shows "progress db (fst (replay l db))"
  using assms
proof (induction l db rule: replay.induct)
  case (2 b failure rest db)
  obtain db1 o1 where t: "transact_batch b failure db = (db1, o1)" by fastforce
  have "progress db db1" using batch_progress [OF _ t] 2(2) by simp
  moreover have "progress db1 (fst (replay rest db1))" using 2(1) [OF t [symmetric]] 2(2) by simp
  ultimately show ?case using progress_trans by (simp add: t split: prod.splits) (metis fst_conv)
qed (simp add: progress_refl)

lemma writer_progress:
  assumes "writer_reachable db s" and "\<forall>(b, failure)\<in>set (ws_log s). \<forall>r\<in>set b. allowed r"
  shows "progress db (ws_db s)"
proof -
  have "fst (replay (ws_log s) db) = ws_db s" using sys_inv_reachable [OF assms(1)] by (simp add: sys_inv_def log_inv_def)
  with replay_progress [OF assms(2), of db] show ?thesis by simp
qed

end

end
