(* ===== verification/Runtime_Updates.thy ===== *)
theory Runtime_Updates
  imports Mutation_Writer
begin

text \<open>
  Runtime observations of job attempts (\<open>storage/runtime_observations.py\<close>): the order of the watches of one
  invocation, the coalescing of queued writes, and the grouped update of the \<open>jobs\<close> rows that the writer lane
  executes. The \<open>WHERE\<close> clause is kept in SQL's three-valued logic. A stored JSON text is described by what the
  code reads from it.
\<close>

section \<open>SQL conditions\<close>

type_synonym sql_bool = "bool option"

definition sql_and :: "sql_bool \<Rightarrow> sql_bool \<Rightarrow> sql_bool" where
  "sql_and a b = (if a = Some False \<or> b = Some False then Some False else if a = Some True \<and> b = Some True then Some True else None)"

definition sql_or :: "sql_bool \<Rightarrow> sql_bool \<Rightarrow> sql_bool" where
  "sql_or a b = (if a = Some True \<or> b = Some True then Some True else if a = Some False \<and> b = Some False then Some False else None)"

definition sql_not :: "sql_bool \<Rightarrow> sql_bool" where
  "sql_not a = map_option Not a"

definition sql_eq :: "'a option \<Rightarrow> 'a option \<Rightarrow> sql_bool" where
  "sql_eq a b = (case a of None \<Rightarrow> None | Some x \<Rightarrow> (case b of None \<Rightarrow> None | Some y \<Rightarrow> Some (x = y)))"

definition sql_in :: "'a option \<Rightarrow> 'a list \<Rightarrow> sql_bool" where
  "sql_in a xs = (case a of None \<Rightarrow> None | Some x \<Rightarrow> Some (x \<in> set xs))"

definition sql_is_null :: "'a option \<Rightarrow> sql_bool" where
  "sql_is_null a = Some (a = None)"

lemma sql_true [simp]:
  "sql_and a b = Some True \<longleftrightarrow> a = Some True \<and> b = Some True"
  "sql_or a b = Some True \<longleftrightarrow> a = Some True \<or> b = Some True"
  "sql_not a = Some True \<longleftrightarrow> a = Some False"
  "sql_eq u v = Some True \<longleftrightarrow> (\<exists>x. u = Some x \<and> v = Some x)"
  "sql_in u xs = Some True \<longleftrightarrow> (\<exists>x\<in>set xs. u = Some x)"
  by (auto simp: sql_and_def sql_or_def sql_not_def sql_eq_def sql_in_def split: option.splits)

lemma sql_and_false [simp]: "sql_and a b = Some False \<longleftrightarrow> a = Some False \<or> b = Some False"
  by (auto simp: sql_and_def)

section \<open>Rows and updates\<close>

text \<open>The value of a runtime text: a JSON object with its \<open>state\<close> and \<open>watch_id\<close> members, or something else.\<close>

record runtime_doc =
  rd_state :: "string option"
  rd_watch :: "string option"
  rd_body :: string

datatype runtime_text = EmptyText | InvalidText | OtherJson | DictText runtime_doc

text \<open>
  A row of \<open>jobs\<close>. The status text is \<open>None\<close> when it is \<open>NULL\<close>, \<open>Some None\<close> when it is not JSON, and otherwise
  gives its \<open>execution_id\<close> member.
\<close>

record job_row =
  jr_generation :: int
  jr_active_execution :: "string option"
  jr_status :: string
  jr_status_execution :: "string option option option"
  jr_runtime :: "runtime_text option"

type_synonym job_rows = "string \<times> int \<Rightarrow> job_row option"

text \<open>\<open>RuntimeObservationSequence\<close>: objects are named by numbers, \<open>sequences q\<close> is the dictionary of object \<open>q\<close>.\<close>

type_synonym sequences = "nat \<Rightarrow> (string \<times> int) list"

type_synonym observation_order = "nat \<times> int"

definition seq_register :: "nat \<Rightarrow> string \<Rightarrow> sequences \<Rightarrow> sequences \<times> observation_order" where
  "seq_register q watch_id seqs = (let position = int (length (seqs q)) in
     (seqs(q := dict_set (seqs q) watch_id position), (q, position)))"

definition order_precedes :: "sequences \<Rightarrow> observation_order \<Rightarrow> string option \<Rightarrow> bool" where
  "order_precedes seqs order watch_id = (case watch_id of
     None \<Rightarrow> False
   | Some w \<Rightarrow> (case dict_get (seqs (fst order)) w of None \<Rightarrow> False | Some position \<Rightarrow> snd order < position))"

record runtime_update =
  ru_node :: string
  ru_job :: int
  ru_generation :: int
  ru_execution :: "string option"
  ru_state :: string
  ru_watch :: "string option"
  ru_serialized :: runtime_doc
  ru_order :: "observation_order option"

definition latest_runtime_update :: "runtime_update \<Rightarrow> runtime_update \<Rightarrow> runtime_update" where
  "latest_runtime_update previous incoming = (case (ru_order previous, ru_order incoming) of
     (Some (q, p), Some (q', p')) \<Rightarrow> if q = q' \<and> p > p' then previous else incoming
   | _ \<Rightarrow> incoming)"

definition attempt_key :: "runtime_update \<Rightarrow> string \<times> int \<times> int \<times> string option" where
  "attempt_key u = (ru_node u, ru_job u, ru_generation u, ru_execution u)"

definition ru_row :: "runtime_update \<Rightarrow> string \<times> int" where
  "ru_row u = (ru_node u, ru_job u)"

section \<open>The grouped write\<close>

fun latest_by_attempt :: "runtime_update list \<Rightarrow> ((string \<times> int \<times> int \<times> string option) \<times> runtime_update) list \<Rightarrow>
    ((string \<times> int \<times> int \<times> string option) \<times> runtime_update) list" where
  "latest_by_attempt [] latest = latest"
| "latest_by_attempt (u # us) latest = latest_by_attempt us (dict_set latest (attempt_key u)
     (case dict_get latest (attempt_key u) of None \<Rightarrow> u | Some previous \<Rightarrow> latest_runtime_update previous u))"

text \<open>The \<open>watch_id\<close> of the current document, as the reading loop finds it.\<close>

definition current_watch :: "job_rows \<Rightarrow> string \<times> int \<Rightarrow> string option" where
  "current_watch rows k = (case rows k of None \<Rightarrow> None | Some row \<Rightarrow>
     (case jr_runtime row of Some (DictText d) \<Rightarrow> rd_watch d | _ \<Rightarrow> None))"

definition accept_update :: "sequences \<Rightarrow> job_rows \<Rightarrow> runtime_update \<Rightarrow> bool" where
  "accept_update seqs rows u = (case ru_order u of
     None \<Rightarrow> True
   | Some order \<Rightarrow> \<not> order_precedes seqs order (current_watch rows (ru_row u)))"

definition terminal_runtime_states :: "string list" where
  "terminal_runtime_states = [''timed_out'', ''completed'', ''failed'', ''restarted'', ''recovered'']"

definition owner_clause :: "runtime_update \<Rightarrow> job_row \<Rightarrow> sql_bool" where
  "owner_clause u row =
     sql_or (sql_and (sql_is_null (ru_execution u)) (sql_is_null (jr_active_execution row)))
     (sql_or (sql_eq (jr_active_execution row) (ru_execution u))
       (sql_and (sql_in (Some (ru_state u)) [''timed_out'', ''completed'', ''failed'', ''recovered''])
       (sql_and (sql_in (Some (jr_status row)) [''done'', ''failed'', ''skipped'', ''cancelled''])
       (sql_and (case jr_status_execution row of None \<Rightarrow> None | Some j \<Rightarrow> Some (j \<noteq> None))
         (sql_eq (case jr_status_execution row of Some (Some x) \<Rightarrow> x | _ \<Rightarrow> None) (ru_execution u))))))"

definition runtime_valid :: "job_row \<Rightarrow> sql_bool" where
  "runtime_valid row = (case jr_runtime row of
     None \<Rightarrow> None | Some (DictText _) \<Rightarrow> Some True | Some OtherJson \<Rightarrow> Some True | Some _ \<Rightarrow> Some False)"

definition runtime_member :: "(runtime_doc \<Rightarrow> string option) \<Rightarrow> job_row \<Rightarrow> string option" where
  "runtime_member f row = (case jr_runtime row of Some (DictText d) \<Rightarrow> f d | _ \<Rightarrow> None)"

definition regress_clause :: "runtime_update \<Rightarrow> job_row \<Rightarrow> sql_bool" where
  "regress_clause u row =
     sql_and (sql_eq (Some (ru_state u)) (Some ''running''))
     (sql_and (sql_not (sql_is_null (jr_runtime row)))
     (sql_and (runtime_valid row)
     (sql_and (sql_eq (runtime_member rd_watch row) (ru_watch u))
       (sql_in (runtime_member rd_state row) terminal_runtime_states))))"

definition update_clause :: "runtime_update \<Rightarrow> job_row \<Rightarrow> sql_bool" where
  "update_clause u row = sql_and (Some (jr_generation row = ru_generation u)) (sql_and (owner_clause u row) (sql_not (regress_clause u row)))"

definition update_row :: "runtime_update \<Rightarrow> job_rows \<Rightarrow> job_rows" where
  "update_row u rows = (case rows (ru_row u) of
     None \<Rightarrow> rows
   | Some row \<Rightarrow> if update_clause u row = Some True
       then rows(ru_row u \<mapsto> row\<lparr>jr_runtime := Some (DictText (ru_serialized u))\<rparr>) else rows)"

definition accepted_updates :: "sequences \<Rightarrow> job_rows \<Rightarrow> runtime_update list \<Rightarrow> runtime_update list" where
  "accepted_updates seqs rows us = filter (accept_update seqs rows) (map snd (latest_by_attempt us []))"

text \<open>The operation handed to the lane; its items are the updates taken from the slots.\<close>

definition apply_runtime_updates :: "sequences \<Rightarrow> job_rows \<Rightarrow> runtime_update option list \<Rightarrow> job_rows \<times> unit outcome list res" where
  "apply_runtime_updates seqs rows items =
     (if None \<in> set items then (rows, Inl (AttributeError ''take''))
      else (fold update_row (accepted_updates seqs rows (map the items)) rows, Inr (map (\<lambda>_. (True, PVal ())) items)))"

section \<open>Which updates a batch writes\<close>

lemma latest_cases: "latest_runtime_update p u = p \<or> latest_runtime_update p u = u"
  by (auto simp: latest_runtime_update_def split: option.splits)

definition keyed :: "runtime_update set \<Rightarrow> ((string \<times> int \<times> int \<times> string option) \<times> runtime_update) list \<Rightarrow> bool" where
  "keyed us d \<longleftrightarrow> distinct (dict_keys d) \<and> (\<forall>k u. dict_get d k = Some u \<longrightarrow> attempt_key u = k \<and> u \<in> us)"

lemma keyedD: "keyed us d \<Longrightarrow> dict_get d k = Some u \<Longrightarrow> attempt_key u = k \<and> u \<in> us"
  unfolding keyed_def by blast

lemma latest_by_attempt_keyed: "keyed us d \<Longrightarrow> set vs \<subseteq> us \<Longrightarrow> keyed us (latest_by_attempt vs d)"
proof (induction vs d rule: latest_by_attempt.induct)
  case (2 u vs d)
  let ?v = "case dict_get d (attempt_key u) of None \<Rightarrow> u | Some previous \<Rightarrow> latest_runtime_update previous u"
  have "attempt_key ?v = attempt_key u \<and> ?v \<in> us"
  proof (cases "dict_get d (attempt_key u)")
    case None
    then show ?thesis using 2(3) by simp
  next
    case (Some p)
    then have "attempt_key p = attempt_key u" "p \<in> us" using keyedD [OF 2(2)] by auto
    then show ?thesis using Some 2(3) latest_cases [of p u] by auto
  qed
  then have "keyed us (dict_set d (attempt_key u) ?v)" using 2(2) by (auto simp: keyed_def dict_simps)
  then show ?case using 2 by simp
qed simp

lemma accepted_updates_facts:
  shows "set (accepted_updates seqs rows us) \<subseteq> set us" "distinct (map attempt_key (accepted_updates seqs rows us))"
    "\<And>u. u \<in> set (accepted_updates seqs rows us) \<Longrightarrow> accept_update seqs rows u"
proof -
  let ?d = "latest_by_attempt us []"
  have k: "keyed (set us) ?d" by (rule latest_by_attempt_keyed) (simp_all add: keyed_def dict_keys_def dict_get_def)
  have mem: "attempt_key u = k \<and> u \<in> set us" if "(k, u) \<in> set ?d" for k u
    using keyedD [OF k dict_get_in [OF _ that]] k by (simp add: keyed_def)
  then show "set (accepted_updates seqs rows us) \<subseteq> set us" by (auto simp: accepted_updates_def)
  have "map attempt_key (map snd ?d) = dict_keys ?d" using mem by (auto simp: dict_keys_def intro!: map_cong)
  then have "distinct (map attempt_key (map snd ?d))" using k by (simp add: keyed_def)
  then show "distinct (map attempt_key (accepted_updates seqs rows us))" unfolding accepted_updates_def by (rule distinct_map_filter)
qed (simp add: accepted_updates_def)

lemma update_row_other: "ru_row u \<noteq> k \<Longrightarrow> update_row u rows k = rows k"
  by (auto simp: update_row_def split: option.splits)

lemma fold_update_other: "k \<notin> ru_row ` set us \<Longrightarrow> fold update_row us rows k = rows k"
  by (induction us arbitrary: rows) (auto simp: update_row_other)

text \<open>A row is written by at most one update when all its updates belong to one attempt key.\<close>

lemma fold_update_single:
  assumes "distinct (map attempt_key us)" and "\<And>u. u \<in> set us \<Longrightarrow> ru_row u = k \<Longrightarrow> attempt_key u = key"
  shows "fold update_row us rows k = rows k \<or> (\<exists>u\<in>set us. ru_row u = k \<and> fold update_row us rows k = update_row u rows k)"
  using assms
proof (induction us arbitrary: rows)
  case (Cons u us)
  show ?case
  proof (cases "ru_row u = k")
    case True
    have "ru_row v \<noteq> k" if "v \<in> set us" for v using Cons.prems True that by (metis list.set_intros image_eqI distinct.simps(2) list.simps(9) list.set_map)
    then have "k \<notin> ru_row ` set us" by auto
    from fold_update_other [OF this, of "update_row u rows"] True show ?thesis by auto
  next
    case False
    have "fold update_row us (update_row u rows) k = update_row u rows k \<or>
        (\<exists>v\<in>set us. ru_row v = k \<and> fold update_row us (update_row u rows) k = update_row v (update_row u rows) k)"
      by (rule Cons.IH) (use Cons.prems in auto)
    moreover have "update_row v (update_row u rows) k = update_row v rows k" if "ru_row v = k" for v
      using False that update_row_other [of u k rows] by (auto simp: update_row_def split: option.splits)
    ultimately show ?thesis using update_row_other [OF False] by auto
  qed
qed simp

section \<open>Observations never go back\<close>

text \<open>The position of the watch stored in a row, in one sequence, and whether its state is terminal.\<close>

definition stored_rank :: "sequences \<Rightarrow> nat \<Rightarrow> job_row option \<Rightarrow> (int \<times> bool) option" where
  "stored_rank seqs q r = (case r of Some row \<Rightarrow>
      (case jr_runtime row of Some (DictText d) \<Rightarrow> (case rd_watch d of
         Some w \<Rightarrow> map_option (\<lambda>p. (p, rd_state d \<in> Some ` set terminal_runtime_states)) (dict_get (seqs q) w)
       | None \<Rightarrow> None) | _ \<Rightarrow> None)
   | None \<Rightarrow> None)"

definition observed_on :: "sequences \<Rightarrow> nat \<Rightarrow> string \<times> int \<Rightarrow> job_rows \<Rightarrow> job_rows \<Rightarrow> bool" where
  "observed_on seqs q k rows rows' \<longleftrightarrow> (\<forall>p t. stored_rank seqs q (rows k) = Some (p, t) \<longrightarrow>
     (\<exists>p' t'. stored_rank seqs q (rows' k) = Some (p', t') \<and> (p < p' \<or> p = p' \<and> (t \<longrightarrow> t'))))"

text \<open>The watches of a sequence have different positions.\<close>

definition seq_ok :: "(string \<times> int) list \<Rightarrow> bool" where
  "seq_ok d \<longleftrightarrow> distinct (dict_keys d) \<and> map snd d = map int [0..<length d]"

text \<open>An update of an invocation, as \<open>_persist_runtime\<close> builds it: its watch and state are in the text and its order is that of its watch.\<close>

definition invocation_update :: "sequences \<Rightarrow> nat \<Rightarrow> string \<times> int \<times> int \<times> string option \<Rightarrow> runtime_update \<Rightarrow> bool" where
  "invocation_update seqs q key u \<longleftrightarrow> attempt_key u = key \<and> rd_watch (ru_serialized u) = ru_watch u \<and>
     rd_state (ru_serialized u) = Some (ru_state u) \<and> (ru_state u = ''running'' \<or> ru_state u \<in> set terminal_runtime_states) \<and>
     (\<exists>w p. ru_watch u = Some w \<and> dict_get (seqs q) w = Some p \<and> ru_order u = Some (q, p))"

lemma seq_ok_inj:
  assumes "seq_ok d" "dict_get d w = Some p" "dict_get d w' = Some p"
  shows "w = w'"
proof -
  have "distinct (map snd d)" using assms(1) by (simp add: seq_ok_def distinct_map)
  moreover have "(w, p) \<in> set d" "(w', p) \<in> set d" using assms(2,3) by (simp_all add: dict_get_def map_of_SomeD)
  ultimately show ?thesis by (metis Pair_inject distinct_map inj_on_eq_iff snd_conv)
qed

lemma seq_register_ok:
  assumes "seq_ok (seqs q)" "dict_get (seqs q) w = None"
  shows "seq_ok (fst (seq_register q w seqs) q)"
proof -
  have snoc: "dict_set d w p = d @ [(w, p)]" if "dict_get d w = None" for d and p :: int
    using that by (induction d w p rule: dict_set.induct) (auto simp: dict_get_def split: if_splits)
  show ?thesis using assms snoc [OF assms(2)] by (simp add: seq_register_def Let_def seq_ok_def dict_get_None_iff dict_keys_def)
qed

lemma observed_on_refl: "observed_on seqs q k rows rows"
  by (simp add: observed_on_def)

lemma observed_on_trans: "observed_on seqs q k r1 r2 \<Longrightarrow> observed_on seqs q k r2 r3 \<Longrightarrow> observed_on seqs q k r1 r3"
  unfolding observed_on_def by (metis order.strict_trans)

lemma update_row_observed:
  assumes ok: "seq_ok (seqs q)" and inv: "invocation_update seqs q key u" and k: "ru_row u = k" and acc: "accept_update seqs rows u"
    and rank: "stored_rank seqs q (rows k) = Some (p, t)"
  shows "\<exists>p' t'. stored_rank seqs q (update_row u rows k) = Some (p', t') \<and> (p < p' \<or> p = p' \<and> (t \<longrightarrow> t'))"
proof (cases "update_row u rows k = rows k")
  case False
  then obtain row where row: "rows k = Some row" "update_clause u row = Some True"
    "update_row u rows k = Some (row\<lparr>jr_runtime := Some (DictText (ru_serialized u))\<rparr>)"
    using k by (auto simp: update_row_def split: option.splits if_splits)
  obtain d w where d: "jr_runtime row = Some (DictText d)" "rd_watch d = Some w" "dict_get (seqs q) w = Some p"
    "t = (rd_state d \<in> Some ` set terminal_runtime_states)"
    using rank row(1) by (auto simp: stored_rank_def split: option.splits runtime_text.splits)
  obtain w' p' where u: "ru_watch u = Some w'" "dict_get (seqs q) w' = Some p'" "ru_order u = Some (q, p')"
    "rd_watch (ru_serialized u) = ru_watch u" "rd_state (ru_serialized u) = Some (ru_state u)"
    "ru_state u = ''running'' \<or> ru_state u \<in> set terminal_runtime_states"
    using inv by (auto simp: invocation_update_def)
  have new: "stored_rank seqs q (update_row u rows k) = Some (p', ru_state u \<in> set terminal_runtime_states)"
    using row(3) u by (auto simp: stored_rank_def)
  have "current_watch rows (ru_row u) = Some w" using k row(1) d by (simp add: current_watch_def)
  then have le: "p \<le> p'" using acc u(3) d(3) by (auto simp: accept_update_def order_precedes_def)
  have "t \<longrightarrow> ru_state u \<in> set terminal_runtime_states" if "p = p'"
  proof
    assume t: t
    have w: "w' = w" using seq_ok_inj [OF ok] u(2) d(3) that by blast
    have "regress_clause u row = Some False" using row(2) by (simp add: update_clause_def)
    moreover have "sql_eq (runtime_member rd_watch row) (ru_watch u) = Some True" "sql_in (runtime_member rd_state row) terminal_runtime_states = Some True"
      "runtime_valid row = Some True" "sql_not (sql_is_null (jr_runtime row)) = Some True"
      using d u(1) w t by (auto simp: runtime_member_def runtime_valid_def sql_is_null_def)
    ultimately have "sql_eq (Some (ru_state u)) (Some ''running'') = Some False" by (simp add: regress_clause_def)
    then have "ru_state u \<noteq> ''running''" by (simp add: sql_eq_def)
    then show "ru_state u \<in> set terminal_runtime_states" using u(6) by blast
  qed
  then show ?thesis using new le by (intro exI [of _ p'] exI [of _ "ru_state u \<in> set terminal_runtime_states"]) auto
qed (use rank in auto)

lemma accepted_observed:
  assumes ok: "seq_ok (seqs q)" and all: "\<forall>u\<in>set us. ru_row u = k \<longrightarrow> invocation_update seqs q key u"
  shows "observed_on seqs q k rows (fold update_row (accepted_updates seqs rows us) rows)"
proof -
  let ?as = "accepted_updates seqs rows us"
  note f = accepted_updates_facts [where seqs = seqs and rows = rows and us = us]
  have "\<And>u. u \<in> set ?as \<Longrightarrow> ru_row u = k \<Longrightarrow> attempt_key u = key" using f(1) all by (auto simp: invocation_update_def)
  then consider "fold update_row ?as rows k = rows k"
    | u where "u \<in> set ?as" "ru_row u = k" "fold update_row ?as rows k = update_row u rows k"
    using fold_update_single [OF f(2), of k key rows] by blast
  then show ?thesis
  proof cases
    case 2
    then show ?thesis using update_row_observed [OF ok _ 2(2) f(3) [OF 2(1)]] all f(1) unfolding observed_on_def by (metis subsetD)
  qed (auto simp: observed_on_def)
qed

text \<open>
  The requests in the lane that concern one invocation: its own runtime updates, and any other operation as long
  as it does not itself take back an observation of the invocation.
\<close>

definition runtime_request :: "sequences \<Rightarrow> nat \<Rightarrow> string \<times> int \<times> int \<times> string option \<Rightarrow> (job_rows, 'k, runtime_update, unit) mutation_request \<Rightarrow> bool" where
  "runtime_request seqs q key r \<longleftrightarrow> seq_ok (seqs q) \<and>
     (\<forall>u. mr_group_item r = Some u \<longrightarrow> ru_row u = (fst key, fst (snd key)) \<longrightarrow> invocation_update seqs q key u) \<and>
     (\<forall>f. mr_group_operation r = Some f \<longrightarrow> f = apply_runtime_updates seqs) \<and>
     (\<forall>f db db' v. mr_operation r = Some f \<longrightarrow> f db = (db', Inr v) \<longrightarrow> observed_on seqs q (fst key, fst (snd key)) db db')"

interpretation runtime_lane: mutation_lane "runtime_request seqs q key" "observed_on seqs q (fst key, fst (snd key))"
proof
  show "observed_on seqs q (fst key, fst (snd key)) db db" for db by (rule observed_on_refl)
  show "observed_on seqs q (fst key, fst (snd key)) a c"
    if "observed_on seqs q (fst key, fst (snd key)) a b" "observed_on seqs q (fst key, fst (snd key)) b c" for a b c
    using that by (rule observed_on_trans)
  show "observed_on seqs q (fst key, fst (snd key)) db db'" if "runtime_request seqs q key r" "run_single r db = (db', Inr v)" for r db db' v
    using that by (auto simp: runtime_request_def run_single_def split: option.splits)
  show "observed_on seqs q (fst key, fst (snd key)) db db'"
    if g: "\<And>r. r \<in> set g \<Longrightarrow> runtime_request seqs q key r" and r: "run_group g db = (db', Inr outs)" for g db db' outs
  proof -
    obtain r0 rs f where g0: "g = r0 # rs" "mr_group_operation r0 = Some f" "f db (map mr_group_item g) = (db', Inr outs)"
      using r by (auto simp: run_group_def split: list.splits option.splits prod.splits sum.splits if_splits)
    have ok: "seq_ok (seqs q)" "f = apply_runtime_updates seqs" using g [of r0] g0(1,2) by (auto simp: runtime_request_def)
    then have items: "None \<notin> set (map mr_group_item g)"
      and db': "db' = fold update_row (accepted_updates seqs db (map the (map mr_group_item g))) db"
      using g0(3) by (auto simp: apply_runtime_updates_def simp del: set_map split: if_splits)
    have "\<forall>u\<in>set (map the (map mr_group_item g)). ru_row u = (fst key, fst (snd key)) \<longrightarrow> invocation_update seqs q key u"
    proof
      fix u assume "u \<in> set (map the (map mr_group_item g))"
      then obtain r where r: "r \<in> set g" "u = the (mr_group_item r)" by auto
      then have "mr_group_item r \<in> set (map mr_group_item g)" by simp
      then have "mr_group_item r = Some u" using items r(2) by (metis option.collapse)
      then show "ru_row u = (fst key, fst (snd key)) \<longrightarrow> invocation_update seqs q key u" using g [OF r(1)] by (auto simp: runtime_request_def)
    qed
    from accepted_observed [OF ok(1) this, of db] show ?thesis unfolding db' .
  qed
qed

text \<open>
  C37. Runtime observations never go back: whatever the batching, the interleaving and the failures of the writer
  lane, while the updates of a job come from one invocation, the attempt whose observation its row shows is never
  replaced by an earlier attempt of the invocation, and a terminal state of an attempt is never replaced by a
  running state of the same attempt.
\<close>

theorem observations_never_go_back:
  assumes "writer_reachable rows s" and "\<forall>(b, failure)\<in>set (ws_log s). \<forall>r\<in>set b. runtime_request seqs q key r"
  shows "observed_on seqs q (fst key, fst (snd key)) rows (ws_db s)"
  by (rule runtime_lane.writer_progress [OF assms])

definition demo_rows :: job_rows where
  "demo_rows = (\<lambda>k. if k = (''node'', 7) then Some \<lparr>jr_generation = 1, jr_active_execution = Some ''e'', jr_status = ''running'',
     jr_status_execution = None, jr_runtime = Some (DictText \<lparr>rd_state = Some ''failed'', rd_watch = Some ''w0'', rd_body = []\<rparr>)\<rparr> else None)"

definition demo_sequences :: sequences where
  "demo_sequences = fst (seq_register 0 ''w1'' (fst (seq_register 0 ''w0'' (\<lambda>_. []))))"

text \<open>A running update of the given watch; the demonstration submits that of the second attempt and a late one of the first.\<close>

definition demo_update :: "string \<Rightarrow> int \<Rightarrow> runtime_update" where
  "demo_update w p = \<lparr>ru_node = ''node'', ru_job = 7, ru_generation = 1, ru_execution = Some ''e'', ru_state = ''running'',
     ru_watch = Some w, ru_serialized = \<lparr>rd_state = Some ''running'', rd_watch = Some w, rd_body = ''x''\<rparr>, ru_order = Some (0, p)\<rparr>"

definition demo_runtime_args :: "string \<Rightarrow> int \<Rightarrow> (job_rows, string, runtime_update, unit) request_args" where
  "demo_runtime_args w p = \<lparr>ra_priority = PyInt 10, ra_collect_seconds = Some 1, ra_weight = PyInt 1, ra_operation = None,
     ra_group_key = Some ''runtime'', ra_group_item = Some (demo_update w p), ra_group_operation = Some (apply_runtime_updates demo_sequences)\<rparr>"

definition demo_runtime_turn :: "((job_rows, string, runtime_update, unit) mutation_writer \<times> job_rows) res" where
  "demo_runtime_turn = res_bind (new_writer 1024 0 (Some 200)) (\<lambda>w0. res_bind (submit (demo_runtime_args ''w1'' 1) w0) (\<lambda>(_, w1).
     res_bind (submit (demo_runtime_args ''w0'' 0) w1) (\<lambda>(_, w2). run_turn (\<lambda>n. (0, [])) 0 None (w2, demo_rows))))"

lemma demo_runtime_turn_shows: "case demo_runtime_turn of Inl _ \<Rightarrow> False
   | Inr (w, rows) \<Rightarrow> mw_queue w = [] \<and> current_watch rows (''node'', 7) = Some ''w1''"
  by code_simp

lemma demo_requests_ok:
  assumes "new_request (demo_runtime_args w p) wr = Inr (r, wr')" "(w, p) \<in> {(''w0'', 0), (''w1'', 1)}"
  shows "runtime_request demo_sequences 0 (''node'', 7, 1, Some ''e'') r"
proof -
  have seqs: "demo_sequences 0 = [(''w0'', 0), (''w1'', 1)]" by code_simp
  have "mr_operation r = None" "mr_group_item r = Some (demo_update w p)" "mr_group_operation r = Some (apply_runtime_updates demo_sequences)"
    using assms(1) by (auto simp: new_request_def demo_runtime_args_def Let_def)
  moreover have "seq_ok (demo_sequences 0)" by (simp add: seqs seq_ok_def dict_keys_def)
  moreover have "invocation_update demo_sequences 0 (''node'', 7, 1, Some ''e'') (demo_update w p)"
    using assms(2) by (auto simp: invocation_update_def demo_update_def attempt_key_def seqs dict_get_def)
  ultimately show ?thesis by (simp add: runtime_request_def)
qed

theorem observations_never_go_back_witness:
  "\<exists>rows'. observed_on demo_sequences 0 (''node'', 7) demo_rows rows' \<and> current_watch demo_rows (''node'', 7) = Some ''w0'' \<and>
     current_watch rows' (''node'', 7) = Some ''w1''"
proof -
  have shows_w1: "case demo_runtime_turn of Inl _ \<Rightarrow> False | Inr (w, rows) \<Rightarrow> mw_queue w = [] \<and> current_watch rows (''node'', 7) = Some ''w1''"
    by (rule demo_runtime_turn_shows)
  then obtain w' rows' where turn: "demo_runtime_turn = Inr (w', rows')" by (auto split: sum.splits)
  then obtain w0 u1 w1 u2 w2 where steps: "new_writer 1024 0 (Some 200) = Inr w0" "submit (demo_runtime_args ''w1'' 1) w0 = Inr (u1, w1)"
    "submit (demo_runtime_args ''w0'' 0) w1 = Inr (u2, w2)" "run_turn (\<lambda>n. (0, [])) 0 None (w2, demo_rows) = Inr (w', rows')"
    by (auto simp: demo_runtime_turn_def res_bind_eq_Inr)
  obtain l where l: "writer_reachable demo_rows ((writer_start w2 demo_rows)\<lparr>ws_writer := w', ws_db := rows', ws_log := l\<rparr>)"
    "\<forall>(b, failure)\<in>set l. \<forall>r\<in>set b. runtime_request demo_sequences 0 (''node'', 7, 1, Some ''e'') r"
    using two_submissions [OF steps, of "runtime_request demo_sequences 0 (''node'', 7, 1, Some ''e'')"] demo_requests_ok by blast
  then have "observed_on demo_sequences 0 (''node'', 7) demo_rows rows'"
    using l(2) observations_never_go_back [OF l(1), of demo_sequences 0 "(''node'', 7, 1, Some ''e'')"] by simp
  moreover have "current_watch demo_rows (''node'', 7) = Some ''w0''" by code_simp
  moreover have "current_watch rows' (''node'', 7) = Some ''w1''" using case_InrD [OF shows_w1 turn] by simp
  ultimately show ?thesis by auto
qed

section \<open>Coalescing queued writes\<close>

text \<open>
  \<open>write_job_runtime\<close> after its name and number checks: the fields of the payload it reads, the slots by number,
  the table of replaceable slots, and the slots handed to the lane in order. A generation that is not an integer
  counts as zero.
\<close>

record runtime_data =
  rt_state :: "string option"
  rt_generation :: "int option"
  rt_execution :: "string option"
  rt_watch :: "string option"
  rt_body :: string

record runtime_slot =
  sl_latest :: runtime_update
  sl_accepting :: bool

type_synonym slot_key = "string \<times> int \<times> int \<times> string option \<times> int"

record slot_table =
  st_slots :: "nat \<Rightarrow> runtime_slot option"
  st_next :: nat
  st_table :: "(slot_key \<times> nat) list"
  st_submitted :: "nat list"

definition make_update :: "string \<Rightarrow> int \<Rightarrow> runtime_data \<Rightarrow> observation_order option \<Rightarrow> runtime_update" where
  "make_update node job data order = \<lparr>ru_node = node, ru_job = job,
     ru_generation = (case rt_generation data of None \<Rightarrow> 0 | Some g \<Rightarrow> g), ru_execution = rt_execution data,
     ru_state = (case rt_state data of None \<Rightarrow> [] | Some x \<Rightarrow> x), ru_watch = rt_watch data,
     ru_serialized = \<lparr>rd_state = rt_state data, rd_watch = rt_watch data, rd_body = rt_body data\<rparr>, ru_order = order\<rparr>"

definition submit_slot :: "runtime_update \<Rightarrow> slot_table \<Rightarrow> nat \<times> slot_table" where
  "submit_slot u st = (st_next st, st\<lparr>st_slots := (st_slots st)(st_next st \<mapsto> \<lparr>sl_latest = u, sl_accepting = True\<rparr>),
     st_next := st_next st + 1, st_submitted := st_submitted st @ [st_next st]\<rparr>)"

definition slot_key_of :: "runtime_update \<Rightarrow> int \<Rightarrow> slot_key" where
  "slot_key_of u priority = (ru_node u, ru_job u, ru_generation u, ru_execution u, priority)"

definition write_update :: "runtime_update \<Rightarrow> bool \<Rightarrow> int \<Rightarrow> slot_table \<Rightarrow> nat \<times> slot_table" where
  "write_update u wait priority st =
     (if wait then submit_slot u st
      else let key = slot_key_of u priority;
               fresh = (case submit_slot u st of (i, st') \<Rightarrow> (i, st'\<lparr>st_table := dict_set (st_table st) key i\<rparr>)) in
        case dict_get (st_table st) key of
          None \<Rightarrow> fresh
        | Some i \<Rightarrow> (case st_slots st i of
            None \<Rightarrow> fresh
          | Some slot \<Rightarrow> if sl_accepting slot
              then (i, st\<lparr>st_slots := (st_slots st)(i \<mapsto> slot\<lparr>sl_latest := latest_runtime_update (sl_latest slot) u\<rparr>)\<rparr>)
              else fresh))"

definition write_job_runtime :: "string \<Rightarrow> int \<Rightarrow> runtime_data \<Rightarrow> bool \<Rightarrow> int \<Rightarrow> observation_order option \<Rightarrow> slot_table \<Rightarrow> nat \<times> slot_table" where
  "write_job_runtime node job data wait priority order st = write_update (make_update node job data order) wait priority st"

definition take_slot :: "nat \<Rightarrow> slot_table \<Rightarrow> slot_table" where
  "take_slot i st = (case st_slots st i of None \<Rightarrow> st
     | Some slot \<Rightarrow> st\<lparr>st_slots := (st_slots st)(i \<mapsto> slot\<lparr>sl_accepting := False\<rparr>)\<rparr>)"

text \<open>The callback on a completed future.\<close>

definition clear_slot :: "slot_key \<Rightarrow> nat \<Rightarrow> slot_table \<Rightarrow> slot_table" where
  "clear_slot key i st = (if dict_get (st_table st) key = Some i then st\<lparr>st_table := dict_pop (st_table st) key\<rparr> else st)"

datatype slot_event = Write runtime_update bool int | Take nat | Clear slot_key nat

text \<open>The table after some events, and the update and slot of every write.\<close>

fun slot_events :: "slot_event list \<Rightarrow> slot_table \<Rightarrow> slot_table \<times> (runtime_update \<times> nat) list" where
  "slot_events [] st = (st, [])"
| "slot_events (Write u wait priority # es) st = (case write_update u wait priority st of
     (i, st') \<Rightarrow> (case slot_events es st' of (st'', ws) \<Rightarrow> (st'', (u, i) # ws)))"
| "slot_events (Take i # es) st = slot_events es (take_slot i st)"
| "slot_events (Clear key i # es) st = slot_events es (clear_slot key i st)"

definition empty_slots :: slot_table where
  "empty_slots = \<lparr>st_slots = (\<lambda>_. None), st_next = 0, st_table = [], st_submitted = []\<rparr>"

definition covers :: "nat \<Rightarrow> slot_table \<Rightarrow> runtime_update \<Rightarrow> nat \<Rightarrow> bool" where
  "covers q st u i \<longleftrightarrow> i \<in> set (st_submitted st) \<and> (\<exists>slot. st_slots st i = Some slot \<and> attempt_key (sl_latest slot) = attempt_key u \<and>
     (\<forall>p. ru_order u = Some (q, p) \<longrightarrow> (\<exists>p'\<ge>p. ru_order (sl_latest slot) = Some (q, p'))))"

definition slots_ok :: "nat \<Rightarrow> slot_table \<Rightarrow> bool" where
  "slots_ok q st \<longleftrightarrow> (\<forall>i. st_slots st i \<noteq> None \<longrightarrow> i < st_next st \<and> i \<in> set (st_submitted st)) \<and>
     (\<forall>i slot. st_slots st i = Some slot \<longrightarrow> (\<exists>p. ru_order (sl_latest slot) = Some (q, p))) \<and>
     (\<forall>u priority i slot. dict_get (st_table st) (slot_key_of u priority) = Some i \<longrightarrow> st_slots st i = Some slot \<longrightarrow>
        attempt_key (sl_latest slot) = attempt_key u) \<and>
     (\<forall>key i. dict_get (st_table st) key = Some i \<longrightarrow> i < st_next st)"

text \<open>What every event keeps: the slots already submitted only ever move to later observations, and a taken slot not at all.\<close>

definition slots_advance :: "nat \<Rightarrow> slot_table \<Rightarrow> slot_table \<Rightarrow> bool" where
  "slots_advance q st st' \<longleftrightarrow> set (st_submitted st) \<subseteq> set (st_submitted st') \<and>
     (\<forall>i slot. st_slots st i = Some slot \<longrightarrow> covers q st' (sl_latest slot) i \<and>
       (\<not> sl_accepting slot \<longrightarrow> st_slots st' i = Some slot))"

lemma slots_okD:
  assumes "slots_ok q st" "st_slots st i = Some slot"
  shows "i < st_next st" "i \<in> set (st_submitted st)" "\<exists>p. ru_order (sl_latest slot) = Some (q, p)"
    "dict_get (st_table st) (slot_key_of u priority) = Some i \<Longrightarrow> attempt_key (sl_latest slot) = attempt_key u"
  using assms unfolding slots_ok_def by blast+

lemma slots_ok_table: "slots_ok q st \<Longrightarrow> dict_get (st_table st) key = Some i \<Longrightarrow> i < st_next st"
  unfolding slots_ok_def by blast

lemma covers_refl: "slots_ok q st \<Longrightarrow> st_slots st i = Some slot \<Longrightarrow> covers q st (sl_latest slot) i"
  by (auto simp: covers_def slots_okD)

lemma covers_trans:
  assumes "covers q st u i" "slots_advance q st st'"
  shows "covers q st' u i"
proof -
  obtain slot where s: "i \<in> set (st_submitted st)" "st_slots st i = Some slot" "attempt_key (sl_latest slot) = attempt_key u"
    "\<And>p. ru_order u = Some (q, p) \<Longrightarrow> \<exists>p'\<ge>p. ru_order (sl_latest slot) = Some (q, p')"
    using assms(1) by (auto simp: covers_def)
  then have "covers q st' (sl_latest slot) i" using assms(2) by (auto simp: slots_advance_def)
  then show ?thesis using s(3,4) unfolding covers_def by (metis order.trans)
qed

lemma slots_advance_trans:
  assumes "slots_advance q st1 st2" "slots_advance q st2 st3"
  shows "slots_advance q st1 st3"
proof -
  have "covers q st3 (sl_latest slot) i" "\<not> sl_accepting slot \<longrightarrow> st_slots st3 i = Some slot" if "st_slots st1 i = Some slot" for i slot
    using that assms covers_trans [OF _ assms(2)] unfolding slots_advance_def by blast+
  then show ?thesis using assms unfolding slots_advance_def by blast
qed

lemma slot_key_attempt: "slot_key_of u pr = slot_key_of v pr' \<Longrightarrow> attempt_key u = attempt_key v"
  by (simp add: slot_key_of_def attempt_key_def)

lemma submit_slot_ok:
  assumes ok: "slots_ok q st" and u: "ru_order u = Some (q, p)" and s: "submit_slot u st = (i, st')"
    and tab: "\<And>key j. dict_get tab key = Some j \<Longrightarrow> dict_get (st_table st) key = Some j \<or> (j = i \<and> key = slot_key_of u pr)"
  shows "slots_ok q (st'\<lparr>st_table := tab\<rparr>) \<and> slots_advance q st (st'\<lparr>st_table := tab\<rparr>) \<and> covers q (st'\<lparr>st_table := tab\<rparr>) u i"
proof -
  have i: "i = st_next st" and st': "st' = st\<lparr>st_slots := (st_slots st)(i \<mapsto> \<lparr>sl_latest = u, sl_accepting = True\<rparr>),
      st_next := i + 1, st_submitted := st_submitted st @ [i]\<rparr>"
    using s by (auto simp: submit_slot_def)
  have keep: "st_slots st j = Some slot \<Longrightarrow> j \<noteq> i" for j slot using slots_okD(1) [OF ok] i by fastforce
  have old: "j \<noteq> i" if "dict_get (st_table st) key = Some j" for j key using slots_ok_table [OF ok that] i by simp
  let ?st = "st'\<lparr>st_table := tab\<rparr>"
  have "slots_ok q ?st"
    unfolding slots_ok_def
  proof (intro conjI allI impI)
    fix j assume "st_slots ?st j \<noteq> None"
    then have "j = i \<or> (\<exists>slot. st_slots st j = Some slot)" by (auto simp: st' split: if_splits)
    then show "j < st_next ?st" "j \<in> set (st_submitted ?st)" using slots_okD(1,2) [OF ok] by (auto simp: st' i less_Suc_eq)
  next
    fix j slot assume "st_slots ?st j = Some slot"
    then show "\<exists>p. ru_order (sl_latest slot) = Some (q, p)" using slots_okD(3) [OF ok] u by (auto simp: st' split: if_splits)
  next
    fix v pr' j slot assume a: "dict_get (st_table ?st) (slot_key_of v pr') = Some j" "st_slots ?st j = Some slot"
    show "attempt_key (sl_latest slot) = attempt_key v"
    proof (cases "j = i")
      case True
      have "dict_get tab (slot_key_of v pr') = Some j" using a(1) by simp
      from tab [OF this] old True have key: "slot_key_of v pr' = slot_key_of u pr" by blast
      have "sl_latest slot = u" using a(2) True by (auto simp: st')
      then show ?thesis using slot_key_attempt [OF key] by simp
    next
      case False
      then show ?thesis using tab [of "slot_key_of v pr'" j] a slots_okD(4) [OF ok, of j slot v pr'] by (simp add: st')
    qed
  next
    fix key j assume "dict_get (st_table ?st) key = Some j"
    then show "j < st_next ?st" using tab [of key j] slots_ok_table [OF ok, of key j] by (auto simp: st' i)
  qed
  moreover have "slots_advance q st ?st"
    unfolding slots_advance_def
  proof (intro conjI allI impI)
    fix j slot assume j: "st_slots st j = Some slot"
    then show "covers q ?st (sl_latest slot) j" using keep slots_okD(2) [OF ok] by (auto simp: covers_def st')
    show "st_slots ?st j = Some slot" using j keep by (auto simp: st')
  qed (auto simp: st')
  moreover have "covers q ?st u i" by (simp add: covers_def st')
  ultimately show ?thesis by blast
qed

lemma latest_supersedes:
  assumes "ru_order v = Some (q, p)" "ru_order u = Some (q, p')" "attempt_key v = attempt_key u"
  shows "attempt_key (latest_runtime_update v u) = attempt_key u" "ru_order (latest_runtime_update v u) = Some (q, max p p')"
  using assms by (auto simp: latest_runtime_update_def max_def)

lemma merge_slot_ok:
  assumes ok: "slots_ok q st" and u: "ru_order u = Some (q, p)" and i: "st_slots st i = Some slot" "sl_accepting slot"
    and key: "dict_get (st_table st) (slot_key_of u pr) = Some i"
    and st': "st' = st\<lparr>st_slots := (st_slots st)(i \<mapsto> slot\<lparr>sl_latest := latest_runtime_update (sl_latest slot) u\<rparr>)\<rparr>"
  shows "slots_ok q st' \<and> slots_advance q st st' \<and> covers q st' u i"
proof -
  obtain p0 where p0: "ru_order (sl_latest slot) = Some (q, p0)" using slots_okD(3) [OF ok i(1)] by blast
  have k: "attempt_key (sl_latest slot) = attempt_key u" by (rule slots_okD(4) [OF ok i(1) key])
  note l = latest_supersedes [OF p0 u k]
  have "slots_ok q st'"
    unfolding slots_ok_def
  proof (intro conjI allI impI)
    fix j assume "st_slots st' j \<noteq> None"
    then have "\<exists>slot. st_slots st j = Some slot" using i by (auto simp: st' split: if_splits)
    then show "j < st_next st'" "j \<in> set (st_submitted st')" using slots_okD(1,2) [OF ok] by (auto simp: st')
  next
    fix j slot assume "st_slots st' j = Some slot"
    then show "\<exists>p. ru_order (sl_latest slot) = Some (q, p)" using slots_okD(3) [OF ok] l(2) by (auto simp: st' split: if_splits)
  next
    fix v pr' j s assume a: "dict_get (st_table st') (slot_key_of v pr') = Some j" "st_slots st' j = Some s"
    show "attempt_key (sl_latest s) = attempt_key v"
    proof (cases "j = i")
      case True
      have "attempt_key (sl_latest slot) = attempt_key v" using slots_okD(4) [OF ok i(1), of v pr'] a(1) True by (simp add: st')
      then show ?thesis using a(2) True l(1) k by (auto simp: st')
    next
      case False
      then show ?thesis using a slots_okD(4) [OF ok, of j s v pr'] by (simp add: st')
    qed
  next
    fix key j assume "dict_get (st_table st') key = Some j"
    then show "j < st_next st'" using slots_ok_table [OF ok, of key j] by (simp add: st')
  qed
  moreover have "slots_advance q st st'"
    unfolding slots_advance_def
  proof (intro conjI allI impI)
    fix j s assume j: "st_slots st j = Some s"
    show "covers q st' (sl_latest s) j"
      using j i(1) l k p0 slots_okD(2) [OF ok j] by (cases "j = i") (auto simp: covers_def st')
    show "st_slots st' j = Some s" if "\<not> sl_accepting s" using that j i by (auto simp: st')
  qed (auto simp: st')
  moreover have "covers q st' u i" using l u slots_okD(2) [OF ok i(1)] by (auto simp: covers_def st')
  ultimately show ?thesis by blast
qed

lemma write_update_ok:
  assumes ok: "slots_ok q st" and u: "ru_order u = Some (q, p)" and w: "write_update u wait pr st = (i, st')"
  shows "slots_ok q st' \<and> slots_advance q st st' \<and> covers q st' u i"
proof -
  obtain j st1 where s: "submit_slot u st = (j, st1)" by fastforce
  have t1: "st_table st1 = st_table st" using s by (auto simp: submit_slot_def)
  have "slots_ok q (st1\<lparr>st_table := st_table st\<rparr>) \<and> slots_advance q st (st1\<lparr>st_table := st_table st\<rparr>) \<and> covers q (st1\<lparr>st_table := st_table st\<rparr>) u j"
    by (rule submit_slot_ok [OF ok u s]) simp
  moreover have "st1\<lparr>st_table := st_table st\<rparr> = st1" using t1 by (cases st1) simp
  ultimately have plain: "slots_ok q st1 \<and> slots_advance q st st1 \<and> covers q st1 u j" by simp
  let ?tab = "dict_set (st_table st) (slot_key_of u pr) j"
  have fresh: "slots_ok q (st1\<lparr>st_table := ?tab\<rparr>) \<and> slots_advance q st (st1\<lparr>st_table := ?tab\<rparr>) \<and> covers q (st1\<lparr>st_table := ?tab\<rparr>) u j"
    by (rule submit_slot_ok [OF ok u s]) (auto simp: dict_simps split: if_splits)
  show ?thesis
  proof (cases wait)
    case True
    then show ?thesis using w s plain by (simp add: write_update_def)
  next
    case False
    consider (fresh) "i = j" "st' = st1\<lparr>st_table := ?tab\<rparr>"
      | (merge) slot where "dict_get (st_table st) (slot_key_of u pr) = Some i" "st_slots st i = Some slot" "sl_accepting slot"
        "st' = st\<lparr>st_slots := (st_slots st)(i \<mapsto> slot\<lparr>sl_latest := latest_runtime_update (sl_latest slot) u\<rparr>)\<rparr>"
      using w False s by (auto simp: write_update_def Let_def split: option.splits if_splits)
    then show ?thesis
    proof cases
      case fresh2: fresh
      then show ?thesis using fresh by simp
    next
      case (merge slot)
      then show ?thesis using merge_slot_ok [OF ok u merge(2,3,1,4)] by simp
    qed
  qed
qed

lemma take_slot_ok:
  assumes ok: "slots_ok q st"
  shows "slots_ok q (take_slot i st) \<and> slots_advance q st (take_slot i st)"
proof (cases "st_slots st i")
  case None
  then show ?thesis using covers_refl [OF ok] by (simp add: take_slot_def ok slots_advance_def)
next
  case (Some slot)
  have st': "take_slot i st = st\<lparr>st_slots := (st_slots st)(i \<mapsto> slot\<lparr>sl_accepting := False\<rparr>)\<rparr>" by (simp add: take_slot_def Some)
  have same: "\<exists>s. st_slots st j = Some s \<and> sl_latest s = sl_latest t" if "st_slots (take_slot i st) j = Some t" for j t
    using that Some by (auto simp: st' split: if_splits)
  have "slots_ok q (take_slot i st)"
    unfolding slots_ok_def
  proof (intro conjI allI impI)
    fix j assume "st_slots (take_slot i st) j \<noteq> None"
    then have "\<exists>s. st_slots st j = Some s" using same by auto
    then show "j < st_next (take_slot i st)" "j \<in> set (st_submitted (take_slot i st))" using slots_okD(1,2) [OF ok] by (auto simp: st')
  next
    fix j t assume "st_slots (take_slot i st) j = Some t"
    from same [OF this] show "\<exists>p. ru_order (sl_latest t) = Some (q, p)" using slots_okD(3) [OF ok] by metis
  next
    fix v pr j t assume a: "dict_get (st_table (take_slot i st)) (slot_key_of v pr) = Some j" "st_slots (take_slot i st) j = Some t"
    from same [OF a(2)] obtain s where "st_slots st j = Some s" "sl_latest s = sl_latest t" by blast
    then show "attempt_key (sl_latest t) = attempt_key v" using slots_okD(4) [OF ok, of j s v pr] a(1) by (simp add: st')
  next
    fix key j assume "dict_get (st_table (take_slot i st)) key = Some j"
    then show "j < st_next (take_slot i st)" using slots_ok_table [OF ok, of key j] by (simp add: st')
  qed
  moreover have "slots_advance q st (take_slot i st)"
    unfolding slots_advance_def
  proof (intro conjI allI impI)
    fix j s assume j: "st_slots st j = Some s"
    show "covers q (take_slot i st) (sl_latest s) j" using j Some slots_okD(2) [OF ok j] by (cases "j = i") (auto simp: covers_def st')
    show "st_slots (take_slot i st) j = Some s" if "\<not> sl_accepting s" using that j Some by (cases "j = i") (auto simp: st')
  qed (auto simp: st')
  ultimately show ?thesis by blast
qed

lemma clear_slot_ok:
  assumes ok: "slots_ok q st"
  shows "slots_ok q (clear_slot key i st) \<and> slots_advance q st (clear_slot key i st)"
proof -
  have f: "st_slots (clear_slot key i st) = st_slots st" "st_next (clear_slot key i st) = st_next st" "st_submitted (clear_slot key i st) = st_submitted st"
    by (simp_all add: clear_slot_def)
  have t: "dict_get (st_table (clear_slot key i st)) k = Some j \<Longrightarrow> dict_get (st_table st) k = Some j" for k j
    by (auto simp: clear_slot_def dict_simps split: if_splits)
  have "slots_ok q (clear_slot key i st)" using ok t unfolding slots_ok_def f by meson
  moreover have "slots_advance q st (clear_slot key i st)"
    unfolding slots_advance_def f using covers_refl [OF ok] by (auto simp: covers_def f)
  ultimately show ?thesis by blast
qed

definition writes_in :: "nat \<Rightarrow> slot_event \<Rightarrow> bool" where
  "writes_in q e = (case e of Write u _ _ \<Rightarrow> (case ru_order u of None \<Rightarrow> False | Some order \<Rightarrow> fst order = q) | _ \<Rightarrow> True)"

lemma slot_events_ok:
  assumes "slots_ok q st" "\<forall>e\<in>set es. writes_in q e" "slot_events es st = (st', ws)"
  shows "slots_ok q st' \<and> slots_advance q st st' \<and> (\<forall>(u, i)\<in>set ws. covers q st' u i)"
  using assms
proof (induction es st arbitrary: st' ws rule: slot_events.induct)
  case (1 st)
  then show ?case using covers_refl by (auto simp: slots_advance_def)
next
  case (2 u wait pr es st)
  obtain i st1 where w: "write_update u wait pr st = (i, st1)" by fastforce
  obtain ws1 where e: "slot_events es st1 = (st', ws1)" "ws = (u, i) # ws1" using 2(4) w by (auto split: prod.splits)
  obtain p where p: "ru_order u = Some (q, p)" using 2(3) by (auto simp: writes_in_def split: option.splits)
  note s = write_update_ok [OF 2(2) p w]
  have t: "slots_ok q st' \<and> slots_advance q st1 st' \<and> (\<forall>(u, i)\<in>set ws1. covers q st' u i)"
    using 2(1) [OF w [symmetric]] s 2(3) e(1) by simp
  then have "covers q st' u i" using covers_trans s by blast
  then show ?case using t s slots_advance_trans e(2) by auto
next
  case (3 i es st)
  have "slots_ok q st' \<and> slots_advance q (take_slot i st) st' \<and> (\<forall>(u, i)\<in>set ws. covers q st' u i)"
    using 3 take_slot_ok [OF 3(2)] by simp
  then show ?case using take_slot_ok [OF 3(2)] slots_advance_trans by blast
next
  case (4 key i es st)
  have "slots_ok q st' \<and> slots_advance q (clear_slot key i st) st' \<and> (\<forall>(u, i)\<in>set ws. covers q st' u i)"
    using 4 clear_slot_ok [OF 4(2)] by simp
  then show ?case using clear_slot_ok [OF 4(2)] slots_advance_trans by blast
qed



end
