(* ===== verification/Api_Admission.thy ===== *)
theory Api_Admission
  imports Topology Mutation_Writer
begin

text \<open>
  Admission of API executions (\<open>storage/api_admission.py\<close>, \<open>storage/api_admission_grouped.py\<close>): the table of
  durable permits, one per running execution, bounded by the project's aggregate limit; acquisition and release
  of one permit; and the grouped operations the writer lane executes. The other tables are represented by what
  the reading helpers answer about them; none of the statements modelled here writes them. Identities are typed,
  so the type tests of the validation hold by construction.
\<close>

section \<open>The tables\<close>

record permit_identity =
  pi_session :: string
  pi_node :: string
  pi_job :: int
  pi_generation :: int
  pi_execution :: string

text \<open>An acquisition time: one \<open>datetime.fromisoformat\<close> reads, or a damaged text.\<close>

datatype acquired_time = IsoTime nat | DamagedTime

record permit_row =
  pr_identity :: permit_identity
  pr_acquired :: acquired_time

record execution_owner =
  eo_identity :: permit_identity
  eo_component :: "string list"

record owner_observation =
  oo_status :: string
  oo_generation :: int
  oo_active :: "string option"
  oo_owner :: "execution_owner option"
  oo_session_status :: "string option"

text \<open>
  \<open>ad_limit\<close> is the value of the \<open>api_thread_limit\<close> row, if there is one; \<open>ad_owner\<close>, \<open>ad_observation\<close> and
  \<open>ad_scope\<close> are the answers of \<open>_read_execution_owner\<close>, \<open>_read_job_owner_observation\<close> and the scope query.
\<close>

record api_db =
  ad_permits :: "permit_row list"
  ad_limit :: "pynum option"
  ad_owner :: "string \<Rightarrow> execution_owner option res"
  ad_observation :: "string \<Rightarrow> int \<Rightarrow> owner_observation option res"
  ad_scope :: "string \<Rightarrow> string \<Rightarrow> (string option \<times> string option) option"

definition hex_digits :: string where
  "hex_digits = ''0123456789abcdef''"

definition validate_identity :: "permit_identity \<Rightarrow> unit res" where
  "validate_identity i =
     (if py_strip (pi_session i) = [] then Inl (ValueError ''API execution permit requires a session ID'')
      else if py_strip (pi_node i) = [] then Inl (ValueError ''API execution permit requires a node name'')
      else if pi_job i < 1 then Inl (ValueError ''API execution permit job ID must be a positive integer'')
      else if pi_generation i < 0 then Inl (ValueError ''API execution permit generation must be a non-negative integer'')
      else if length (pi_execution i) \<noteq> 32 \<or> (\<exists>c\<in>set (pi_execution i). c \<notin> set hex_digits)
        then Inl (ValueError ''API execution permit requires a native execution ID'')
      else Inr ())"

definition permit_from_row :: "permit_row \<Rightarrow> permit_identity res" where
  "permit_from_row row = res_bind (validate_identity (pr_identity row)) (\<lambda>_. case pr_acquired row of
     IsoTime _ \<Rightarrow> Inr (pr_identity row)
   | DamagedTime \<Rightarrow> Inl (RuntimeError ''Damaged API execution permit acquisition time''))"

definition find_permit :: "api_db \<Rightarrow> string \<Rightarrow> permit_row option" where
  "find_permit db e = find (\<lambda>r. pi_execution (pr_identity r) = e) (ad_permits db)"

section \<open>Ownership\<close>

definition owner_error :: exn where
  "owner_error = RuntimeError ''API execution permit does not match its immutable owner''"

definition running_error :: exn where
  "running_error = RuntimeError ''API permit acquisition requires the exact running job owner''"

definition scope_error :: exn where
  "scope_error = RuntimeError ''API permit acquisition requires the exact session reservation''"

definition component_key_of :: "execution_owner \<Rightarrow> string" where
  "component_key_of owner = encode_component_key (set (eo_component owner))"

definition require_scope :: "api_db \<Rightarrow> permit_identity \<Rightarrow> execution_owner \<Rightarrow> unit res" where
  "require_scope db i owner = (case ad_scope db (pi_session i) (component_key_of owner) of
     None \<Rightarrow> Inl scope_error
   | Some (reservation, selected) \<Rightarrow>
       if reservation \<noteq> Some (pi_session i) \<or> selected \<noteq> Some (pi_session i) then Inl scope_error else Inr ())"

definition require_owner :: "api_db \<Rightarrow> permit_identity \<Rightarrow> bool \<Rightarrow> execution_owner res" where
  "require_owner db i require_current = res_bind (ad_owner db (pi_execution i)) (\<lambda>found. case found of
     None \<Rightarrow> Inl owner_error
   | Some owner \<Rightarrow>
       if eo_identity owner \<noteq> i then Inl owner_error
       else if \<not> require_current then Inr owner
       else res_bind (ad_observation db (pi_node i) (pi_job i)) (\<lambda>observed. case observed of
         None \<Rightarrow> Inl running_error
       | Some ob \<Rightarrow>
           if oo_status ob \<noteq> ''running'' \<or> oo_generation ob \<noteq> pi_generation i \<or> oo_active ob \<noteq> Some (pi_execution i) \<or>
              oo_owner ob \<noteq> Some owner \<or> oo_session_status ob \<noteq> Some ''running'' then Inl running_error
           else res_bind (require_scope db i owner) (\<lambda>_. Inr owner)))"

definition current_owner :: "api_db \<Rightarrow> permit_identity \<Rightarrow> execution_owner res" where
  "current_owner db i = res_bind (ad_observation db (pi_node i) (pi_job i)) (\<lambda>observed. case observed of
     None \<Rightarrow> Inl owner_error
   | Some ob \<Rightarrow> (case oo_owner ob of
       None \<Rightarrow> Inl owner_error
     | Some owner \<Rightarrow>
         if eo_identity owner \<noteq> i then Inl owner_error
         else if oo_status ob \<noteq> ''running'' \<or> oo_generation ob \<noteq> pi_generation i \<or> oo_active ob \<noteq> Some (pi_execution i) \<or>
           oo_session_status ob \<noteq> Some ''running'' then Inl running_error
         else Inr owner))"

section \<open>One permit at a time\<close>

text \<open>The limit: \<open>None\<close> when there is no row.\<close>

definition read_limit :: "api_db \<Rightarrow> int option res" where
  "read_limit db = (case ad_limit db of
     None \<Rightarrow> Inr None
   | Some (PyInt limit) \<Rightarrow> if limit < 1 then Inl (RuntimeError ''Damaged aggregate API admission limit'') else Inr (Some limit)
   | Some _ \<Rightarrow> Inl (RuntimeError ''Damaged aggregate API admission limit''))"

definition insert_permit :: "nat \<Rightarrow> api_db \<Rightarrow> permit_identity \<Rightarrow> api_db \<times> permit_row res" where
  "insert_permit time db i =
     (if find_permit db (pi_execution i) \<noteq> None then (db, Inl (RuntimeError ''UNIQUE constraint failed''))
      else let db' = db\<lparr>ad_permits := ad_permits db @ [\<lparr>pr_identity = i, pr_acquired = IsoTime time\<rparr>]\<rparr> in
        (db', case find_permit db' (pi_execution i) of
           None \<Rightarrow> Inl (RuntimeError ''API execution permit readback failed'')
         | Some recorded \<Rightarrow> res_bind (permit_from_row recorded) (\<lambda>found.
             if found \<noteq> i then Inl (RuntimeError ''API execution permit readback failed'')
             else if pr_acquired recorded \<noteq> IsoTime time then Inl (RuntimeError ''API execution permit acquisition time changed'')
             else Inr recorded)))"

definition existing_decision :: "permit_row \<Rightarrow> permit_identity \<Rightarrow> bool res" where
  "existing_decision row i = res_bind (permit_from_row row) (\<lambda>found.
     if found \<noteq> i then Inl (RuntimeError ''API execution permit identity changed'') else Inr True)"

definition try_acquire :: "nat \<Rightarrow> api_db \<Rightarrow> permit_identity \<Rightarrow> api_db \<times> bool res" where
  "try_acquire time db i =
     (case res_bind (validate_identity i) (\<lambda>_. require_owner db i True) of
        Inl e \<Rightarrow> (db, Inl e)
      | Inr _ \<Rightarrow> (case find_permit db (pi_execution i) of
          Some row \<Rightarrow> (db, existing_decision row i)
        | None \<Rightarrow> (case read_limit db of
            Inl e \<Rightarrow> (db, Inl e)
          | Inr limit \<Rightarrow>
              if (case limit of None \<Rightarrow> False | Some l \<Rightarrow> l \<le> int (length (ad_permits db))) then (db, Inr False)
              else (case insert_permit time db i of (db', Inl e) \<Rightarrow> (db', Inl e) | (db', Inr _) \<Rightarrow> (db', Inr True)))))"

text \<open>The \<open>DELETE\<close> names every column of the row that was read.\<close>

definition delete_permit :: "permit_row \<Rightarrow> api_db \<Rightarrow> permit_identity \<Rightarrow> api_db \<times> bool res" where
  "delete_permit row db i =
     (let hit = (\<lambda>r. r = \<lparr>pr_identity = i, pr_acquired = pr_acquired row\<rparr>);
          db' = db\<lparr>ad_permits := filter (\<lambda>r. \<not> hit r) (ad_permits db)\<rparr> in
      (db', if length (filter hit (ad_permits db)) \<noteq> 1 \<or> find_permit db' (pi_execution i) \<noteq> None
            then Inl (RuntimeError ''API execution permit changed before release'') else Inr True))"

definition missing_error :: exn where
  "missing_error = RuntimeError ''Exact API execution permit is missing''"

definition release_one :: "nat \<Rightarrow> api_db \<Rightarrow> permit_identity \<Rightarrow> api_db \<times> bool res" where
  "release_one time db i =
     (case res_bind (validate_identity i) (\<lambda>_. require_owner db i False) of
        Inl e \<Rightarrow> (db, Inl e)
      | Inr _ \<Rightarrow> (case find_permit db (pi_execution i) of
          None \<Rightarrow> (db, Inl missing_error)
        | Some row \<Rightarrow> (case permit_from_row row of
            Inl e \<Rightarrow> (db, Inl e)
          | Inr found \<Rightarrow> if found \<noteq> i then (db, Inl missing_error) else delete_permit row db i)))"

section \<open>Grouped operations\<close>

text \<open>
  \<open>_apply_individually\<close>: each operation under its own savepoint; \<open>clock\<close> gives the time read at each position.
\<close>

fun apply_individually :: "(nat \<Rightarrow> api_db \<Rightarrow> 'm \<Rightarrow> api_db \<times> bool res) \<Rightarrow> (nat \<Rightarrow> nat) \<Rightarrow> nat \<Rightarrow> 'm list \<Rightarrow>
    api_db \<Rightarrow> api_db \<times> bool outcome list" where
  "apply_individually operation clock pos [] db = (db, [])"
| "apply_individually operation clock pos (i # is) db =
     (case (case operation (clock pos) db i of (db', Inl e) \<Rightarrow> (db, (False, PExn e)) | (db', Inr v) \<Rightarrow> (db', (True, PVal v))) of
        (db1, out) \<Rightarrow> (case apply_individually operation clock (Suc pos) is db1 of (db2, outs) \<Rightarrow> (db2, out # outs)))"

text \<open>The rows of the given executions by execution, read in chunks of four hundred.\<close>

fun add_rows :: "permit_row list \<Rightarrow> (string \<times> permit_row) list \<Rightarrow> (string \<times> permit_row) list res" where
  "add_rows [] found = Inr found"
| "add_rows (r # rs) found = (let e = pi_execution (pr_identity r) in
     if dict_get found e \<noteq> None then Inl (RuntimeError ''Duplicate API execution permit identity'')
     else add_rows rs (dict_set found e r))"

function read_chunks :: "api_db \<Rightarrow> string list \<Rightarrow> (string \<times> permit_row) list \<Rightarrow> (string \<times> permit_row) list res" where
  "read_chunks db ids found = (if ids = [] then Inr found
     else res_bind (add_rows (filter (\<lambda>r. pi_execution (pr_identity r) \<in> set (take 400 ids)) (ad_permits db)) found)
       (\<lambda>found'. read_chunks db (drop 400 ids) found'))"
  by pat_completeness auto
termination by (relation "measure (\<lambda>(db, ids, found). length ids)") auto

text \<open>\<open>list(dict.fromkeys(ids))\<close>: the distinct ids in the order of their first occurrence.\<close>

fun from_keys :: "'a list \<Rightarrow> 'a list \<Rightarrow> 'a list" where
  "from_keys seen [] = []"
| "from_keys seen (x # xs) = (if x \<in> set seen then from_keys seen xs else x # from_keys (x # seen) xs)"

definition rows_by_execution :: "api_db \<Rightarrow> string list \<Rightarrow> (string \<times> permit_row) list res" where
  "rows_by_execution db ids = read_chunks db (from_keys [] ids) []"

type_synonym slot_status = "bool outcome option"

definition decide :: "bool res \<Rightarrow> bool outcome" where
  "decide r = (case r of Inl e \<Rightarrow> (False, PExn e) | Inr v \<Rightarrow> (True, PVal v))"

text \<open>The scope of each session and component is checked once.\<close>

fun scope_phase :: "api_db \<Rightarrow> (permit_identity \<times> execution_owner res) list \<Rightarrow> ((string \<times> string) \<times> unit res) list \<Rightarrow>
    (permit_identity \<times> slot_status) list" where
  "scope_phase db [] scopes = []"
| "scope_phase db ((i, Inl e) # xs) scopes = (i, Some (False, PExn e)) # scope_phase db xs scopes"
| "scope_phase db ((i, Inr owner) # xs) scopes =
     (let key = (pi_session i, component_key_of owner);
          scopes' = (case dict_get scopes key of None \<Rightarrow> dict_set scopes key (require_scope db i owner) | Some _ \<Rightarrow> scopes) in
      (i, case dict_get scopes' key of Some (Inl e) \<Rightarrow> Some (False, PExn e) | _ \<Rightarrow> None) # scope_phase db xs scopes')"

definition owner_phase :: "api_db \<Rightarrow> permit_identity \<Rightarrow> execution_owner res" where
  "owner_phase db i = res_bind (validate_identity i) (\<lambda>_. current_owner db i)"

definition fail_open :: "exn \<Rightarrow> (permit_identity \<times> slot_status) list \<Rightarrow> bool outcome list" where
  "fail_open e slots = map (\<lambda>(i, out). case out of None \<Rightarrow> (False, PExn e) | Some o' \<Rightarrow> o') slots"

definition existing_phase :: "(string \<times> permit_row) list \<Rightarrow> (permit_identity \<times> slot_status) list \<Rightarrow> (permit_identity \<times> slot_status) list" where
  "existing_phase existing slots = map (\<lambda>(i, out). (i, case out of
     Some o' \<Rightarrow> Some o'
   | None \<Rightarrow> (case dict_get existing (pi_execution i) of None \<Rightarrow> None | Some row \<Rightarrow> Some (decide (existing_decision row i))))) slots"

fun acquire_pending :: "(nat \<Rightarrow> nat) \<Rightarrow> nat \<Rightarrow> (permit_identity \<times> slot_status) list \<Rightarrow> (string \<times> permit_row) list \<Rightarrow> int \<Rightarrow> api_db \<Rightarrow>
    api_db \<times> bool outcome list" where
  "acquire_pending clock pos [] existing available db = (db, [])"
| "acquire_pending clock pos ((i, Some out) # slots) existing available db =
     (case acquire_pending clock (Suc pos) slots existing available db of (db', outs) \<Rightarrow> (db', out # outs))"
| "acquire_pending clock pos ((i, None) # slots) existing available db =
     (case dict_get existing (pi_execution i) of
        Some row \<Rightarrow> (case acquire_pending clock (Suc pos) slots existing available db of
          (db', outs) \<Rightarrow> (db', decide (existing_decision row i) # outs))
      | None \<Rightarrow>
          if available = 0 then (case acquire_pending clock (Suc pos) slots existing available db of (db', outs) \<Rightarrow> (db', (True, PVal False) # outs))
          else (case insert_permit (clock pos) db i of
            (db1, Inl e) \<Rightarrow> (case acquire_pending clock (Suc pos) slots existing available db of (db', outs) \<Rightarrow> (db', (False, PExn e) # outs))
          | (db1, Inr recorded) \<Rightarrow> (case acquire_pending clock (Suc pos) slots (dict_set existing (pi_execution i) recorded) (available - 1) db1 of
              (db', outs) \<Rightarrow> (db', (True, PVal True) # outs))))"

definition open_slots :: "(permit_identity \<times> slot_status) list \<Rightarrow> permit_identity list" where
  "open_slots slots = map fst (filter (\<lambda>(i, out). out = None) slots)"

definition apply_acquisitions :: "(nat \<Rightarrow> nat) \<Rightarrow> nat \<Rightarrow> permit_identity list \<Rightarrow> api_db \<Rightarrow> api_db \<times> bool outcome list" where
  "apply_acquisitions clock pos ids db =
     (if length ids \<le> 1 then apply_individually try_acquire clock pos ids db
      else let slots = scope_phase db (map (\<lambda>i. (i, owner_phase db i)) ids) [] in
        case rows_by_execution db (map pi_execution (open_slots slots)) of
          Inl e \<Rightarrow> (db, fail_open e slots)
        | Inr existing \<Rightarrow> let slots' = existing_phase existing slots in
            if open_slots slots' = [] then (db, map (the \<circ> snd) slots')
            else (case read_limit db of
              Inl e \<Rightarrow> (db, fail_open e slots')
            | Inr limit \<Rightarrow> acquire_pending clock pos slots' existing
                (case limit of None \<Rightarrow> int (length (open_slots slots')) | Some l \<Rightarrow> max 0 (l - int (length (ad_permits db)))) db))"

fun release_pending :: "(permit_identity \<times> slot_status) list \<Rightarrow> (string \<times> permit_row) list \<Rightarrow> api_db \<Rightarrow> api_db \<times> bool outcome list" where
  "release_pending [] existing db = (db, [])"
| "release_pending ((i, Some out) # slots) existing db = (case release_pending slots existing db of (db', outs) \<Rightarrow> (db', out # outs))"
| "release_pending ((i, None) # slots) existing db =
     (case (case dict_get existing (pi_execution i) of
              None \<Rightarrow> (db, existing, (False, PExn missing_error))
            | Some row \<Rightarrow> (case permit_from_row row of
                Inl e \<Rightarrow> (db, existing, (False, PExn e))
              | Inr found \<Rightarrow> if found \<noteq> i then (db, existing, (False, PExn missing_error))
                  else (case delete_permit row db i of
                    (db1, Inl e) \<Rightarrow> (db, existing, (False, PExn e))
                  | (db1, Inr _) \<Rightarrow> (db1, dict_pop existing (pi_execution i), (True, PVal True))))) of
        (db1, existing1, out) \<Rightarrow> (case release_pending slots existing1 db1 of (db', outs) \<Rightarrow> (db', out # outs)))"

definition apply_releases :: "(nat \<Rightarrow> nat) \<Rightarrow> nat \<Rightarrow> permit_identity list \<Rightarrow> api_db \<Rightarrow> api_db \<times> bool outcome list" where
  "apply_releases clock pos ids db =
     (if length ids \<le> 1 then apply_individually release_one clock pos ids db
      else let slots = map (\<lambda>i. (i, case res_bind (validate_identity i) (\<lambda>_. require_owner db i False) of
             Inl e \<Rightarrow> Some (False, PExn e) | Inr _ \<Rightarrow> None)) ids in
        case rows_by_execution db (map pi_execution (open_slots slots)) of
          Inl e \<Rightarrow> (db, fail_open e slots)
        | Inr existing \<Rightarrow> release_pending slots existing db)"

record permit_mutation =
  pm_action :: string
  pm_identity :: permit_identity

text \<open>Consecutive mutations with one action form a run; runs are applied in order.\<close>

function apply_mutations :: "(nat \<Rightarrow> nat) \<Rightarrow> nat \<Rightarrow> permit_mutation list \<Rightarrow> api_db \<Rightarrow> api_db \<times> bool outcome list" where
  "apply_mutations clock pos [] db = (db, [])"
| "apply_mutations clock pos (m # ms) db =
     (let run = m # takeWhile (\<lambda>x. pm_action x = pm_action m) ms;
          rest = dropWhile (\<lambda>x. pm_action x = pm_action m) ms;
          ids = map pm_identity run in
      case (if pm_action m = ''acquire'' then apply_acquisitions clock pos ids db
            else if pm_action m = ''release'' then apply_releases clock pos ids db
            else (db, map (\<lambda>_. (False, PExn (RuntimeError ''Unknown API execution permit mutation''))) ids)) of
        (db1, outs) \<Rightarrow> (case apply_mutations clock (pos + length run) rest db1 of (db2, outs') \<Rightarrow> (db2, outs @ outs')))"
  by pat_completeness auto
termination by (relation "measure (\<lambda>(clock, pos, ms, db). length ms)") (auto simp: le_imp_less_Suc length_dropWhile_le)

section \<open>One after the other\<close>

text \<open>
  The reference: each mutation on its own, under its own savepoint. What a caller learns from an outcome is the
  decision: refused with an error, or granted, or told to wait.
\<close>

definition apply_one :: "nat \<Rightarrow> api_db \<Rightarrow> permit_mutation \<Rightarrow> api_db \<times> bool res" where
  "apply_one time db m =
     (if pm_action m = ''acquire'' then try_acquire time db (pm_identity m)
      else if pm_action m = ''release'' then release_one time db (pm_identity m)
      else (db, Inl (RuntimeError ''Unknown API execution permit mutation'')))"

definition decision :: "bool outcome \<Rightarrow> bool option" where
  "decision out = (case out of (True, PVal b) \<Rightarrow> Some b | _ \<Rightarrow> None)"

definition same_result :: "api_db \<times> bool outcome list \<Rightarrow> api_db \<times> bool outcome list \<Rightarrow> bool" where
  "same_result r r' \<longleftrightarrow> fst r = fst r' \<and> map decision (snd r) = map decision (snd r')"

definition guarded :: "api_db \<Rightarrow> api_db \<times> bool res \<Rightarrow> api_db \<times> bool outcome" where
  "guarded db r = (case r of (db', Inl e) \<Rightarrow> (db, (False, PExn e)) | (db', Inr v) \<Rightarrow> (db', (True, PVal v)))"

lemma individually_Cons:
  "apply_individually operation clock pos (i # is) db =
     (case guarded db (operation (clock pos) db i) of (db1, out) \<Rightarrow>
       (case apply_individually operation clock (Suc pos) is db1 of (db2, outs) \<Rightarrow> (db2, out # outs)))"
  by (simp add: guarded_def split: prod.splits sum.splits)

declare apply_individually.simps(2) [simp del]

lemma individually_append:
  "apply_individually operation clock pos (is @ js) db =
     (case apply_individually operation clock pos is db of (db1, outs) \<Rightarrow>
       (case apply_individually operation clock (pos + length is) js db1 of (db2, outs') \<Rightarrow> (db2, outs @ outs')))"
  by (induction "is" arbitrary: pos db) (auto simp: individually_Cons split: prod.splits)

lemma individually_map:
  "apply_individually operation clock pos (map f is) db = apply_individually (\<lambda>t db i. operation t db (f i)) clock pos is db"
  by (induction "is" arbitrary: pos db) (auto simp: individually_Cons split: prod.splits)

lemma decision_decide [simp]: "decision (decide r) = (case r of Inl e \<Rightarrow> None | Inr v \<Rightarrow> Some v)"
  by (simp add: decide_def decision_def split: sum.splits)

lemma decision_fail [simp]: "decision (False, x) = None" "decision (True, PVal v) = Some v"
  by (simp_all add: decision_def)

section \<open>What the two ways of checking have in common\<close>

definition permits_ok :: "api_db \<Rightarrow> bool" where
  "permits_ok db \<longleftrightarrow> distinct (map (pi_execution \<circ> pr_identity) (ad_permits db))"

text \<open>
  Both reading helpers take the owner from the row of \<open>job_execution_owners\<close> with that execution, its primary key.
\<close>

definition owners_coherent :: "api_db \<Rightarrow> bool" where
  "owners_coherent db \<longleftrightarrow> (\<forall>n j ob owner. ad_observation db n j = Inr (Some ob) \<longrightarrow> oo_owner ob = Some owner \<longrightarrow>
     ad_owner db (pi_execution (eo_identity owner)) = Inr (Some owner))"

definition may_acquire :: "api_db \<Rightarrow> permit_identity \<Rightarrow> bool" where
  "may_acquire db i \<longleftrightarrow> validate_identity i = Inr () \<and> (\<exists>owner. require_owner db i True = Inr owner)"

definition may_release :: "api_db \<Rightarrow> permit_identity \<Rightarrow> bool" where
  "may_release db i \<longleftrightarrow> validate_identity i = Inr () \<and> (\<exists>owner. require_owner db i False = Inr owner)"

definition running_owner :: "permit_identity \<Rightarrow> execution_owner \<Rightarrow> owner_observation \<Rightarrow> bool" where
  "running_owner i owner ob \<longleftrightarrow> oo_owner ob = Some owner \<and> oo_status ob = ''running'' \<and> oo_generation ob = pi_generation i \<and>
     oo_active ob = Some (pi_execution i) \<and> oo_session_status ob = Some ''running''"

lemma current_owner_iff:
  "current_owner db i = Inr owner \<longleftrightarrow>
     (\<exists>ob. ad_observation db (pi_node i) (pi_job i) = Inr (Some ob) \<and> eo_identity owner = i \<and> running_owner i owner ob)"
proof (cases "ad_observation db (pi_node i) (pi_job i)")
  case (Inr found)
  show ?thesis
  proof (cases found)
    case (Some ob)
    then show ?thesis using Inr by (cases "oo_owner ob") (auto simp: current_owner_def running_owner_def res_bind_def)
  qed (simp add: current_owner_def res_bind_def Inr)
qed (simp add: current_owner_def res_bind_def)

lemma require_owner_iff:
  "require_owner db i True = Inr owner \<longleftrightarrow> ad_owner db (pi_execution i) = Inr (Some owner) \<and> eo_identity owner = i \<and>
     (\<exists>ob. ad_observation db (pi_node i) (pi_job i) = Inr (Some ob) \<and> running_owner i owner ob) \<and> require_scope db i owner = Inr ()"
proof (cases "ad_owner db (pi_execution i)")
  case found: (Inr found)
  show ?thesis
  proof (cases found)
    case (Some o1)
    show ?thesis
    proof (cases "ad_observation db (pi_node i) (pi_job i)")
      case seen: (Inr seen)
      show ?thesis
      proof (cases seen)
        case ob: (Some ob)
        show ?thesis using found Some seen ob
          by (cases "require_scope db i o1") (auto simp: require_owner_def running_owner_def res_bind_def)
      qed (use found Some seen in \<open>auto simp: require_owner_def res_bind_def\<close>)
    qed (use found Some in \<open>auto simp: require_owner_def res_bind_def\<close>)
  qed (simp add: require_owner_def res_bind_def found)
qed (simp add: require_owner_def res_bind_def)

lemma require_owner_current:
  assumes "owners_coherent db"
  shows "require_owner db i True = Inr owner \<longleftrightarrow> current_owner db i = Inr owner \<and> require_scope db i owner = Inr ()"
proof -
  have "ad_owner db (pi_execution i) = Inr (Some owner)"
    if "ad_observation db (pi_node i) (pi_job i) = Inr (Some ob)" "running_owner i owner ob" "eo_identity owner = i" for ob
    using assms that unfolding owners_coherent_def running_owner_def by blast
  then show ?thesis unfolding require_owner_iff current_owner_iff by blast
qed

definition slot_of :: "api_db \<Rightarrow> permit_identity \<Rightarrow> slot_status" where
  "slot_of db i = (case owner_phase db i of Inl e \<Rightarrow> Some (False, PExn e)
     | Inr owner \<Rightarrow> (case require_scope db i owner of Inl e \<Rightarrow> Some (False, PExn e) | Inr _ \<Rightarrow> None))"

lemma scope_phase_eq:
  assumes "\<forall>s k r i owner. dict_get scopes (s, k) = Some r \<longrightarrow> pi_session i = s \<longrightarrow> component_key_of owner = k \<longrightarrow> require_scope db i owner = r"
    and "\<forall>(i, r)\<in>set xs. r = owner_phase db i"
  shows "scope_phase db xs scopes = map (\<lambda>(i, r). (i, slot_of db i)) xs"
  using assms
proof (induction db xs scopes rule: scope_phase.induct)
  case (2 db i e xs scopes)
  then have "owner_phase db i = Inl e" by auto
  then show ?case using 2 by (auto simp: slot_of_def)
next
  case (3 db i owner xs scopes)
  let ?key = "(pi_session i, component_key_of owner)"
  let ?scopes = "case dict_get scopes ?key of None \<Rightarrow> dict_set scopes ?key (require_scope db i owner) | Some _ \<Rightarrow> scopes"
  have rs: "require_scope db i' owner' = require_scope db i owner" if "pi_session i' = pi_session i" "component_key_of owner' = component_key_of owner" for i' owner'
    using that by (simp only: require_scope_def)
  have sc: "dict_get ?scopes (s, k) = Some r \<Longrightarrow> pi_session i' = s \<Longrightarrow> component_key_of owner' = k \<Longrightarrow> require_scope db i' owner' = r" for s k r i' owner'
    using 3(2) rs [of i' owner'] by (auto simp: dict_simps split: option.splits if_splits)
  have here: "dict_get ?scopes ?key = Some (require_scope db i owner)"
    using 3(2) by (auto simp: dict_simps split: option.splits)
  have o: "owner_phase db i = Inr owner" using 3(3) by auto
  have "scope_phase db xs ?scopes = map (\<lambda>(i, r). (i, slot_of db i)) xs"
    using 3(1) [OF refl refl] sc 3(3) by auto
  then show ?case using here o by (simp add: slot_of_def Let_def split: sum.splits)
qed simp

lemma slot_of_None: "owners_coherent db \<Longrightarrow> slot_of db i = None \<longleftrightarrow> may_acquire db i"
  by (auto simp: slot_of_def may_acquire_def owner_phase_def require_owner_current res_bind_def split: sum.splits)

lemma slot_of_Some: "slot_of db i = Some out \<Longrightarrow> decision out = None"
  by (auto simp: slot_of_def split: sum.splits)

section \<open>The rows of a batch\<close>

abbreviation exec_of :: "permit_row \<Rightarrow> string" where
  "exec_of r \<equiv> pi_execution (pr_identity r)"

lemma find_permit_None: "find_permit db e = None \<longleftrightarrow> (\<forall>r\<in>set (ad_permits db). exec_of r \<noteq> e)"
  by (auto simp: find_permit_def find_None_iff)

lemma find_permit_Some: "find_permit db e = Some r \<Longrightarrow> r \<in> set (ad_permits db) \<and> exec_of r = e"
  by (auto simp: find_permit_def find_Some_iff)

lemma find_distinct: "distinct (map exec_of rs) \<Longrightarrow> r \<in> set rs \<Longrightarrow> find (\<lambda>x. exec_of x = exec_of r) rs = Some r"
proof (induction rs)
  case (Cons x rs)
  show ?case
  proof (cases "x = r")
    case False
    then have r: "r \<in> set rs" using Cons.prems(2) by simp
    then have "exec_of r \<in> set (map exec_of rs)" by simp
    then have "exec_of x \<noteq> exec_of r" using Cons.prems(1) by auto
    then show ?thesis using Cons.IH Cons.prems(1) r by simp
  qed simp
qed simp

lemma find_permit_in: "permits_ok db \<Longrightarrow> r \<in> set (ad_permits db) \<Longrightarrow> find_permit db (exec_of r) = Some r"
  by (simp add: permits_ok_def find_permit_def o_def find_distinct)

lemma add_rows_spec:
  assumes "distinct (map exec_of rs)" "\<forall>r\<in>set rs. dict_get found (exec_of r) = None"
  shows "\<exists>found'. add_rows rs found = Inr found' \<and>
    (\<forall>e. dict_get found' e = (case find (\<lambda>r. exec_of r = e) rs of Some r \<Rightarrow> Some r | None \<Rightarrow> dict_get found e))"
  using assms
proof (induction rs arbitrary: found)
  case (Cons r rs)
  have "\<forall>x\<in>set rs. dict_get (dict_set found (exec_of r) r) (exec_of x) = None" 
  proof
    fix x assume x: "x \<in> set rs"
    then have "exec_of x \<in> set (map exec_of rs)" by simp
    then have "exec_of x \<noteq> exec_of r" using Cons.prems(1) by auto
    then show "dict_get (dict_set found (exec_of r) r) (exec_of x) = None" using Cons.prems(2) x by (simp add: dict_simps)
  qed
  with Cons.IH [of "dict_set found (exec_of r) r"] Cons.prems(1) obtain found' where f: "add_rows rs (dict_set found (exec_of r) r) = Inr found'"
    "\<And>e. dict_get found' e = (case find (\<lambda>r. exec_of r = e) rs of Some r \<Rightarrow> Some r | None \<Rightarrow> dict_get (dict_set found (exec_of r) r) e)" by auto
  have "find (\<lambda>x. exec_of x = exec_of r) rs = None"
  proof -
    have "exec_of x \<noteq> exec_of r" if "x \<in> set rs" for x
    proof -
      have "exec_of x \<in> set (map exec_of rs)" using that by simp
      then show ?thesis using Cons.prems(1) by auto
    qed
    then show ?thesis by (auto simp: find_None_iff)
  qed
  then show ?case using f Cons.prems(2) by (auto simp: Let_def dict_simps split: option.splits)
qed simp

lemma find_filter_permits:
  "find (\<lambda>r. exec_of r = e) (filter (\<lambda>r. exec_of r \<in> S) rs) = (if e \<in> S then find (\<lambda>r. exec_of r = e) rs else None)"
  by (induction rs) auto

lemma read_chunks_spec:
  assumes ok: "permits_ok db"
  shows "distinct ids \<Longrightarrow> \<forall>e\<in>set ids. dict_get found e = None \<Longrightarrow>
    \<exists>found'. read_chunks db ids found = Inr found' \<and> (\<forall>e. dict_get found' e = (if e \<in> set ids then find_permit db e else dict_get found e))"
proof (induction "length ids" arbitrary: ids found rule: less_induct)
  case less
  show ?case
  proof (cases "ids = []")
    case False
    let ?S = "set (take 400 ids)" and ?T = "set (drop 400 ids)"
    let ?rs = "filter (\<lambda>r. exec_of r \<in> ?S) (ad_permits db)"
    have split: "set ids = ?S \<union> ?T" "?S \<inter> ?T = {}"
      using less(2) by (metis append_take_drop_id set_append) (metis append_take_drop_id distinct_append less(2))
    have "distinct (map exec_of ?rs)" using ok by (simp add: permits_ok_def o_def distinct_map_filter)
    moreover have "\<forall>r\<in>set ?rs. dict_get found (exec_of r) = None" using less(3) split(1) by auto
    ultimately obtain f1 where f1: "add_rows ?rs found = Inr f1"
      "\<And>e. dict_get f1 e = (case find (\<lambda>r. exec_of r = e) ?rs of Some r \<Rightarrow> Some r | None \<Rightarrow> dict_get found e)"
      using add_rows_spec [of ?rs found] by blast
    have f1': "dict_get f1 e = (if e \<in> ?S then (case find_permit db e of Some r \<Rightarrow> Some r | None \<Rightarrow> dict_get found e) else dict_get found e)" for e
      unfolding f1(2) find_filter_permits find_permit_def by simp
    have "length (drop 400 ids) < length ids" using False by simp
    moreover have "distinct (drop 400 ids)" using less(2) by simp
    moreover have "\<forall>e\<in>?T. dict_get f1 e = None" using f1' split less(3) by auto
    ultimately obtain f2 where f2: "read_chunks db (drop 400 ids) f1 = Inr f2"
      "\<And>e. dict_get f2 e = (if e \<in> ?T then find_permit db e else dict_get f1 e)" using less(1) [of "drop 400 ids" f1] by blast
    have r: "read_chunks db ids found = Inr f2"
      by (subst read_chunks.simps) (simp only: False if_False f1(1) res_bind_def sum.case f2(1))
    have "dict_get f2 e = (if e \<in> set ids then find_permit db e else dict_get found e)" for e
      using f2(2) [of e] f1' [of e] split less(3) by (auto split: option.splits)
    then show ?thesis using r by blast
  qed simp
qed

declare read_chunks.simps [simp del]

lemma from_keys_spec: "distinct (from_keys seen xs) \<and> set (from_keys seen xs) = set xs - set seen"
  by (induction seen xs rule: from_keys.induct) auto

lemma dict_get_Nil: "dict_get [] e = None"
  by (simp add: dict_get_def)

lemma rows_by_execution_spec:
  assumes "permits_ok db"
  shows "\<exists>existing. rows_by_execution db ids = Inr existing \<and> (\<forall>e. dict_get existing e = (if e \<in> set ids then find_permit db e else None))"
  using read_chunks_spec [OF assms, of "from_keys [] ids" "[]"] from_keys_spec [of "[]" ids]
  unfolding dict_get_Nil rows_by_execution_def by simp

section \<open>Acquisitions\<close>

definition same_tables :: "api_db \<Rightarrow> api_db \<Rightarrow> bool" where
  "same_tables db db' \<longleftrightarrow> ad_limit db' = ad_limit db \<and> ad_owner db' = ad_owner db \<and> ad_observation db' = ad_observation db \<and> ad_scope db' = ad_scope db"

lemma same_tables_simps:
  assumes "same_tables db db'"
  shows "require_owner db' i c = require_owner db i c" "may_acquire db' i = may_acquire db i" "may_release db' i = may_release db i"
    "read_limit db' = read_limit db" "owners_coherent db' = owners_coherent db"
proof -
  have e: "ad_limit db' = ad_limit db" "ad_owner db' = ad_owner db" "ad_observation db' = ad_observation db" "ad_scope db' = ad_scope db"
    using assms by (simp_all add: same_tables_def)
  have o: "require_owner db' i c = require_owner db i c" for i c unfolding require_owner_def require_scope_def e ..
  show "require_owner db' i c = require_owner db i c" by (rule o)
  show "may_acquire db' i = may_acquire db i" "may_release db' i = may_release db i" unfolding may_acquire_def may_release_def o by (rule refl)+
  show "read_limit db' = read_limit db" "owners_coherent db' = owners_coherent db"
    unfolding read_limit_def owners_coherent_def e by (rule refl)+
qed

lemma insert_permit_spec:
  assumes "find_permit db (pi_execution i) = None" "validate_identity i = Inr ()"
  shows "\<exists>row. insert_permit t db i = (db\<lparr>ad_permits := ad_permits db @ [row]\<rparr>, Inr row) \<and> pr_identity row = i \<and>
    find_permit (db\<lparr>ad_permits := ad_permits db @ [row]\<rparr>) (pi_execution i) = Some row"
proof -
  let ?row = "\<lparr>pr_identity = i, pr_acquired = IsoTime t\<rparr>"
  have app: "find P (xs @ ys) = (case find P xs of None \<Rightarrow> find P ys | Some x \<Rightarrow> Some x)" for P and xs ys :: "permit_row list"
    by (induction xs) auto
  have "find_permit (db\<lparr>ad_permits := ad_permits db @ [?row]\<rparr>) (pi_execution i) = Some ?row"
    using assms(1) by (simp add: find_permit_def app)
  then show ?thesis using assms by (intro exI [of _ ?row]) (simp add: insert_permit_def Let_def permit_from_row_def res_bind_def)
qed

lemma permits_ok_append: "permits_ok db \<Longrightarrow> find_permit db (pi_execution (pr_identity row)) = None \<Longrightarrow> permits_ok (db\<lparr>ad_permits := ad_permits db @ [row]\<rparr>)"
  by (auto simp: permits_ok_def find_permit_None)

lemma find_permit_append:
  "find_permit (db\<lparr>ad_permits := ad_permits db @ [row]\<rparr>) e = (case find_permit db e of None \<Rightarrow> if exec_of row = e then Some row else None | Some r \<Rightarrow> Some r)"
proof -
  have "find P (xs @ ys) = (case find P xs of None \<Rightarrow> find P ys | Some x \<Rightarrow> Some x)" for P and xs ys :: "permit_row list"
    by (induction xs) auto
  then show ?thesis by (simp add: find_permit_def split: option.splits)
qed

text \<open>What an acquisition does, by cases.\<close>

lemma try_acquire_refused: "\<not> may_acquire db i \<Longrightarrow> \<exists>e. try_acquire t db i = (db, Inl e)"
  by (auto simp: may_acquire_def try_acquire_def res_bind_def split: sum.splits)

lemma try_acquire_may:
  assumes "may_acquire db i"
  shows "try_acquire t db i = (case find_permit db (pi_execution i) of
      Some row \<Rightarrow> (db, existing_decision row i)
    | None \<Rightarrow> (case read_limit db of
        Inl e \<Rightarrow> (db, Inl e)
      | Inr limit \<Rightarrow>
          if (case limit of None \<Rightarrow> False | Some l \<Rightarrow> l \<le> int (length (ad_permits db))) then (db, Inr False)
          else (case insert_permit t db i of (db', Inl e) \<Rightarrow> (db', Inl e) | (db', Inr _) \<Rightarrow> (db', Inr True))))"
  using assms by (auto simp: may_acquire_def try_acquire_def res_bind_def)

lemma guarded_same [simp]: "guarded db (db, r) = (db, decide r)"
  by (auto simp: guarded_def decide_def split: sum.splits)

definition slot_ok :: "api_db \<Rightarrow> permit_identity \<times> slot_status \<Rightarrow> bool" where
  "slot_ok db s \<longleftrightarrow> (case snd s of
     None \<Rightarrow> may_acquire db (fst s)
   | Some out \<Rightarrow> if may_acquire db (fst s) then \<exists>row. find_permit db (pi_execution (fst s)) = Some row \<and> out = decide (existing_decision row (fst s))
       else decision out = None)"

lemma same_tables_permits [simp]: "same_tables db (db\<lparr>ad_permits := rows\<rparr>)"
  by (simp add: same_tables_def)

lemma slot_ok_append:
  assumes "slot_ok db s"
  shows "slot_ok (db\<lparr>ad_permits := ad_permits db @ [row]\<rparr>) s"
proof -
  have m: "may_acquire (db\<lparr>ad_permits := ad_permits db @ [row]\<rparr>) (fst s) = may_acquire db (fst s)"
    by (rule same_tables_simps) simp
  show ?thesis using assms unfolding slot_ok_def m find_permit_append by (auto split: option.splits if_splits)
qed

lemma decided_slot:
  assumes "slot_ok db (i, Some out)"
  shows "\<exists>out'. guarded db (try_acquire t db i) = (db, out') \<and> decision out' = decision out"
proof (cases "may_acquire db i")
  case True
  then obtain row where "find_permit db (pi_execution i) = Some row" "out = decide (existing_decision row i)"
    using assms by (auto simp: slot_ok_def)
  then have "guarded db (try_acquire t db i) = (db, out)" using True by (simp add: try_acquire_may)
  then show ?thesis by blast
next
  case False
  then obtain e where "try_acquire t db i = (db, Inl e)" using try_acquire_refused by blast
  then show ?thesis using assms False by (simp add: slot_ok_def decide_def)
qed

text \<open>A step both ways, followed by the rest.\<close>

lemma same_result_Cons:
  assumes "guarded db (operation (clock pos) db i) = (db1, out')" "decision out' = decision out"
    and "same_result r (apply_individually operation clock (Suc pos) is db1)"
  shows "same_result (case r of (db', outs) \<Rightarrow> (db', out # outs)) (apply_individually operation clock pos (i # is) db)"
  using assms by (auto simp: same_result_def individually_Cons split: prod.splits)

lemma acquire_pending_same:
  assumes "permits_ok db" and "\<forall>s\<in>set slots. slot_ok db s"
    and "\<forall>i. (i, None) \<in> set slots \<longrightarrow> dict_get existing (pi_execution i) = find_permit db (pi_execution i)"
    and "read_limit db = Inr limit"
    and "case limit of None \<Rightarrow> int (length (open_slots slots)) \<le> available | Some l \<Rightarrow> available = max 0 (l - int (length (ad_permits db)))"
  shows "same_result (acquire_pending clock pos slots existing available db) (apply_individually try_acquire clock pos (map fst slots) db)"
  using assms
proof (induction slots arbitrary: pos existing available db)
  case Nil
  then show ?case by (simp add: same_result_def)
next
  case (Cons s slots)
  obtain i out where s: "s = (i, out)" by fastforce
  show ?case
  proof (cases out)
    case (Some o')
    have "slot_ok db (i, Some o')" using Cons.prems(2) s Some by simp
    then obtain out' where g: "guarded db (try_acquire (clock pos) db i) = (db, out')" "decision out' = decision o'"
      using decided_slot by blast
    have "same_result (acquire_pending clock (Suc pos) slots existing available db) (apply_individually try_acquire clock (Suc pos) (map fst slots) db)"
      by (rule Cons.IH) (use Cons.prems s Some in \<open>auto simp: open_slots_def split: option.splits\<close>)
    from same_result_Cons [where operation = try_acquire, OF g this] show ?thesis by (simp add: s Some)
  next
    case None
    have may: "may_acquire db i" using Cons.prems(2) s None by (simp add: slot_ok_def)
    have ex: "dict_get existing (pi_execution i) = find_permit db (pi_execution i)" using Cons.prems(3) s None by simp
    show ?thesis
    proof (cases "find_permit db (pi_execution i)")
      case row: (Some row)
      have "guarded db (try_acquire (clock pos) db i) = (db, decide (existing_decision row i))" using may row by (simp add: try_acquire_may)
      moreover have "same_result (acquire_pending clock (Suc pos) slots existing available db) (apply_individually try_acquire clock (Suc pos) (map fst slots) db)"
        by (rule Cons.IH) (use Cons.prems s None in \<open>auto simp: open_slots_def split: option.splits\<close>)
      ultimately show ?thesis using same_result_Cons [where operation = try_acquire] ex row by (simp add: s None)
    next
      case none: None
      show ?thesis
      proof (cases "available = 0")
        case True
        then obtain l where l: "limit = Some l" "l \<le> int (length (ad_permits db))"
          using Cons.prems(5) s None by (cases limit) (auto simp: open_slots_def)
        then have "guarded db (try_acquire (clock pos) db i) = (db, (True, PVal False))"
          using may none Cons.prems(4) by (simp add: try_acquire_may decide_def)
        moreover have "same_result (acquire_pending clock (Suc pos) slots existing available db) (apply_individually try_acquire clock (Suc pos) (map fst slots) db)"
          by (rule Cons.IH) (use Cons.prems s None l in \<open>auto simp: open_slots_def\<close>)
        ultimately show ?thesis using same_result_Cons [where operation = try_acquire] ex none True by (simp add: s None)
      next
        case False
        obtain row where ins: "insert_permit (clock pos) db i = (db\<lparr>ad_permits := ad_permits db @ [row]\<rparr>, Inr row)" "pr_identity row = i"
          using insert_permit_spec [OF none, of "clock pos"] may by (auto simp: may_acquire_def)
        let ?db = "db\<lparr>ad_permits := ad_permits db @ [row]\<rparr>"
        have room: "\<not> (case limit of None \<Rightarrow> False | Some l \<Rightarrow> l \<le> int (length (ad_permits db)))"
          using Cons.prems(5) False by (auto split: option.splits)
        have "try_acquire (clock pos) db i = (?db, Inr True)"
          using may none Cons.prems(4) room ins by (simp add: try_acquire_may split: option.splits)
        then have g: "guarded db (try_acquire (clock pos) db i) = (?db, (True, PVal True))" by (simp add: guarded_def)
        have "same_result (acquire_pending clock (Suc pos) slots (dict_set existing (pi_execution i) row) (available - 1) ?db)
            (apply_individually try_acquire clock (Suc pos) (map fst slots) ?db)"
        proof (rule Cons.IH)
          show "permits_ok ?db" using Cons.prems(1) none ins(2) by (intro permits_ok_append) simp_all
          show "\<forall>s\<in>set slots. slot_ok ?db s" using Cons.prems(2) slot_ok_append by simp
          show "\<forall>j. (j, None) \<in> set slots \<longrightarrow> dict_get (dict_set existing (pi_execution i) row) (pi_execution j) = find_permit ?db (pi_execution j)"
            using Cons.prems(3) none ins(2) by (auto simp: dict_simps find_permit_append split: option.splits)
          show "read_limit ?db = Inr limit" using Cons.prems(4) same_tables_simps(4) [of db ?db] by simp
          show "case limit of None \<Rightarrow> int (length (open_slots slots)) \<le> available - 1 | Some l \<Rightarrow> available - 1 = max 0 (l - int (length (ad_permits ?db)))"
            using Cons.prems(5) s None room by (auto simp: open_slots_def split: option.splits)
        qed
        from same_result_Cons [where operation = try_acquire, OF g refl this] show ?thesis using ex none False ins(1) by (simp add: s None)
      qed
    qed
  qed
qed

lemma acquire_blocked:
  assumes "\<forall>s\<in>set slots. slot_ok db s" and "\<forall>i. (i, None) \<in> set slots \<longrightarrow> find_permit db (pi_execution i) = None"
    and "read_limit db = Inl e"
  shows "same_result (db, fail_open e slots) (apply_individually try_acquire clock pos (map fst slots) db)"
  using assms(1,2)
proof (induction slots arbitrary: pos)
  case Nil
  then show ?case by (simp add: same_result_def fail_open_def)
next
  case (Cons s slots)
  obtain i out where s: "s = (i, out)" by fastforce
  have ih: "same_result (db, fail_open e slots) (apply_individually try_acquire clock (Suc pos) (map fst slots) db)"
    using Cons by simp
  let ?out = "case out of None \<Rightarrow> (False, PExn e) | Some o' \<Rightarrow> o'"
  have "\<exists>out'. guarded db (try_acquire (clock pos) db i) = (db, out') \<and> decision out' = decision ?out"
  proof (cases out)
    case None
    then have "may_acquire db i" "find_permit db (pi_execution i) = None" using Cons.prems s by (auto simp: slot_ok_def)
    then show ?thesis using assms(3) None by (simp add: try_acquire_may decide_def)
  next
    case (Some o')
    then show ?thesis using decided_slot [of db i o'] Cons.prems(1) s by simp
  qed
  then obtain out' where "guarded db (try_acquire (clock pos) db i) = (db, out')" "decision out' = decision ?out" by blast
  from same_result_Cons [where operation = try_acquire, OF this ih] show ?case by (simp add: s fail_open_def)
qed

lemma acquire_all_decided:
  assumes "\<forall>s\<in>set slots. slot_ok db s \<and> snd s \<noteq> None"
  shows "same_result (db, map (the \<circ> snd) slots) (apply_individually try_acquire clock pos (map fst slots) db)"
  using assms
proof (induction slots arbitrary: pos)
  case Nil
  then show ?case by (simp add: same_result_def)
next
  case (Cons s slots)
  obtain i out where s: "s = (i, Some out)" using Cons.prems by (cases s) auto
  then have "slot_ok db (i, Some out)" using Cons.prems by simp
  then obtain out' where "guarded db (try_acquire (clock pos) db i) = (db, out')" "decision out' = decision out"
    using decided_slot by blast
  from same_result_Cons [where operation = try_acquire, OF this Cons.IH [of "Suc pos"]] Cons.prems show ?case by (simp add: s)
qed

lemma open_slots_map: "set (open_slots slots) = {i. (i, None) \<in> set slots}"
  by (force simp: open_slots_def)

lemma apply_acquisitions_same:
  assumes co: "owners_coherent db" and ok: "permits_ok db"
  shows "same_result (apply_acquisitions clock pos ids db) (apply_individually try_acquire clock pos ids db)"
proof (cases "length ids \<le> 1")
  case True
  then show ?thesis by (simp add: apply_acquisitions_def same_result_def)
next
  case False
  let ?slots = "map (\<lambda>i. (i, slot_of db i)) ids"
  have sl: "scope_phase db (map (\<lambda>i. (i, owner_phase db i)) ids) [] = ?slots"
    by (subst scope_phase_eq) (auto simp: dict_get_def o_def)
  let ?ids = "map pi_execution (open_slots ?slots)"
  obtain existing where ex: "rows_by_execution db ?ids = Inr existing" "\<And>e. dict_get existing e = (if e \<in> set ?ids then find_permit db e else None)"
    using rows_by_execution_spec [OF ok] by blast
  have ex': "dict_get existing (pi_execution i) = find_permit db (pi_execution i)" if "(i, None) \<in> set ?slots" for i
  proof -
    have "pi_execution i \<in> set ?ids" using that by (auto simp: open_slots_map)
    then show ?thesis using ex(2) by simp
  qed
  define slots' where "slots' = existing_phase existing ?slots"
  have fst': "map fst slots' = ids" by (simp add: slots'_def existing_phase_def o_def split_def)
  have mem: "\<exists>i\<in>set ids. s = (i, case slot_of db i of Some out \<Rightarrow> Some out
      | None \<Rightarrow> (case find_permit db (pi_execution i) of None \<Rightarrow> None | Some row \<Rightarrow> Some (decide (existing_decision row i))))"
    if sin: "s \<in> set slots'" for s
  proof -
    obtain i where i: "i \<in> set ids" "s = (i, case slot_of db i of Some out \<Rightarrow> Some out
      | None \<Rightarrow> (case dict_get existing (pi_execution i) of None \<Rightarrow> None | Some row \<Rightarrow> Some (decide (existing_decision row i))))"
      using sin unfolding slots'_def existing_phase_def by auto
    show ?thesis
    proof (cases "slot_of db i")
      case None
      then have "(i, None) \<in> set ?slots" using i(1) by force
      then show ?thesis using i None ex' [of i] by (intro bexI [of _ i]) simp_all
    qed (use i in auto)
  qed
  have okslots: "\<forall>s\<in>set slots'. slot_ok db s"
  proof
    fix s assume "s \<in> set slots'"
    from mem [OF this] obtain i where i: "i \<in> set ids" "s = (i, case slot_of db i of Some out \<Rightarrow> Some out
      | None \<Rightarrow> (case find_permit db (pi_execution i) of None \<Rightarrow> None | Some row \<Rightarrow> Some (decide (existing_decision row i))))" by blast
    show "slot_ok db s" using slot_of_None [OF co, of i] slot_of_Some [of db i] unfolding i(2) slot_ok_def
      by (auto split: option.splits)
  qed
  have openslots: "(i, None) \<in> set slots' \<Longrightarrow> find_permit db (pi_execution i) = None \<and> (i, None) \<in> set ?slots" for i
    using mem [of "(i, None)"] by (auto split: option.splits)
  have res: "apply_acquisitions clock pos ids db = (if open_slots slots' = [] then (db, map (the \<circ> snd) slots')
      else (case read_limit db of
        Inl e \<Rightarrow> (db, fail_open e slots')
      | Inr limit \<Rightarrow> acquire_pending clock pos slots' existing
          (case limit of None \<Rightarrow> int (length (open_slots slots')) | Some l \<Rightarrow> max 0 (l - int (length (ad_permits db)))) db))"
    using False unfolding apply_acquisitions_def sl slots'_def by (simp add: ex(1) Let_def)
  show ?thesis
  proof (cases "open_slots slots' = []")
    case True
    have "snd s \<noteq> None" if "s \<in> set slots'" for s
    proof
      assume "snd s = None"
      then have "(fst s, None) \<in> set slots'" using that by (cases s) simp
      then have "fst s \<in> set (open_slots slots')" unfolding open_slots_map by simp
      then show False using True by simp
    qed
    then have "\<forall>s\<in>set slots'. slot_ok db s \<and> snd s \<noteq> None" using okslots by blast
    from acquire_all_decided [OF this, of clock pos] show ?thesis unfolding res fst' using True by simp
  next
    case op: False
    show ?thesis
    proof (cases "read_limit db")
      case (Inl e)
      from acquire_blocked [OF okslots _ Inl, of clock pos] openslots show ?thesis unfolding res fst' using op Inl by simp
    next
      case (Inr limit)
      let ?av = "case limit of None \<Rightarrow> int (length (open_slots slots')) | Some l \<Rightarrow> max 0 (l - int (length (ad_permits db)))"
      have "same_result (acquire_pending clock pos slots' existing ?av db) (apply_individually try_acquire clock pos (map fst slots') db)"
        by (rule acquire_pending_same [OF ok okslots _ Inr]) (use ex' openslots in \<open>auto split: option.splits\<close>)
      then show ?thesis unfolding res fst' using op Inr by simp
    qed
  qed
qed

section \<open>Releases\<close>

lemma release_one_refused: "\<not> may_release db i \<Longrightarrow> \<exists>e. release_one t db i = (db, Inl e)"
  by (auto simp: may_release_def release_one_def res_bind_def split: sum.splits)

lemma release_one_may:
  assumes "may_release db i"
  shows "release_one t db i = (case find_permit db (pi_execution i) of
      None \<Rightarrow> (db, Inl missing_error)
    | Some row \<Rightarrow> (case permit_from_row row of
        Inl e \<Rightarrow> (db, Inl e)
      | Inr found \<Rightarrow> if found \<noteq> i then (db, Inl missing_error) else delete_permit row db i))"
  using assms by (auto simp: may_release_def release_one_def res_bind_def)

lemma permit_from_row_identity: "permit_from_row row = Inr i \<Longrightarrow> pr_identity row = i"
  by (auto simp: permit_from_row_def res_bind_eq_Inr split: acquired_time.splits)

text \<open>Deleting the row that was read succeeds and removes the row of that execution only.\<close>

lemma delete_permit_spec:
  assumes ok: "permits_ok db" and row: "find_permit db (pi_execution i) = Some row" "pr_identity row = i"
  shows "\<exists>db'. delete_permit row db i = (db', Inr True) \<and> same_tables db db' \<and> permits_ok db' \<and>
    length (ad_permits db') < length (ad_permits db) \<and>
    (\<forall>e. find_permit db' e = (if e = pi_execution i then None else find_permit db e))"
proof -
  let ?hit = "\<lambda>r. r = \<lparr>pr_identity = i, pr_acquired = pr_acquired row\<rparr>"
  have r: "row = \<lparr>pr_identity = i, pr_acquired = pr_acquired row\<rparr>" using row(2) by (cases row) simp
  have mem: "row \<in> set (ad_permits db)" using find_permit_Some [OF row(1)] by simp
  have d: "distinct (ad_permits db)" "distinct (map exec_of (ad_permits db))" using ok by (auto simp: permits_ok_def o_def distinct_map)
  have one: "distinct xs \<Longrightarrow> x \<in> set xs \<Longrightarrow> filter (\<lambda>r. r = x) xs = [x]" for x and xs :: "permit_row list"
    by (induction xs) (auto simp: filter_empty_conv)
  have hits: "filter ?hit (ad_permits db) = [row]" using one [OF d(1) mem] r by simp
  let ?db = "db\<lparr>ad_permits := filter (\<lambda>r. \<not> ?hit r) (ad_permits db)\<rparr>"
  have same: "(\<not> ?hit x) = (exec_of x \<noteq> pi_execution i)" if "x \<in> set (ad_permits db)" for x
  proof
    assume n: "\<not> ?hit x"
    show "exec_of x \<noteq> pi_execution i"
    proof
      assume "exec_of x = pi_execution i"
      then have "x = row" using find_permit_in [OF ok that] row(1) by simp
      then show False using n r by simp
    qed
  qed auto
  then have fl: "filter (\<lambda>r. \<not> ?hit r) (ad_permits db) = filter (\<lambda>r. exec_of r \<noteq> pi_execution i) (ad_permits db)" by (intro filter_cong) auto
  have find: "find P (filter (\<lambda>r. exec_of r \<noteq> pi_execution i) xs) = (if e = pi_execution i then None else find P xs)"
    if "P = (\<lambda>r. exec_of r = e)" for P e and xs :: "permit_row list"
    using that by (induction xs) auto
  have fp: "find_permit ?db e = (if e = pi_execution i then None else find_permit db e)" for e
    unfolding find_permit_def using find [OF refl, of e "ad_permits db"] fl by simp
  have "permits_ok ?db" using ok by (simp add: permits_ok_def distinct_map_filter)
  moreover have "length (ad_permits ?db) < length (ad_permits db)" using mem r by (simp add: length_filter_less)
  moreover have "delete_permit row db i = (?db, Inr True)" using hits fp by (simp add: delete_permit_def Let_def)
  ultimately show ?thesis using fp by (intro exI [of _ ?db]) (simp add: same_tables_def)
qed

lemma release_pending_same:
  assumes "permits_ok db" and "\<forall>(i, out)\<in>set slots. (out = None) = may_release db i \<and> (\<forall>out'. out = Some out' \<longrightarrow> decision out' = None)"
    and "\<forall>i. (i, None) \<in> set slots \<longrightarrow> dict_get existing (pi_execution i) = find_permit db (pi_execution i)"
  shows "same_result (release_pending slots existing db) (apply_individually release_one clock pos (map fst slots) db)"
  using assms
proof (induction slots arbitrary: pos existing db)
  case Nil
  then show ?case by (simp add: same_result_def)
next
  case (Cons s slots)
  obtain i out where s: "s = (i, out)" by fastforce
  have rest: "\<forall>(i, out)\<in>set slots. (out = None) = may_release db i \<and> (\<forall>out'. out = Some out' \<longrightarrow> decision out' = None)"
    "\<forall>i. (i, None) \<in> set slots \<longrightarrow> dict_get existing (pi_execution i) = find_permit db (pi_execution i)"
    using Cons.prems by simp_all
  have ih: "same_result (release_pending slots existing db) (apply_individually release_one clock (Suc pos) (map fst slots) db)"
    by (rule Cons.IH [OF Cons.prems(1) rest])
  show ?case
  proof (cases out)
    case (Some o')
    then have "\<not> may_release db i" "decision o' = None" using Cons.prems(2) s by (cases o', auto)+
    then obtain e where "release_one (clock pos) db i = (db, Inl e)" using release_one_refused by blast
    then have "guarded db (release_one (clock pos) db i) = (db, (False, PExn e))" by (simp add: decide_def)
    from same_result_Cons [where operation = release_one, OF this _ ih, of o'] \<open>decision o' = None\<close> show ?thesis by (simp add: s Some)
  next
    case None
    have may: "may_release db i" using Cons.prems(2) s None by auto
    have ex: "dict_get existing (pi_execution i) = find_permit db (pi_execution i)" using Cons.prems(3) s None by simp
    have failed: ?thesis if "release_one (clock pos) db i = (db, Inl e)"
      "release_pending (s # slots) existing db = (case release_pending slots existing db of (db', outs) \<Rightarrow> (db', (False, PExn e) # outs))" for e
    proof -
      have "guarded db (release_one (clock pos) db i) = (db, (False, PExn e))" using that(1) by (simp add: decide_def)
      from same_result_Cons [where operation = release_one, OF this refl ih] show ?thesis unfolding that(2) by (simp add: s)
    qed
    show ?thesis
    proof (cases "find_permit db (pi_execution i)")
      case none: None
      show ?thesis by (rule failed [of missing_error]) (use may none ex in \<open>simp_all add: release_one_may s None\<close>)
    next
      case row: (Some row)
      show ?thesis
      proof (cases "permit_from_row row")
        case (Inl e)
        show ?thesis by (rule failed [of e]) (use may row ex Inl in \<open>simp_all add: release_one_may s None\<close>)
      next
        case (Inr found)
        show ?thesis
        proof (cases "found = i")
          case False
          show ?thesis by (rule failed [of missing_error]) (use may row ex Inr False in \<open>simp_all add: release_one_may s None\<close>)
        next
          case True
          obtain db' where d: "delete_permit row db i = (db', Inr True)" "same_tables db db'" "permits_ok db'"
            "\<And>e. find_permit db' e = (if e = pi_execution i then None else find_permit db e)"
            using delete_permit_spec [OF Cons.prems(1) row] permit_from_row_identity [OF Inr] True by auto
          have g: "guarded db (release_one (clock pos) db i) = (db', (True, PVal True))"
            using may row Inr True d(1) by (simp add: release_one_may guarded_def)
          have m: "may_release db' j = may_release db j" for j by (rule same_tables_simps(3) [OF d(2)])
          have "same_result (release_pending slots (dict_pop existing (pi_execution i)) db') (apply_individually release_one clock (Suc pos) (map fst slots) db')"
            by (rule Cons.IH [OF d(3)]) (use rest d(4) m in \<open>auto simp: dict_simps\<close>)
          from same_result_Cons [where operation = release_one, OF g refl this] show ?thesis
            using ex row Inr True d(1) by (simp add: s None)
        qed
      qed
    qed
  qed
qed

lemma apply_releases_same:
  assumes ok: "permits_ok db"
  shows "same_result (apply_releases clock pos ids db) (apply_individually release_one clock pos ids db)"
proof (cases "length ids \<le> 1")
  case True
  then show ?thesis by (simp add: apply_releases_def same_result_def)
next
  case False
  define st :: "permit_identity \<Rightarrow> slot_status" where "st i = (case res_bind (validate_identity i) (\<lambda>_. require_owner db i False) of
     Inl e \<Rightarrow> Some (False, PExn e) | Inr _ \<Rightarrow> None)" for i
  have st: "(st i = None) = may_release db i" "st i = Some out \<Longrightarrow> decision out = None" for i out
    by (auto simp: st_def may_release_def res_bind_def split: sum.splits)
  define slots where "slots = map (\<lambda>i. (i, st i)) ids"
  let ?ids = "map pi_execution (open_slots slots)"
  obtain existing where ex: "rows_by_execution db ?ids = Inr existing" "\<And>e. dict_get existing e = (if e \<in> set ?ids then find_permit db e else None)"
    using rows_by_execution_spec [OF ok] by blast
  have ex': "dict_get existing (pi_execution i) = find_permit db (pi_execution i)" if "(i, None) \<in> set slots" for i
  proof -
    have "pi_execution i \<in> set ?ids" using that by (auto simp: open_slots_map)
    then show ?thesis using ex(2) by simp
  qed
  have "same_result (release_pending slots existing db) (apply_individually release_one clock pos (map fst slots) db)"
    by (rule release_pending_same [OF ok]) (use st ex' in \<open>auto simp: slots_def\<close>)
  moreover have "map fst slots = ids" by (simp add: slots_def o_def)
  moreover have "apply_releases clock pos ids db = release_pending slots existing db"
    using False ex(1) by (simp add: apply_releases_def Let_def slots_def st_def)
  ultimately show ?thesis by simp
qed

section \<open>Runs of mutations\<close>

lemma try_acquire_keeps:
  assumes "permits_ok db" "try_acquire t db i = (db', Inr v)"
  shows "same_tables db db' \<and> permits_ok db' \<and> (db' = db \<or> length (ad_permits db') = Suc (length (ad_permits db)) \<and>
    (\<forall>l. ad_limit db = Some (PyInt l) \<longrightarrow> int (length (ad_permits db')) \<le> l))"
proof (cases "may_acquire db i \<and> find_permit db (pi_execution i) = None")
  case False
  then have "db' = db" using assms(2) try_acquire_refused [of db i t] try_acquire_may [of db i t]
    by (cases "may_acquire db i") (auto split: option.splits)
  then show ?thesis using assms(1) by (simp add: same_tables_def)
next
  case True
  obtain row where ins: "insert_permit t db i = (db\<lparr>ad_permits := ad_permits db @ [row]\<rparr>, Inr row)" "pr_identity row = i"
    using insert_permit_spec [of db i t] True by (auto simp: may_acquire_def)
  obtain limit where lim: "read_limit db = Inr limit" using assms(2) True by (cases "read_limit db") (auto simp: try_acquire_may)
  have "db' = db \<or> db' = db\<lparr>ad_permits := ad_permits db @ [row]\<rparr> \<and> (\<forall>l. limit = Some l \<longrightarrow> int (length (ad_permits db)) < l)"
    using assms(2) True lim ins(1) by (auto simp: try_acquire_may split: if_splits option.splits)
  moreover have "ad_limit db = Some (PyInt l) \<Longrightarrow> limit = Some l" for l using lim by (auto simp: read_limit_def split: if_splits)
  ultimately show ?thesis using assms(1) permits_ok_append [OF assms(1), of row] True ins(2) by (auto simp: same_tables_def)
qed

lemma release_one_keeps:
  assumes "permits_ok db" "release_one t db i = (db', Inr v)"
  shows "same_tables db db' \<and> permits_ok db' \<and> length (ad_permits db') < length (ad_permits db)"
proof -
  have may: "may_release db i" using assms(2) release_one_refused [of db i t] by auto
  obtain row where row: "find_permit db (pi_execution i) = Some row" "permit_from_row row = Inr i" "delete_permit row db i = (db', Inr v)"
    using assms(2) may by (auto simp: release_one_may split: option.splits sum.splits if_splits)
  from delete_permit_spec [OF assms(1) row(1) permit_from_row_identity [OF row(2)]] row(3) show ?thesis by auto
qed

text \<open>The capacity relation: the other tables and the key of the table are kept, and the table does not grow past the limit.\<close>

definition within_capacity :: "api_db \<Rightarrow> api_db \<Rightarrow> bool" where
  "within_capacity db db' \<longleftrightarrow> (permits_ok db \<longrightarrow> same_tables db db' \<and> permits_ok db' \<and>
     (\<forall>l. ad_limit db = Some (PyInt l) \<longrightarrow> int (length (ad_permits db')) \<le> max l (int (length (ad_permits db)))))"

lemma within_capacity_refl: "within_capacity db db"
  by (simp add: within_capacity_def same_tables_def)

lemma within_capacity_trans: "within_capacity a b \<Longrightarrow> within_capacity b c \<Longrightarrow> within_capacity a c"
  unfolding within_capacity_def same_tables_def by (auto simp: max_def split: if_splits)

lemma apply_one_within:
  assumes "apply_one t db m = (db', Inr v)"
  shows "within_capacity db db'"
  unfolding within_capacity_def
proof
  assume ok: "permits_ok db"
  show "same_tables db db' \<and> permits_ok db' \<and>
     (\<forall>l. ad_limit db = Some (PyInt l) \<longrightarrow> int (length (ad_permits db')) \<le> max l (int (length (ad_permits db))))"
  proof (cases "pm_action m = ''acquire''")
    case True
    then have "try_acquire t db (pm_identity m) = (db', Inr v)" using assms by (simp add: apply_one_def)
    note k = try_acquire_keeps [OF ok this]
    moreover have "int (length (ad_permits db')) \<le> max l (int (length (ad_permits db)))" if lim: "ad_limit db = Some (PyInt l)" for l
      using k lim by (auto simp: le_max_iff_disj)
    ultimately show ?thesis by blast
  next
    case False
    then have "release_one t db (pm_identity m) = (db', Inr v)" using assms by (simp add: apply_one_def split: if_splits)
    note k = release_one_keeps [OF ok this]
    then have "int (length (ad_permits db')) \<le> max l (int (length (ad_permits db)))" for l by (simp add: le_max_iff_disj)
    then show ?thesis using k by blast
  qed
qed

lemma individually_within: "apply_individually apply_one clock pos ms db = (db', outs) \<Longrightarrow> within_capacity db db'"
proof (induction ms arbitrary: pos db outs)
  case Nil
  then show ?case by (simp add: within_capacity_refl)
next
  case (Cons m ms)
  obtain db1 out where g: "guarded db (apply_one (clock pos) db m) = (db1, out)" by (rule prod.exhaust)
  have "within_capacity db db1"
    using g apply_one_within [of "clock pos" db m] within_capacity_refl by (auto simp: guarded_def split: prod.splits sum.splits)
  moreover obtain outs1 where "apply_individually apply_one clock (Suc pos) ms db1 = (db', outs1)"
    using Cons.prems g by (auto simp: individually_Cons split: prod.splits)
  ultimately show ?case using Cons.IH within_capacity_trans by blast
qed

lemma within_capacityD: "within_capacity db db' \<Longrightarrow> permits_ok db \<Longrightarrow> same_tables db db' \<and> permits_ok db'"
  by (simp add: within_capacity_def)

lemma individually_cong:
  assumes "\<forall>x\<in>set xs. \<forall>t db. f t db x = g t db (h x)"
  shows "apply_individually f clock pos xs db = apply_individually g clock pos (map h xs) db"
  using assms
proof (induction xs arbitrary: pos db)
  case (Cons x xs)
  have e: "f t db x = g t db (h x)" for t db using Cons.prems by simp
  have ih: "apply_individually f clock pos xs db = apply_individually g clock pos (map h xs) db" for pos db
    by (rule Cons.IH) (use Cons.prems in simp)
  show ?case by (simp only: list.map individually_Cons e ih)
qed simp

lemma individually_failing:
  assumes "\<And>t i. operation t db i = (db, Inl e)"
  shows "apply_individually operation clock pos xs db = (db, map (\<lambda>_. (False, PExn e)) xs)"
  by (induction xs arbitrary: pos) (simp_all add: individually_Cons assms decide_def)

lemma run_action: "x \<in> set (m # takeWhile (\<lambda>x. pm_action x = pm_action m) ms) \<Longrightarrow> pm_action x = pm_action m"
  by (auto dest: set_takeWhileD)

text \<open>
  C38. Deciding a mixed batch of acquisitions and releases together gives the same permits and the same decisions
  as handling the mutations one after the other: grouping, the snapshot of the existing rows, the shared scope
  checks and the counter of available permits change neither who gets a permit nor in which order.
\<close>

theorem grouped_equals_sequential:
  assumes "owners_coherent db" and "permits_ok db"
  shows "same_result (apply_mutations clock pos ms db) (apply_individually apply_one clock pos ms db)"
  using assms
proof (induction clock pos ms db rule: apply_mutations.induct)
  case (1 clock pos db)
  then show ?case by (simp add: same_result_def)
next
  case (2 clock pos m ms db)
  let ?run = "m # takeWhile (\<lambda>x. pm_action x = pm_action m) ms" and ?rest = "dropWhile (\<lambda>x. pm_action x = pm_action m) ms"
  let ?ids = "map pm_identity ?run"
  let ?grouped = "if pm_action m = ''acquire'' then apply_acquisitions clock pos ?ids db
            else if pm_action m = ''release'' then apply_releases clock pos ?ids db
            else (db, map (\<lambda>_. (False, PExn (RuntimeError ''Unknown API execution permit mutation''))) ?ids)"
  define op where "op = (\<lambda>t db i. apply_one t db \<lparr>pm_action = pm_action m, pm_identity = i\<rparr>)"
  have seq: "apply_individually apply_one clock pos ?run db = apply_individually op clock pos ?ids db" for pos db
  proof -
    have "\<forall>x\<in>set ?run. \<forall>t db. apply_one t db x = op t db (pm_identity x)"
    proof (intro ballI allI)
      fix x t db assume "x \<in> set ?run"
      from run_action [OF this] show "apply_one t db x = op t db (pm_identity x)" by (simp add: op_def apply_one_def)
    qed
    then show ?thesis by (rule individually_cong)
  qed
  have unknown: "same_result (db, map (\<lambda>_. (False, PExn (RuntimeError ''Unknown API execution permit mutation''))) xs) (apply_individually op clock pos xs db)"
    if "pm_action m \<noteq> ''acquire''" "pm_action m \<noteq> ''release''" for xs pos
    by (subst individually_failing) (use that in \<open>simp_all add: op_def apply_one_def same_result_def\<close>)
  have ops: "pm_action m = ''acquire'' \<Longrightarrow> op = try_acquire" "pm_action m = ''release'' \<Longrightarrow> op = release_one"
    by (simp_all add: op_def apply_one_def fun_eq_iff)
  have run: "same_result ?grouped (apply_individually apply_one clock pos ?run db)"
    unfolding seq using apply_acquisitions_same [OF 2(2,3), of clock pos ?ids] apply_releases_same [OF 2(3), of clock pos ?ids] unknown [of ?ids pos] ops by auto
  obtain db1 outs where g: "?grouped = (db1, outs)" by fastforce
  obtain outs' where s: "apply_individually apply_one clock pos ?run db = (db1, outs')" "map decision outs = map decision outs'"
    using run g by (cases "apply_individually apply_one clock pos ?run db") (auto simp: same_result_def)
  have db1: "same_tables db db1" "permits_ok db1" using within_capacityD [OF individually_within [OF s(1)] 2(3)] by auto
  then have "owners_coherent db1" using 2(2) same_tables_simps(5) by blast
  then have ih: "same_result (apply_mutations clock (pos + length ?run) ?rest db1) (apply_individually apply_one clock (pos + length ?run) ?rest db1)"
    using 2(1) [OF refl refl refl g [symmetric]] db1(2) by simp
  have "apply_individually apply_one clock pos (m # ms) db = (case apply_individually apply_one clock (pos + length ?run) ?rest db1 of (db2, outs'') \<Rightarrow> (db2, outs' @ outs''))"
    using individually_append [of apply_one clock pos ?run ?rest db] s(1) by simp
  moreover have "apply_mutations clock pos (m # ms) db = (case apply_mutations clock (pos + length ?run) ?rest db1 of (db2, outs'') \<Rightarrow> (db2, outs @ outs''))"
    using g by (simp add: Let_def)
  ultimately show ?case using ih s(2) by (auto simp: same_result_def split: prod.splits)
qed

end
