(* ===== verification/Admission_Lane.thy ===== *)
theory Admission_Lane
  imports Api_Admission
begin

text \<open>
  Permits in the writer lane (\<open>storage/api_admission.py\<close>): the grouped requests the storage submits, the readings
  of the permit table, the cleanup of a session, and the bound the lane keeps in every interleaving.
\<close>

section \<open>Identities and requests\<close>

definition validate_job_id :: "int \<Rightarrow> int res" where
  "validate_job_id j = (if j < 1 then Inl (ValueError ''job_id must be an integer >= 1'') else Inr j)"

definition api_execution_permit_identity :: "string \<Rightarrow> string \<Rightarrow> int \<Rightarrow> int \<Rightarrow> string \<Rightarrow> permit_identity res" where
  "api_execution_permit_identity session node job generation execution =
     res_bind (validate_node_name node) (\<lambda>n. res_bind (validate_job_id job) (\<lambda>j.
       let i = \<lparr>pi_session = session, pi_node = n, pi_job = j, pi_generation = generation, pi_execution = execution\<rparr> in
       res_bind (validate_identity i) (\<lambda>_. Inr i)))"

text \<open>The grouped operation of the lane; an item that is missing has no action to read.\<close>

definition permit_decisions :: "(nat \<Rightarrow> nat) \<Rightarrow> api_db \<Rightarrow> permit_mutation option list \<Rightarrow> api_db \<times> bool outcome list res" where
  "permit_decisions clock db items =
     (if None \<in> set items then (db, Inl (AttributeError ''action''))
      else (case apply_mutations clock 0 (map the items) db of (db', outs) \<Rightarrow> (db', Inr outs)))"

definition admission_priority :: int where
  "admission_priority = 5"

definition permit_args :: "(nat \<Rightarrow> nat) \<Rightarrow> string \<Rightarrow> permit_identity \<Rightarrow> (api_db, string \<times> int, permit_mutation, bool) request_args" where
  "permit_args clock action i = \<lparr>ra_priority = PyInt admission_priority, ra_collect_seconds = Some (3 / 1000), ra_weight = PyInt 1,
     ra_operation = None, ra_group_key = Some (''api-execution-permit-decisions'', admission_priority),
     ra_group_item = Some \<lparr>pm_action = action, pm_identity = i\<rparr>, ra_group_operation = Some (permit_decisions clock)\<rparr>"

definition submit_permit :: "(nat \<Rightarrow> nat) \<Rightarrow> string \<Rightarrow> string \<Rightarrow> string \<Rightarrow> int \<Rightarrow> int \<Rightarrow> string \<Rightarrow>
    (api_db, string \<times> int, permit_mutation, bool) mutation_writer \<Rightarrow>
    (int \<times> (api_db, string \<times> int, permit_mutation, bool) mutation_writer) res" where
  "submit_permit clock action session node job generation execution w =
     res_bind (api_execution_permit_identity session node job generation execution) (\<lambda>i. submit (permit_args clock action i) w)"

section \<open>Reading and clearing the table\<close>

definition sorted_permits :: "permit_row list \<Rightarrow> permit_row list" where
  "sorted_permits rows = sort_key (\<lambda>r. (pi_session (pr_identity r), pi_node (pr_identity r), pi_job (pr_identity r), pi_generation (pr_identity r))) rows"

definition read_permits :: "api_db \<Rightarrow> bool \<Rightarrow> permit_identity list res" where
  "read_permits db require_current = res_map (\<lambda>row. res_bind (permit_from_row row) (\<lambda>i.
     res_bind (require_owner db i require_current) (\<lambda>_. Inr i))) (sorted_permits (ad_permits db))"

definition read_permit_decision :: "api_db \<Rightarrow> string \<Rightarrow> string \<Rightarrow> int \<Rightarrow> int \<Rightarrow> string \<Rightarrow> bool \<Rightarrow> bool option res" where
  "read_permit_decision db session node job generation execution present =
     res_bind (api_execution_permit_identity session node job generation execution) (\<lambda>i.
       case find_permit db execution of
         Some row \<Rightarrow> res_bind (permit_from_row row) (\<lambda>found.
           if found \<noteq> i then Inl (RuntimeError ''API execution permit identity changed'')
           else if present then res_bind (require_owner db i False) (\<lambda>_. Inr (Some True))
           else Inr None)
       | None \<Rightarrow> if present then Inr None else res_bind (require_owner db i False) (\<lambda>_. Inr (Some True)))"

fun release_all :: "nat \<Rightarrow> permit_identity list \<Rightarrow> api_db \<Rightarrow> api_db \<times> unit res" where
  "release_all time [] db = (db, Inr ())"
| "release_all time (i # is) db = (case require_owner db i False of
     Inl e \<Rightarrow> (db, Inl e)
   | Inr _ \<Rightarrow> (case release_one time db i of
       (db', Inl e) \<Rightarrow> (db', Inl e)
     | (db', Inr _) \<Rightarrow> release_all time is db'))"

definition clear_permits_for_session :: "nat \<Rightarrow> string \<Rightarrow> api_db \<Rightarrow> api_db \<times> int res" where
  "clear_permits_for_session time session db =
     (if py_strip session = [] then (db, Inl (ValueError ''API permit cleanup requires a session ID''))
      else (case res_map permit_from_row (sorted_permits (filter (\<lambda>r. pi_session (pr_identity r) = session) (ad_permits db))) of
        Inl e \<Rightarrow> (db, Inl e)
      | Inr ids \<Rightarrow> (case release_all time ids db of
          (db', Inl e) \<Rightarrow> (db', Inl e)
        | (db', Inr _) \<Rightarrow>
            if \<exists>r\<in>set (ad_permits db'). pi_session (pr_identity r) = session
            then (db', Inl (RuntimeError ''Session API execution permits were not cleared''))
            else (db', Inr (int (length ids))))))"

section \<open>The table stays within the limit\<close>

definition capacity_kept :: "api_db \<Rightarrow> api_db \<Rightarrow> bool" where
  "capacity_kept db db' \<longleftrightarrow> (permits_ok db \<longrightarrow> permits_ok db' \<and> ad_limit db' = ad_limit db \<and>
     (\<forall>l. ad_limit db = Some (PyInt l) \<longrightarrow> int (length (ad_permits db')) \<le> max l (int (length (ad_permits db)))))"

lemma capacity_kept_refl: "capacity_kept db db"
  by (simp add: capacity_kept_def)

lemma capacity_kept_trans: "capacity_kept a b \<Longrightarrow> capacity_kept b c \<Longrightarrow> capacity_kept a c"
  unfolding capacity_kept_def by (auto simp: max_def split: if_splits)

lemma within_kept: "within_capacity db db' \<Longrightarrow> capacity_kept db db'"
  by (simp add: within_capacity_def capacity_kept_def same_tables_def)

lemma insert_permit_kept:
  assumes "permits_ok db" "insert_permit t db i = (db', Inr row)"
  shows "permits_ok db' \<and> ad_limit db' = ad_limit db \<and> length (ad_permits db') = Suc (length (ad_permits db))"
proof -
  let ?row = "\<lparr>pr_identity = i, pr_acquired = IsoTime t\<rparr>"
  have "find_permit db (pi_execution i) = None" "db' = db\<lparr>ad_permits := ad_permits db @ [?row]\<rparr>"
    using assms(2) by (auto simp: insert_permit_def Let_def split: if_splits)
  then show ?thesis using permits_ok_append [OF assms(1), of ?row] by simp
qed

lemma acquire_pending_kept:
  assumes "acquire_pending clock pos slots existing available db = (db', outs)" "permits_ok db" "0 \<le> available"
  shows "permits_ok db' \<and> ad_limit db' = ad_limit db \<and> int (length (ad_permits db')) \<le> int (length (ad_permits db)) + available"
  using assms
proof (induction slots arbitrary: pos existing available db outs)
  case (Cons s slots)
  obtain i out where s: "s = (i, out)" by fastforce
  have same: ?case if "fst (acquire_pending clock pos (s # slots) existing available db) = fst (acquire_pending clock (Suc pos) slots existing available db)"
    using Cons.IH [of "Suc pos" existing available db "snd (acquire_pending clock (Suc pos) slots existing available db)"] Cons.prems that
    by (metis fst_conv prod.collapse)
  show ?case
  proof (cases out)
    case (Some o')
    show ?thesis by (rule same) (simp add: s Some split: prod.splits)
  next
    case None
    show ?thesis
    proof (cases "dict_get existing (pi_execution i)")
      case (Some row)
      show ?thesis by (rule same) (simp add: s None Some split: prod.splits)
    next
      case none: None
      obtain db1 r where ins: "insert_permit (clock pos) db i = (db1, r)" by (rule prod.exhaust)
      show ?thesis
      proof (cases "available = 0 \<or> (\<exists>e. r = Inl e)")
        case True
        show ?thesis by (rule same) (use True ins in \<open>auto simp: s None none split: prod.splits\<close>)
      next
        case False
        then obtain row where r: "r = Inr row" by (cases r) auto
        note kept = insert_permit_kept [OF Cons.prems(2) ins [unfolded r]]
        obtain outs2 where rest: "acquire_pending clock (Suc pos) slots (dict_set existing (pi_execution i) row) (available - 1) db1 = (db', outs2)"
          using Cons.prems(1) False ins r by (auto simp: s None none split: prod.splits)
        have "permits_ok db' \<and> ad_limit db' = ad_limit db1 \<and> int (length (ad_permits db')) \<le> int (length (ad_permits db1)) + (available - 1)"
          by (rule Cons.IH [OF rest]) (use kept Cons.prems(3) False in auto)
        then show ?thesis using kept by auto
      qed
    qed
  qed
qed simp

lemma delete_permit_kept:
  assumes "permits_ok db" "delete_permit row db i = (db', r)"
  shows "permits_ok db' \<and> ad_limit db' = ad_limit db \<and> length (ad_permits db') \<le> length (ad_permits db)"
  using assms by (auto simp: delete_permit_def Let_def permits_ok_def distinct_map_filter)

lemma release_pending_kept:
  assumes "release_pending slots existing db = (db', outs)" "permits_ok db"
  shows "permits_ok db' \<and> ad_limit db' = ad_limit db \<and> length (ad_permits db') \<le> length (ad_permits db)"
  using assms
proof (induction slots arbitrary: existing db outs)
  case (Cons s slots)
  obtain i out where s: "s = (i, out)" by fastforce
  have "\<exists>existing1 db1 outs1. release_pending slots existing1 db1 = (db', outs1) \<and>
      (db1 = db \<or> (\<exists>row r. delete_permit row db i = (db1, r)))"
    using Cons.prems(1) by (cases out) (auto simp: s split: prod.splits option.splits sum.splits if_splits)
  then obtain existing1 db1 outs1 where rest: "release_pending slots existing1 db1 = (db', outs1)"
    and db1: "db1 = db \<or> (\<exists>row r. delete_permit row db i = (db1, r))" by blast
  have kept: "permits_ok db1 \<and> ad_limit db1 = ad_limit db \<and> length (ad_permits db1) \<le> length (ad_permits db)"
    using db1 delete_permit_kept [OF Cons.prems(2)] Cons.prems(2) by auto
  then show ?case using Cons.IH [OF rest] by auto
qed simp

lemma acquisitions_kept:
  assumes "apply_acquisitions clock pos ids db = (db', outs)"
  shows "capacity_kept db db'"
proof (cases "length ids \<le> 1")
  case True
  define ms where "ms = map (\<lambda>i. \<lparr>pm_action = ''acquire'', pm_identity = i\<rparr>) ids"
  have "apply_individually apply_one clock pos ms db = apply_individually try_acquire clock pos ids db"
    unfolding ms_def individually_map apply_one_def by simp
  then show ?thesis using assms True individually_within [of clock pos ms db db' outs] within_kept by (simp add: apply_acquisitions_def)
next
  case False
  let ?slots = "scope_phase db (map (\<lambda>i. (i, owner_phase db i)) ids) []"
  show ?thesis
  proof (cases "rows_by_execution db (map pi_execution (open_slots ?slots))")
    case (Inl e)
    then show ?thesis using assms False capacity_kept_refl by (simp add: apply_acquisitions_def Let_def)
  next
    case (Inr existing)
    let ?slots' = "existing_phase existing ?slots"
    have r: "(if open_slots ?slots' = [] then (db, map (the \<circ> snd) ?slots')
            else (case read_limit db of
              Inl e \<Rightarrow> (db, fail_open e ?slots')
            | Inr limit \<Rightarrow> acquire_pending clock pos ?slots' existing
                (case limit of None \<Rightarrow> int (length (open_slots ?slots')) | Some l \<Rightarrow> max 0 (l - int (length (ad_permits db)))) db)) = (db', outs)"
      using assms False Inr by (simp add: apply_acquisitions_def Let_def)
    show ?thesis
    proof (cases "open_slots ?slots' = [] \<or> (\<exists>e. read_limit db = Inl e)")
      case True
      then have "db' = db" using r by (auto split: if_splits)
      then show ?thesis using capacity_kept_refl by simp
    next
      case False
      then obtain limit where lim: "read_limit db = Inr limit" by (cases "read_limit db") auto
      let ?av = "case limit of None \<Rightarrow> int (length (open_slots ?slots')) | Some l \<Rightarrow> max 0 (l - int (length (ad_permits db)))"
      have ac: "acquire_pending clock pos ?slots' existing ?av db = (db', outs)" using r lim False by simp
      have "ad_limit db = Some (PyInt l) \<Longrightarrow> limit = Some l" for l using lim by (auto simp: read_limit_def split: if_splits)
      moreover have "0 \<le> ?av" by (auto split: option.splits)
      ultimately show ?thesis using acquire_pending_kept [OF ac] unfolding capacity_kept_def by force
    qed
  qed
qed

lemma releases_kept:
  assumes "apply_releases clock pos ids db = (db', outs)"
  shows "capacity_kept db db'"
proof (cases "length ids \<le> 1")
  case True
  define ms where "ms = map (\<lambda>i. \<lparr>pm_action = ''release'', pm_identity = i\<rparr>) ids"
  have "apply_individually apply_one clock pos ms db = apply_individually release_one clock pos ids db"
    unfolding ms_def individually_map apply_one_def by simp
  then show ?thesis using assms True individually_within [of clock pos ms db db' outs] within_kept by (simp add: apply_releases_def)
next
  case False
  let ?slots = "map (\<lambda>i. (i, case res_bind (validate_identity i) (\<lambda>_. require_owner db i False) of
             Inl e \<Rightarrow> Some (False, PExn e) | Inr _ \<Rightarrow> None)) ids"
  show ?thesis
  proof (cases "rows_by_execution db (map pi_execution (open_slots ?slots))")
    case (Inl e)
    then show ?thesis using assms False capacity_kept_refl by (simp add: apply_releases_def Let_def)
  next
    case (Inr existing)
    then have r: "release_pending ?slots existing db = (db', outs)" using assms False by (simp add: apply_releases_def Let_def)
    show ?thesis unfolding capacity_kept_def using release_pending_kept [OF r] by (auto simp: le_max_iff_disj)
  qed
qed

lemma mutations_kept: "apply_mutations clock pos ms db = (db', outs) \<Longrightarrow> capacity_kept db db'"
proof (induction "length ms" arbitrary: pos ms db outs rule: less_induct)
  case less
  show ?case
  proof (cases ms)
    case Nil
    then show ?thesis using less(2) capacity_kept_refl by simp
  next
    case (Cons m ms')
    let ?run = "m # takeWhile (\<lambda>x. pm_action x = pm_action m) ms'" and ?rest = "dropWhile (\<lambda>x. pm_action x = pm_action m) ms'"
    let ?ids = "map pm_identity ?run"
    obtain db1 outs1 where g: "(if pm_action m = ''acquire'' then apply_acquisitions clock pos ?ids db
            else if pm_action m = ''release'' then apply_releases clock pos ?ids db
            else (db, map (\<lambda>_. (False, PExn (RuntimeError ''Unknown API execution permit mutation''))) ?ids)) = (db1, outs1)" by (rule prod.exhaust)
    have k: "capacity_kept db db1"
    proof (cases "pm_action m = ''acquire''")
      case True
      then show ?thesis using g acquisitions_kept [of clock pos ?ids db db1 outs1] by simp
    next
      case False
      then show ?thesis using g releases_kept [of clock pos ?ids db db1 outs1] capacity_kept_refl by (simp split: if_splits)
    qed
    obtain db2 outs2 where rest: "apply_mutations clock (pos + length ?run) ?rest db1 = (db2, outs2)" by (rule prod.exhaust)
    have "apply_mutations clock pos ms db = (db2, outs1 @ outs2)" unfolding Cons apply_mutations.simps Let_def g prod.case rest by simp
    then have "db' = db2" using less(2) by simp
    moreover have "length ?rest < length ms" using length_dropWhile_le [of "\<lambda>x. pm_action x = pm_action m" ms'] by (simp add: Cons le_imp_less_Suc)
    ultimately have "capacity_kept db1 db'" using less(1) [of ?rest] rest by blast
    with k show ?thesis by (rule capacity_kept_trans)
  qed
qed

lemma release_all_kept: "release_all time ids db = (db', Inr v) \<Longrightarrow> capacity_kept db db'"
proof (induction time ids db rule: release_all.induct)
  case (2 time i ids db)
  obtain owner db1 r where o: "require_owner db i False = Inr owner" "release_one time db i = (db1, Inr r)" "release_all time ids db1 = (db', Inr v)"
    using 2(2) by (auto split: sum.splits prod.splits)
  have "capacity_kept db db1"
    using release_one_keeps [OF _ o(2)] unfolding capacity_kept_def same_tables_def by (auto simp: le_max_iff_disj)
  then show ?case using 2(1) [OF o(1) o(2) [symmetric] refl o(3)] capacity_kept_trans by blast
qed (simp add: capacity_kept_refl)

lemma clear_kept: "clear_permits_for_session time session db = (db', Inr n) \<Longrightarrow> capacity_kept db db'"
  by (auto simp: clear_permits_for_session_def dest: release_all_kept split: if_splits sum.splits prod.splits)

lemma permit_decisions_kept: "permit_decisions clock db items = (db', Inr outs) \<Longrightarrow> capacity_kept db db'"
  by (auto simp: permit_decisions_def dest: mutations_kept split: if_splits prod.splits)

text \<open>
  The requests in the lane: permit decisions; operations that clear the permits of a session, whatever else they
  write; and operations that write neither the permits nor the limit.
\<close>

definition leaves_permits :: "api_db \<Rightarrow> api_db \<Rightarrow> bool" where
  "leaves_permits db db' \<longleftrightarrow> ad_permits db' = ad_permits db \<and> ad_limit db' = ad_limit db"

definition clears_session :: "api_db \<Rightarrow> api_db \<Rightarrow> bool" where
  "clears_session db db' \<longleftrightarrow> (\<exists>time session db1 n. clear_permits_for_session time session db = (db1, Inr n) \<and> leaves_permits db1 db')"

definition admission_request :: "(api_db, 'k, permit_mutation, bool) mutation_request \<Rightarrow> bool" where
  "admission_request r \<longleftrightarrow>
     (\<forall>f. mr_group_operation r = Some f \<longrightarrow> (\<exists>clock. f = permit_decisions clock) \<or> (\<forall>db items. leaves_permits db (fst (f db items)))) \<and>
     (\<forall>f. mr_operation r = Some f \<longrightarrow> (\<forall>db db' v. f db = (db', Inr v) \<longrightarrow> leaves_permits db db' \<or> clears_session db db'))"

lemma leaves_kept: "leaves_permits db db' \<Longrightarrow> capacity_kept db db'"
  by (simp add: leaves_permits_def capacity_kept_def permits_ok_def)

lemma clears_kept: "clears_session db db' \<Longrightarrow> capacity_kept db db'"
  unfolding clears_session_def using clear_kept leaves_kept capacity_kept_trans by blast

interpretation permit_lane: mutation_lane admission_request capacity_kept
proof
  show "capacity_kept db db" for db by (rule capacity_kept_refl)
  show "capacity_kept a c" if "capacity_kept a b" "capacity_kept b c" for a b c using that by (rule capacity_kept_trans)
  show "capacity_kept db db'" if adm: "admission_request r" and run: "run_single r db = (db', Inr v)"
    for db db' v and r :: "(api_db, 'k, permit_mutation, bool) mutation_request"
  proof -
    obtain f where "mr_operation r = Some f" "f db = (db', Inr v)" using run by (auto simp: run_single_def split: option.splits)
    then have "leaves_permits db db' \<or> clears_session db db'" using adm unfolding admission_request_def by blast
    then show ?thesis using leaves_kept clears_kept by blast
  qed
  show "capacity_kept db db'"
    if g: "\<And>r. r \<in> set g \<Longrightarrow> admission_request r" and r: "run_group g db = (db', Inr outs)"
    for db db' outs and g :: "(api_db, 'k, permit_mutation, bool) mutation_request list"
  proof -
    obtain r0 rs f where f: "g = r0 # rs" "mr_group_operation r0 = Some f" "f db (map mr_group_item g) = (db', Inr outs)"
      using r by (auto simp: run_group_def split: list.splits option.splits prod.splits sum.splits if_splits)
    have "admission_request r0" using g f(1) by simp
    then consider clock where "f = permit_decisions clock" | "\<forall>db items. leaves_permits db (fst (f db items))"
      using f(2) unfolding admission_request_def by blast
    then show ?thesis
    proof cases
      case 1
      then show ?thesis using f(3) permit_decisions_kept by simp
    next
      case 2
      then have "leaves_permits db (fst (f db (map mr_group_item g)))" by blast
      then show ?thesis using f(3) leaves_kept by simp
    qed
  qed
qed


section \<open>A demonstration\<close>

definition demo_execution :: "char \<Rightarrow> string" where
  "demo_execution c = replicate 32 c"

definition demo_identity :: "char \<Rightarrow> int \<Rightarrow> permit_identity" where
  "demo_identity c j = \<lparr>pi_session = ''s'', pi_node = ''node'', pi_job = j, pi_generation = 0, pi_execution = demo_execution c\<rparr>"

definition demo_owner :: "char \<Rightarrow> int \<Rightarrow> execution_owner" where
  "demo_owner c j = \<lparr>eo_identity = demo_identity c j, eo_component = [''node'']\<rparr>"

definition demo_api_db :: api_db where
  "demo_api_db = \<lparr>ad_permits = [], ad_limit = Some (PyInt 1),
     ad_owner = (\<lambda>e. Inr (if e = demo_execution CHR ''a'' then Some (demo_owner CHR ''a'' 1)
       else if e = demo_execution CHR ''b'' then Some (demo_owner CHR ''b'' 2) else None)),
     ad_observation = (\<lambda>n j. Inr (if j = 1 \<or> j = 2 then (let c = if j = 1 then CHR ''a'' else CHR ''b'' in
       Some \<lparr>oo_status = ''running'', oo_generation = 0, oo_active = Some (demo_execution c), oo_owner = Some (demo_owner c j),
         oo_session_status = Some ''running''\<rparr>) else None)),
     ad_scope = (\<lambda>session key. Some (Some ''s'', Some ''s''))\<rparr>"

definition demo_permit_args :: "char \<Rightarrow> int \<Rightarrow> (api_db, string \<times> int, permit_mutation, bool) request_args" where
  "demo_permit_args c j = permit_args (\<lambda>n. n) ''acquire'' (demo_identity c j)"

definition demo_permit_turn :: "((api_db, string \<times> int, permit_mutation, bool) mutation_writer \<times> api_db) res" where
  "demo_permit_turn = res_bind (new_writer 1024 0 (Some 200)) (\<lambda>w0. res_bind (submit (demo_permit_args CHR ''a'' 1) w0) (\<lambda>(_, w1).
     res_bind (submit (demo_permit_args CHR ''b'' 2) w1) (\<lambda>(_, w2). run_turn (\<lambda>n. (0, [])) 0 None (w2, demo_api_db))))"

lemma demo_permit_turn_shows: "case demo_permit_turn of Inl _ \<Rightarrow> False
   | Inr (w, db) \<Rightarrow> mw_futures w 1 = Resolved (True, PVal True) \<and> mw_futures w 2 = Resolved (True, PVal False) \<and>
       map pr_identity (ad_permits db) = [demo_identity CHR ''a'' 1]"
  by code_simp

lemma demo_permit_requests: "new_request (demo_permit_args c j) wr = Inr (r, wr') \<Longrightarrow> admission_request r"
  by (auto simp: new_request_def demo_permit_args_def permit_args_def admission_request_def Let_def split: if_splits)


text \<open>The permits of the demonstration, decided in one batch: granted, told to wait, released, granted, unknown.\<close>

definition demo_mutations :: "permit_mutation list" where
  "demo_mutations = [\<lparr>pm_action = ''acquire'', pm_identity = demo_identity CHR ''a'' 1\<rparr>, \<lparr>pm_action = ''acquire'', pm_identity = demo_identity CHR ''b'' 2\<rparr>,
     \<lparr>pm_action = ''release'', pm_identity = demo_identity CHR ''a'' 1\<rparr>, \<lparr>pm_action = ''release'', pm_identity = demo_identity CHR ''b'' 2\<rparr>,
     \<lparr>pm_action = ''acquire'', pm_identity = demo_identity CHR ''b'' 2\<rparr>]"

lemma demo_owners_coherent: "owners_coherent demo_api_db"
proof -
  have "demo_execution CHR ''a'' \<noteq> demo_execution CHR ''b''" by code_simp
  then show ?thesis by (auto simp: owners_coherent_def demo_api_db_def demo_owner_def demo_identity_def Let_def split: if_splits)
qed

theorem grouped_equals_sequential_witness:
  "case apply_individually apply_one (\<lambda>n. n) 0 demo_mutations demo_api_db of
     (db, outs) \<Rightarrow> map decision outs = [Some True, Some False, Some True, None, Some True] \<and>
       map pr_identity (ad_permits db) = [demo_identity CHR ''b'' 2]"
proof -
  have "case apply_mutations (\<lambda>n. n) 0 demo_mutations demo_api_db of
     (db, outs) \<Rightarrow> map decision outs = [Some True, Some False, Some True, None, Some True] \<and>
       map pr_identity (ad_permits db) = [demo_identity CHR ''b'' 2]" by code_simp
  moreover have "permits_ok demo_api_db" by (simp add: demo_api_db_def permits_ok_def)
  ultimately show ?thesis using grouped_equals_sequential [OF demo_owners_coherent, of "\<lambda>n. n" 0 demo_mutations]
    by (simp add: same_result_def case_prod_unfold)
qed

end
