(* ===== verification/Fibers.thy ===== *)
theory Fibers
  imports MWF_Prelude
begin

text \<open>
  The cooperative runner of API job controllers (\<open>fibers.py\<close>): fibers that suspend on a future or a sleep, the
  heaps of their deadlines, the queue of completed futures, the deque of ready fibers, cancellation polling, and
  the admission loop of \<open>run_source\<close>. One pump thread runs everything; what comes from outside it (the clock, the
  behaviour of the controllers, completions of futures, verdicts of cancellation checks, the source of items and
  the limit) is read from a \<open>world\<close>, an arbitrary function of a counter of the readings. A completion on another
  thread only puts the future into a queue, so it is observed where that queue is read.
\<close>

section \<open>Waiting\<close>

text \<open>\<open>_Resume\<close>: empty, with a value, or with an error to raise in the fiber.\<close>

datatype 'v resume = Wake | WakeValue 'v | WakeError exn

text \<open>What a switch into a fiber gives back; the flag says whether a cancellation check is installed.\<close>

datatype 'v yielded = Raised exn | Returned 'v | FutureWait nat "rat option" bool | SleepWait rat bool | Unsupported

record 'i fiber_state =
  fs_item :: 'i
  fs_done :: bool
  fs_wait_token :: nat
  fs_pending :: "nat option"

record future_waiter =
  wt_state :: nat
  wt_wait_token :: nat
  wt_deadline :: "rat option"
  wt_check :: bool
  wt_active :: bool

text \<open>A call that waits either answers at once or switches to the runtime with a request.\<close>

datatype 'v wait_call = Immediate "'v res" | Suspend "'v yielded"

definition await_future :: "bool \<Rightarrow> (rat option \<Rightarrow> 'v res) \<Rightarrow> nat \<Rightarrow> bool \<Rightarrow> rat option \<Rightarrow> rat \<Rightarrow> bool \<Rightarrow> 'v wait_call" where
  "await_future in_runtime original future fut_done timeout now check =
     (if \<not> in_runtime then Immediate (original timeout)
      else if fut_done then Immediate (original (Some 0))
      else case timeout of
        None \<Rightarrow> Suspend (FutureWait future None check)
      | Some t \<Rightarrow> if t < 0 then Immediate (Inl (ValueError ''timeout must be non-negative''))
          else Suspend (FutureWait future (Some (now + t)) check))"

text \<open>\<open>cooperative_sleep\<close>; \<open>verdict\<close> is what the cancellation check raises, if one is installed and raises.\<close>

definition cooperative_sleep :: "bool \<Rightarrow> rat \<Rightarrow> rat \<Rightarrow> bool \<Rightarrow> exn option \<Rightarrow> bool wait_call" where
  "cooperative_sleep in_runtime secs now check verdict =
     (if \<not> in_runtime then Immediate (Inr False)
      else if secs < 0 then Immediate (Inl (ValueError ''seconds must be >= 0''))
      else if secs = 0 then (case (if check then verdict else None) of None \<Rightarrow> Immediate (Inr True) | Some e \<Rightarrow> Immediate (Inl e))
      else Suspend (SleepWait (now + secs) check))"

section \<open>The runtime\<close>

text \<open>The source of items: one with \<open>pull\<close>, or an iterator with what is left of it and its exhausted flag.\<close>

datatype 'i item_source = Refreshable | PlainItems "'i list" bool

text \<open>
  \<open>fr_states\<close> is the table of states, which \<open>run_source\<close> numbers consecutively; \<open>fr_waiters\<close> is the store of
  waiter objects, which the lists of \<open>fr_future_waiters\<close> and the heap of deadlines share by address. The heaps are
  kept sorted. \<open>fu_result\<close> and \<open>fu_callbacks\<close> are the futures: their outcome and their done callbacks not yet called.
\<close>

record ('i, 'v) fiber_runtime =
  fr_poll_interval :: rat
  fr_max_admission_burst :: int
  fr_service_interval :: int
  fr_burst :: int
  fr_source :: "'i item_source"
  fr_states :: "'i fiber_state list"
  fr_waiters :: "future_waiter list"
  fr_future_waiters :: "(nat \<times> nat list) list"
  fr_future_deadlines :: "(rat \<times> int \<times> nat \<times> nat) list"
  fr_sleepers :: "(rat \<times> int \<times> nat \<times> nat \<times> bool) list"
  fr_serial :: int
  fr_ready :: "(nat \<times> 'v resume) list"
  fr_completed :: "nat list"
  fr_active_count :: int
  fr_results :: "(nat \<times> 'v) list"
  fr_first_error :: "exn option"
  fr_next_poll :: rat
  fr_abandoned :: "'i list"
  fu_result :: "nat \<Rightarrow> 'v res option"
  fu_callbacks :: "nat \<Rightarrow> nat"
  fr_tick :: nat

record ('i, 'v) world =
  wd_clock :: "nat \<Rightarrow> rat"
  wd_yield :: "nat \<Rightarrow> nat \<Rightarrow> 'v resume \<Rightarrow> 'v yielded"
  wd_check :: "nat \<Rightarrow> nat \<Rightarrow> exn option"
  wd_arrivals :: "nat \<Rightarrow> (nat \<times> 'v res) list"
  wd_pull :: "nat \<Rightarrow> int \<Rightarrow> 'i list res"
  wd_limit :: "nat \<Rightarrow> pynum res"
  wd_wait_for_change :: "nat \<Rightarrow> bool option"

definition int_arg :: "pynum \<Rightarrow> string \<Rightarrow> int res" where
  "int_arg x message = (case x of PyInt n \<Rightarrow> if n < 1 then Inl (ValueError message) else Inr n | _ \<Rightarrow> Inl (ValueError message))"

text \<open>The constructor, with the reading of the clock; the two settings of the state writer only delay the pump.\<close>

definition new_runtime :: "rat \<Rightarrow> pynum \<Rightarrow> pynum \<Rightarrow> pynum \<Rightarrow> pynum \<Rightarrow> rat \<Rightarrow> rat \<Rightarrow> 'i item_source \<Rightarrow> ('i, 'v) fiber_runtime res" where
  "new_runtime poll_interval start_burst max_burst service_interval writer_interval pressure_wait now source =
     res_bind (raise_if (poll_interval \<le> 0) (ValueError ''poll_interval must be positive'')) (\<lambda>_.
     res_bind (int_arg start_burst ''start_burst must be an integer >= 1'') (\<lambda>start.
     res_bind (int_arg max_burst ''max_admission_burst must be an integer >= 1'') (\<lambda>most.
     res_bind (int_arg service_interval ''service_interval must be an integer >= 1'') (\<lambda>interval.
     res_bind (int_arg writer_interval ''state_writer_service_interval must be an integer >= 1'') (\<lambda>_.
     res_bind (raise_if (pressure_wait < 0) (ValueError ''admission_pressure_wait must be >= 0'')) (\<lambda>_.
       Inr \<lparr>fr_poll_interval = poll_interval, fr_max_admission_burst = most, fr_service_interval = interval,
         fr_burst = min start most, fr_source = source, fr_states = [], fr_waiters = [], fr_future_waiters = [],
         fr_future_deadlines = [], fr_sleepers = [], fr_serial = 0, fr_ready = [], fr_completed = [], fr_active_count = 0,
         fr_results = [], fr_first_error = None, fr_next_poll = now + poll_interval, fr_abandoned = [],
         fu_result = (\<lambda>_. None), fu_callbacks = (\<lambda>_. 0), fr_tick = 0\<rparr>))))))"

abbreviation fiber :: "('i, 'v) fiber_runtime \<Rightarrow> nat \<Rightarrow> 'i fiber_state" where
  "fiber rt i \<equiv> fr_states rt ! i"

abbreviation waiter :: "('i, 'v) fiber_runtime \<Rightarrow> nat \<Rightarrow> future_waiter" where
  "waiter rt a \<equiv> fr_waiters rt ! a"

text \<open>The heaps order their entries by deadline and then by serial number.\<close>

definition heap_key :: "rat \<times> int \<times> 'a \<Rightarrow> rat \<times> int" where
  "heap_key e = (fst e, fst (snd e))"

definition tick :: "('i, 'v) fiber_runtime \<Rightarrow> ('i, 'v) fiber_runtime" where
  "tick rt = rt\<lparr>fr_tick := Suc (fr_tick rt)\<rparr>"

definition upd_fiber :: "nat \<Rightarrow> ('i fiber_state \<Rightarrow> 'i fiber_state) \<Rightarrow> ('i, 'v) fiber_runtime \<Rightarrow> ('i, 'v) fiber_runtime" where
  "upd_fiber i f rt = rt\<lparr>fr_states := (fr_states rt)[i := f (fiber rt i)]\<rparr>"

definition deactivate :: "nat \<Rightarrow> ('i, 'v) fiber_runtime \<Rightarrow> ('i, 'v) fiber_runtime" where
  "deactivate a rt = rt\<lparr>fr_waiters := (fr_waiters rt)[a := (waiter rt a)\<lparr>wt_active := False\<rparr>]\<rparr>"

definition push_ready :: "nat \<Rightarrow> 'v resume \<Rightarrow> ('i, 'v) fiber_runtime \<Rightarrow> ('i, 'v) fiber_runtime" where
  "push_ready i r rt = rt\<lparr>fr_ready := fr_ready rt @ [(i, r)]\<rparr>"

section \<open>Switching into a fiber\<close>

text \<open>A fiber that has exited; \<open>failure\<close> is the error it exits with.\<close>

definition exit_fiber :: "nat \<Rightarrow> exn option \<Rightarrow> ('i, 'v) fiber_runtime \<Rightarrow> ('i, 'v) fiber_runtime" where
  "exit_fiber i failure rt = (upd_fiber i (\<lambda>s. s\<lparr>fs_done := True\<rparr>) rt)
     \<lparr>fr_active_count := fr_active_count rt - 1,
      fr_first_error := (case fr_first_error rt of Some e \<Rightarrow> Some e | None \<Rightarrow> failure)\<rparr>"

text \<open>\<open>add_done_callback\<close> calls the callback at once when the future is already done.\<close>

definition add_done_callback :: "nat \<Rightarrow> ('i, 'v) fiber_runtime \<Rightarrow> ('i, 'v) fiber_runtime" where
  "add_done_callback f rt = (case fu_result rt f of
     Some _ \<Rightarrow> rt\<lparr>fr_completed := fr_completed rt @ [f]\<rparr>
   | None \<Rightarrow> rt\<lparr>fu_callbacks := (fu_callbacks rt)(f := Suc (fu_callbacks rt f))\<rparr>)"

definition register_wait :: "nat \<Rightarrow> nat \<Rightarrow> rat option \<Rightarrow> bool \<Rightarrow> ('i, 'v) fiber_runtime \<Rightarrow> ('i, 'v) fiber_runtime" where
  "register_wait i f deadline check rt =
     (let rt1 = upd_fiber i (\<lambda>s. s\<lparr>fs_pending := Some f\<rparr>) rt;
          rt2 = (case dict_get (fr_future_waiters rt1) f of
                   Some _ \<Rightarrow> rt1
                 | None \<Rightarrow> add_done_callback f (rt1\<lparr>fr_future_waiters := dict_set (fr_future_waiters rt1) f []\<rparr>));
          a = length (fr_waiters rt2);
          w = \<lparr>wt_state = i, wt_wait_token = fs_wait_token (fiber rt2 i), wt_deadline = deadline, wt_check = check, wt_active = True\<rparr>;
          ws = (case dict_get (fr_future_waiters rt2) f of None \<Rightarrow> [] | Some ws \<Rightarrow> ws);
          rt3 = rt2\<lparr>fr_waiters := fr_waiters rt2 @ [w], fr_future_waiters := dict_set (fr_future_waiters rt2) f (ws @ [a])\<rparr> in
      case deadline of
        None \<Rightarrow> rt3
      | Some d \<Rightarrow> rt3\<lparr>fr_serial := fr_serial rt3 + 1,
          fr_future_deadlines := insort_key heap_key (d, fr_serial rt3 + 1, f, a) (fr_future_deadlines rt3)\<rparr>)"

definition register_sleep :: "nat \<Rightarrow> rat \<Rightarrow> bool \<Rightarrow> ('i, 'v) fiber_runtime \<Rightarrow> ('i, 'v) fiber_runtime" where
  "register_sleep i d check rt = rt\<lparr>fr_serial := fr_serial rt + 1,
     fr_sleepers := insort_key heap_key (d, fr_serial rt + 1, i, fs_wait_token (fiber rt i), check) (fr_sleepers rt)\<rparr>"

definition resume_state :: "('i, 'v) world \<Rightarrow> nat \<Rightarrow> 'v resume \<Rightarrow> ('i, 'v) fiber_runtime \<Rightarrow> ('i, 'v) fiber_runtime" where
  "resume_state w i r rt =
     (if fs_done (fiber rt i) then rt
      else let rt1 = tick rt; rt2 = upd_fiber i (\<lambda>s. s\<lparr>fs_wait_token := Suc (fs_wait_token s)\<rparr>) rt1 in
        case wd_yield w (fr_tick rt) i r of
          Raised e \<Rightarrow> exit_fiber i (Some e) rt1
        | Returned v \<Rightarrow> (exit_fiber i None rt1)\<lparr>fr_results := dict_set (fr_results rt1) i v\<rparr>
        | FutureWait f deadline check \<Rightarrow> register_wait i f deadline check rt2
        | SleepWait d check \<Rightarrow> register_sleep i d check rt2
        | Unsupported \<Rightarrow> exit_fiber i (Some (RuntimeError ''API fiber yielded unsupported value'')) rt2)"

definition new_state :: "'i \<Rightarrow> ('i, 'v) fiber_runtime \<Rightarrow> ('i, 'v) fiber_runtime" where
  "new_state x rt = rt\<lparr>fr_states := fr_states rt @ [\<lparr>fs_item = x, fs_done = False, fs_wait_token = 0, fs_pending = None\<rparr>],
     fr_active_count := fr_active_count rt + 1\<rparr>"

definition start_fiber :: "('i, 'v) world \<Rightarrow> 'i \<Rightarrow> ('i, 'v) fiber_runtime \<Rightarrow> ('i, 'v) fiber_runtime" where
  "start_fiber w x rt = resume_state w (length (fr_states rt)) Wake (new_state x rt)"

section \<open>Completions, deadlines and cancellation\<close>

text \<open>The futures that completed since the queue was last read: each calls its callbacks, which queue it.\<close>

definition complete :: "nat \<times> 'v res \<Rightarrow> ('i, 'v) fiber_runtime \<Rightarrow> ('i, 'v) fiber_runtime" where
  "complete = (\<lambda>(f, r) rt. if fu_result rt f \<noteq> None then rt
     else rt\<lparr>fu_result := (fu_result rt)(f \<mapsto> r), fr_completed := fr_completed rt @ replicate (fu_callbacks rt f) f,
        fu_callbacks := (fu_callbacks rt)(f := 0)\<rparr>)"

text \<open>The test, repeated in the code, that a waiter no longer stands for what its fiber waits for.\<close>

definition stale_waiter :: "('i, 'v) fiber_runtime \<Rightarrow> nat \<Rightarrow> nat \<Rightarrow> bool" where
  "stale_waiter rt f a = (let w = waiter rt a; s = fiber rt (wt_state w) in
     fs_done s \<or> fs_wait_token s \<noteq> wt_wait_token w \<or> fs_pending s \<noteq> Some f)"

definition wake_waiter :: "nat \<Rightarrow> 'v resume \<Rightarrow> nat \<Rightarrow> ('i, 'v) fiber_runtime \<Rightarrow> ('i, 'v) fiber_runtime" where
  "wake_waiter f r a rt = (let i = wt_state (waiter rt a); rt1 = deactivate a rt in
     if stale_waiter rt f a then rt1
     else push_ready i r (upd_fiber i (\<lambda>s. s\<lparr>fs_pending := None\<rparr>) rt1))"

definition wake_future :: "nat \<Rightarrow> ('i, 'v) fiber_runtime \<Rightarrow> ('i, 'v) fiber_runtime" where
  "wake_future f rt = (let waiters = dict_get (fr_future_waiters rt) f;
       rt1 = rt\<lparr>fr_future_waiters := dict_pop (fr_future_waiters rt) f\<rparr>;
       r = (case fu_result rt f of None \<Rightarrow> WakeError FutureTimeoutError | Some (Inl e) \<Rightarrow> WakeError e | Some (Inr v) \<Rightarrow> WakeValue v) in
     case waiters of None \<Rightarrow> rt1 | Some ws \<Rightarrow> fold (wake_waiter f r) ws rt1)"

fun drain_completed :: "nat list \<Rightarrow> ('i, 'v) fiber_runtime \<Rightarrow> ('i, 'v) fiber_runtime" where
  "drain_completed [] rt = rt\<lparr>fr_completed := []\<rparr>"
| "drain_completed (f # fs) rt = drain_completed fs (wake_future f (rt\<lparr>fr_completed := fs\<rparr>))"

definition process_futures :: "('i, 'v) world \<Rightarrow> ('i, 'v) fiber_runtime \<Rightarrow> ('i, 'v) fiber_runtime" where
  "process_futures w rt = (let rt1 = fold complete (wd_arrivals w (fr_tick rt)) (tick rt) in drain_completed (fr_completed rt1) rt1)"

definition dead_sleeper :: "('i, 'v) fiber_runtime \<Rightarrow> nat \<Rightarrow> nat \<Rightarrow> bool" where
  "dead_sleeper rt i t \<longleftrightarrow> fs_done (fiber rt i) \<or> fs_wait_token (fiber rt i) \<noteq> t"

definition sleeper_resume :: "(nat \<Rightarrow> exn option) \<Rightarrow> nat \<Rightarrow> bool \<Rightarrow> 'v resume" where
  "sleeper_resume verdict i check = (if check then (case verdict i of None \<Rightarrow> Wake | Some e \<Rightarrow> WakeError e) else Wake)"

fun wake_sleepers :: "(nat \<Rightarrow> exn option) \<Rightarrow> rat \<Rightarrow> (rat \<times> int \<times> nat \<times> nat \<times> bool) list \<Rightarrow> ('i, 'v) fiber_runtime \<Rightarrow> ('i, 'v) fiber_runtime" where
  "wake_sleepers verdict now [] rt = rt\<lparr>fr_sleepers := []\<rparr>"
| "wake_sleepers verdict now ((d, n, i, t, check) # es) rt =
     (if now < d then rt\<lparr>fr_sleepers := (d, n, i, t, check) # es\<rparr>
      else let rt1 = rt\<lparr>fr_sleepers := es\<rparr> in
        wake_sleepers verdict now es (if dead_sleeper rt i t then rt1 else push_ready i (sleeper_resume verdict i check) rt1))"

fun expire_futures :: "rat \<Rightarrow> (rat \<times> int \<times> nat \<times> nat) list \<Rightarrow> ('i, 'v) fiber_runtime \<Rightarrow> ('i, 'v) fiber_runtime" where
  "expire_futures now [] rt = rt\<lparr>fr_future_deadlines := []\<rparr>"
| "expire_futures now ((d, n, f, a) # es) rt =
     (if now < d then rt\<lparr>fr_future_deadlines := (d, n, f, a) # es\<rparr>
      else let rt1 = rt\<lparr>fr_future_deadlines := es\<rparr> in
        expire_futures now es (if \<not> wt_active (waiter rt a) then rt1 else wake_waiter f (WakeError FutureTimeoutError) a rt1))"

definition process_deadlines :: "(nat \<Rightarrow> exn option) \<Rightarrow> rat \<Rightarrow> ('i, 'v) fiber_runtime \<Rightarrow> ('i, 'v) fiber_runtime" where
  "process_deadlines verdict now rt =
     (let rt1 = wake_sleepers verdict now (fr_sleepers rt) rt in expire_futures now (fr_future_deadlines rt1) rt1)"

text \<open>One future of \<open>_poll_cancellation\<close>: the waiters to keep, and the runtime after the checks.\<close>

fun poll_waiters :: "(nat \<Rightarrow> exn option) \<Rightarrow> nat \<Rightarrow> nat list \<Rightarrow> ('i, 'v) fiber_runtime \<Rightarrow> nat list \<times> ('i, 'v) fiber_runtime" where
  "poll_waiters verdict f [] rt = ([], rt)"
| "poll_waiters verdict f (a # as) rt =
     (let i = wt_state (waiter rt a) in
      if \<not> wt_active (waiter rt a) then poll_waiters verdict f as rt
      else if stale_waiter rt f a then poll_waiters verdict f as (deactivate a rt)
      else case (if wt_check (waiter rt a) then verdict i else None) of
        Some e \<Rightarrow> poll_waiters verdict f as (push_ready i (WakeError e) (upd_fiber i (\<lambda>s. s\<lparr>fs_pending := None\<rparr>) (deactivate a rt)))
      | None \<Rightarrow> (case poll_waiters verdict f as rt of (keep, rt') \<Rightarrow> (a # keep, rt')))"

fun poll_futures :: "(nat \<Rightarrow> exn option) \<Rightarrow> (nat \<times> nat list) list \<Rightarrow> ('i, 'v) fiber_runtime \<Rightarrow> ('i, 'v) fiber_runtime" where
  "poll_futures verdict [] rt = rt"
| "poll_futures verdict ((f, ws) # items) rt = (case poll_waiters verdict f ws rt of
     (keep, rt1) \<Rightarrow> poll_futures verdict items (rt1\<lparr>fr_future_waiters :=
       (if keep \<noteq> [] then dict_set (fr_future_waiters rt1) f keep else dict_pop (fr_future_waiters rt1) f)\<rparr>))"

text \<open>The sleepers are popped in the order of the heap, and those that stay are pushed back.\<close>

fun poll_sleepers :: "(nat \<Rightarrow> exn option) \<Rightarrow> (rat \<times> int \<times> nat \<times> nat \<times> bool) list \<Rightarrow> ('i, 'v) fiber_runtime \<Rightarrow> ('i, 'v) fiber_runtime" where
  "poll_sleepers verdict [] rt = rt\<lparr>fr_sleepers := []\<rparr>"
| "poll_sleepers verdict ((d, n, i, t, check) # es) rt =
     (if dead_sleeper rt i t then poll_sleepers verdict es rt
      else case (if check then verdict i else None) of
        Some e \<Rightarrow> poll_sleepers verdict es (push_ready i (WakeError e) rt)
      | None \<Rightarrow> (let rt1 = poll_sleepers verdict es rt in
          rt1\<lparr>fr_sleepers := insort_key heap_key (d, n, i, t, check) (fr_sleepers rt1)\<rparr>))"

definition poll_cancellation :: "(nat \<Rightarrow> exn option) \<Rightarrow> ('i, 'v) fiber_runtime \<Rightarrow> ('i, 'v) fiber_runtime" where
  "poll_cancellation verdict rt =
     (let rt1 = poll_futures verdict (fr_future_waiters rt) rt in poll_sleepers verdict (fr_sleepers rt1) rt1)"

text \<open>\<open>_next_wait_timeout\<close> at the time \<open>now\<close>; it drops the deadlines at the top of the heap that no longer count.\<close>

definition dead_deadline :: "('i, 'v) fiber_runtime \<Rightarrow> rat \<times> int \<times> nat \<times> nat \<Rightarrow> bool" where
  "dead_deadline rt = (\<lambda>(d, n, f, a). \<not> wt_active (waiter rt a) \<or> stale_waiter rt f a)"

definition next_wait_timeout :: "rat \<Rightarrow> ('i, 'v) fiber_runtime \<Rightarrow> rat \<times> ('i, 'v) fiber_runtime" where
  "next_wait_timeout now rt =
     (let t0 = max 0 (fr_next_poll rt - now);
          t1 = (case fr_sleepers rt of [] \<Rightarrow> t0 | e # _ \<Rightarrow> min t0 (max 0 (fst e - now)));
          es = dropWhile (dead_deadline rt) (fr_future_deadlines rt) in
      (case es of [] \<Rightarrow> t1 | e # _ \<Rightarrow> min t1 (max 0 (fst e - now)), rt\<lparr>fr_future_deadlines := es\<rparr>))"

section \<open>The pump\<close>

text \<open>What the loop does between its admission slices: completions, deadlines, and the poll when it is due.\<close>

definition service :: "('i, 'v) world \<Rightarrow> ('i, 'v) fiber_runtime \<Rightarrow> ('i, 'v) fiber_runtime" where
  "service w rt =
     (let rt1 = process_futures w rt; now = wd_clock w (fr_tick rt1);
          rt2 = process_deadlines (wd_check w (fr_tick rt1)) now (tick rt1) in
      if fr_next_poll rt2 \<le> now
      then (poll_cancellation (wd_check w (fr_tick rt2)) (tick rt2))\<lparr>fr_next_poll := now + fr_poll_interval rt2\<rparr>
      else rt2)"

fun resume_some :: "('i, 'v) world \<Rightarrow> nat \<Rightarrow> ('i, 'v) fiber_runtime \<Rightarrow> ('i, 'v) fiber_runtime" where
  "resume_some w 0 rt = rt"
| "resume_some w (Suc n) rt = (case fr_ready rt of
     [] \<Rightarrow> rt
   | (i, r) # rest \<Rightarrow> resume_some w n (resume_state w i r (rt\<lparr>fr_ready := rest\<rparr>)))"

definition resume_ready :: "('i, 'v) world \<Rightarrow> ('i, 'v) fiber_runtime \<Rightarrow> ('i, 'v) fiber_runtime" where
  "resume_ready w rt = resume_some w (nat (fr_service_interval rt)) rt"

definition pull_items :: "('i, 'v) world \<Rightarrow> int \<Rightarrow> ('i, 'v) fiber_runtime \<Rightarrow> ('i list \<times> ('i, 'v) fiber_runtime) res" where
  "pull_items w capacity rt =
     (if capacity \<le> 0 then Inr ([], rt)
      else case fr_source rt of
        Refreshable \<Rightarrow> res_bind (wd_pull w (fr_tick rt) capacity) (\<lambda>items. Inr (items, tick rt))
      | PlainItems rest exhausted \<Rightarrow>
          if exhausted then Inr ([], rt)
          else Inr (take (nat capacity) rest, rt\<lparr>fr_source := PlainItems (drop (nat capacity) rest) (int (length rest) < capacity)\<rparr>))"

definition abandon :: "'i list \<Rightarrow> ('i, 'v) fiber_runtime \<Rightarrow> ('i, 'v) fiber_runtime" where
  "abandon xs rt = rt\<lparr>fr_abandoned := fr_abandoned rt @ xs\<rparr>"

text \<open>The admission slice: start each item, and service the rest after every \<open>service_interval\<close> starts.\<close>

fun admit :: "('i, 'v) world \<Rightarrow> int \<Rightarrow> 'i list \<Rightarrow> ('i, 'v) fiber_runtime \<Rightarrow> ('i, 'v) fiber_runtime" where
  "admit w position [] rt = rt"
| "admit w position (x # xs) rt =
     (let rt1 = start_fiber w x rt in
      if fr_first_error rt1 \<noteq> None then abandon xs rt1
      else if (position + 1) mod fr_service_interval rt1 = 0 then
        (let rt2 = resume_ready w (service w rt1) in
         if fr_first_error rt2 \<noteq> None then abandon xs rt2 else admit w (position + 1) xs rt2)
      else admit w (position + 1) xs rt1)"

fun start_all :: "('i, 'v) world \<Rightarrow> 'i list \<Rightarrow> ('i, 'v) fiber_runtime \<Rightarrow> ('i, 'v) fiber_runtime" where
  "start_all w [] rt = rt"
| "start_all w (x # xs) rt = (let rt1 = start_fiber w x rt in
     if fr_first_error rt1 \<noteq> None then abandon xs rt1 else start_all w xs rt1)"

definition refreshable :: "('i, 'v) fiber_runtime \<Rightarrow> bool" where
  "refreshable rt \<longleftrightarrow> fr_source rt = Refreshable"

definition requested_items :: "int \<Rightarrow> ('i, 'v) fiber_runtime \<Rightarrow> int" where
  "requested_items limit rt =
     (let active = fr_active_count rt; capacity = max 0 (limit - active);
          refill_floor = (if refreshable rt \<and> limit \<ge> 64 then min 32 (max 1 (limit div 8)) else 1) in
      if active > 0 \<and> 0 < capacity \<and> capacity < refill_floor then 0 else min capacity (fr_burst rt))"

definition small_burst :: "('i, 'v) fiber_runtime \<Rightarrow> int" where
  "small_burst rt = min 16 (fr_max_admission_burst rt)"

definition next_burst :: "int \<Rightarrow> int \<Rightarrow> int \<Rightarrow> ('i, 'v) fiber_runtime \<Rightarrow> int" where
  "next_burst limit requested added rt =
     (if requested > 0 \<and> added = requested \<and> fr_active_count rt + added < limit
      then min (fr_max_admission_burst rt) (max (small_burst rt) (requested * 2))
      else if added < requested then small_burst rt else fr_burst rt)"

text \<open>The admission phase of one turn, with the limit it read: the number of items it pulled.\<close>

definition admission :: "('i, 'v) world \<Rightarrow> int \<Rightarrow> ('i, 'v) fiber_runtime \<Rightarrow> (int \<times> ('i, 'v) fiber_runtime) res" where
  "admission w limit rt =
     (let requested = requested_items limit rt in
      res_bind (pull_items w requested rt) (\<lambda>(pulled, rt1).
        let added = int (length pulled) in
        Inr (added, admit w 0 pulled (rt1\<lparr>fr_burst := next_burst limit requested added rt1\<rparr>))))"

definition read_limit_fiber :: "('i, 'v) world \<Rightarrow> ('i, 'v) fiber_runtime \<Rightarrow> (int \<times> ('i, 'v) fiber_runtime) res" where
  "read_limit_fiber w rt = res_bind (wd_limit w (fr_tick rt)) (\<lambda>x. case x of
     PyInt limit \<Rightarrow> if limit < 0 then Inl (ValueError ''runtime API lane concurrency must be an integer >= 0'') else Inr (limit, tick rt)
   | _ \<Rightarrow> Inl (ValueError ''runtime API lane concurrency must be an integer >= 0''))"

text \<open>How a turn ends: go on at once, wait for an event, return the results, or raise.\<close>

datatype 'v turn_end = Again | Waits rat | Finishes "'v list" | Fails exn

definition collect_results :: "('i, 'v) fiber_runtime \<Rightarrow> 'v list" where
  "collect_results rt = map (\<lambda>i. the (dict_get (fr_results rt) i)) (sort (dict_keys (fr_results rt)))"

definition wait_event :: "('i, 'v) world \<Rightarrow> ('i, 'v) fiber_runtime \<Rightarrow> ('i, 'v) fiber_runtime \<times> 'v turn_end" where
  "wait_event w rt = (case next_wait_timeout (wd_clock w (fr_tick rt)) (tick rt) of (t, rt1) \<Rightarrow> (rt1, Waits t))"

text \<open>The end of a turn that reached its admission phase without an error.\<close>

definition settle :: "('i, 'v) world \<Rightarrow> int \<Rightarrow> int \<Rightarrow> ('i, 'v) fiber_runtime \<Rightarrow> ('i, 'v) fiber_runtime \<times> 'v turn_end" where
  "settle w limit added rt =
     (if fr_active_count rt = 0 \<and> limit = 0 then (rt, Finishes (collect_results rt))
      else if fr_active_count rt = 0 \<and> refreshable rt \<and> added = 0 then
        (case pull_items w (min (min limit 16) (fr_max_admission_burst rt)) rt of
           Inl e \<Rightarrow> (rt, Fails e)
         | Inr ([], rt1) \<Rightarrow> (case wd_wait_for_change w (fr_tick rt1) of
             None \<Rightarrow> (rt1, Finishes (collect_results rt1))
           | Some changed \<Rightarrow>
               (let rt2 = snd (next_wait_timeout (wd_clock w (fr_tick rt1)) (tick rt1)) in
                (rt2, if changed then Again else Finishes (collect_results rt2))))
         | Inr (refill, rt1) \<Rightarrow> (start_all w refill (rt1\<lparr>fr_burst := small_burst rt1\<rparr>), Again))
      else if fr_active_count rt = 0 \<and> (case fr_source rt of PlainItems _ exhausted \<Rightarrow> exhausted | Refreshable \<Rightarrow> False)
      then (rt, Finishes (collect_results rt))
      else if fr_ready rt \<noteq> [] then (rt, Again)
      else if added > 0 \<and> fr_active_count rt < limit then (rt, Again)
      else wait_event w rt)"

definition after_admission :: "('i, 'v) world \<Rightarrow> ('i, 'v) fiber_runtime \<Rightarrow> ('i, 'v) fiber_runtime" where
  "after_admission w rt = resume_ready w (service w (resume_ready w rt))"

definition drain_failure :: "('i, 'v) world \<Rightarrow> exn \<Rightarrow> ('i, 'v) fiber_runtime \<Rightarrow> ('i, 'v) fiber_runtime \<times> 'v turn_end" where
  "drain_failure w e rt = (if fr_active_count rt = 0 then (rt, Fails e) else wait_event w rt)"

definition pump_turn :: "('i, 'v) world \<Rightarrow> ('i, 'v) fiber_runtime \<Rightarrow> ('i, 'v) fiber_runtime \<times> 'v turn_end" where
  "pump_turn w rt =
     (let rt1 = resume_ready w (service w rt) in
      case fr_first_error rt1 of
        Some _ \<Rightarrow> (let rt2 = after_admission w rt1 in drain_failure w (the (fr_first_error rt2)) rt2)
      | None \<Rightarrow> (case res_bind (read_limit_fiber w rt1) (\<lambda>(limit, rt2). res_bind (admission w limit rt2) (\<lambda>(added, rt3). Inr (limit, added, rt3))) of
          Inl e \<Rightarrow> (rt1, Fails e)
        | Inr (limit, added, rt3) \<Rightarrow>
            (let rt4 = after_admission w rt3 in
             case fr_first_error rt4 of Some e \<Rightarrow> drain_failure w e rt4 | None \<Rightarrow> settle w limit added rt4)))"

text \<open>\<open>run_source\<close>, with fuel for the number of turns; \<open>None\<close> is a pump that is still running.\<close>

fun run_source :: "('i, 'v) world \<Rightarrow> nat \<Rightarrow> ('i, 'v) fiber_runtime \<Rightarrow> (('i, 'v) fiber_runtime \<times> 'v list res) option" where
  "run_source w 0 rt = None"
| "run_source w (Suc fuel) rt = (case pump_turn w rt of
     (rt', Again) \<Rightarrow> run_source w fuel rt'
   | (rt', Waits t) \<Rightarrow> run_source w fuel rt'
   | (rt', Finishes vs) \<Rightarrow> Some (rt', Inr vs)
   | (rt', Fails e) \<Rightarrow> Some (rt', Inl e))"

end
