(* ===== verification/Fiber_Wakes.thy ===== *)
theory Fiber_Wakes
  imports Fibers
begin

text \<open>
  What will resume a fiber (\<open>fibers.py\<close>): the invariant that every fiber that has not exited has exactly one wake
  source, kept by every operation of the runtime.
\<close>

section \<open>Wake sources\<close>

text \<open>
  What will resume a fiber: an entry in the ready deque, a sleeper with its current token, or a waiter listed for the
  future it waits for. \<open>xs\<close> are further lists of waiters, those a loop has taken from the table and not yet visited.
\<close>

definition sleeper_of :: "('i, 'v) fiber_runtime \<Rightarrow> nat \<Rightarrow> rat \<times> int \<times> nat \<times> nat \<times> bool \<Rightarrow> bool" where
  "sleeper_of rt i = (\<lambda>(d, n, j, t, c). j = i \<and> t = fs_wait_token (fiber rt i))"

definition ready_of :: "nat \<Rightarrow> nat \<times> 'v resume \<Rightarrow> bool" where
  "ready_of i x \<longleftrightarrow> fst x = i"

definition pending_wakes :: "('i, 'v) fiber_runtime \<Rightarrow> nat \<Rightarrow> nat" where
  "pending_wakes rt i = length (filter (ready_of i) (fr_ready rt)) + length (filter (sleeper_of rt i) (fr_sleepers rt))"

definition listed :: "('i, 'v) fiber_runtime \<Rightarrow> (nat \<times> nat list) list \<Rightarrow> nat \<Rightarrow> nat \<Rightarrow> bool" where
  "listed rt xs f a \<longleftrightarrow> (\<exists>ws. (dict_get (fr_future_waiters rt) f = Some ws \<or> (f, ws) \<in> set xs) \<and> a \<in> set ws)"

definition waits_on :: "('i, 'v) fiber_runtime \<Rightarrow> (nat \<times> nat list) list \<Rightarrow> nat \<Rightarrow> nat \<Rightarrow> nat \<Rightarrow> bool" where
  "waits_on rt xs i f a \<longleftrightarrow> listed rt xs f a \<and> wt_active (waiter rt a) \<and> wt_state (waiter rt a) = i \<and>
     wt_wait_token (waiter rt a) = fs_wait_token (fiber rt i) \<and>
     (\<forall>d. wt_deadline (waiter rt a) = Some d \<longrightarrow> (\<exists>n. (d, n, f, a) \<in> set (fr_future_deadlines rt)))"

definition wake_ok :: "('i, 'v) fiber_runtime \<Rightarrow> (nat \<times> nat list) list \<Rightarrow> nat \<Rightarrow> bool" where
  "wake_ok rt xs i \<longleftrightarrow> (case fs_pending (fiber rt i) of
     None \<Rightarrow> pending_wakes rt i = 1
   | Some f \<Rightarrow> pending_wakes rt i = 0 \<and> (\<exists>a. waits_on rt xs i f a))"

definition idle :: "('i, 'v) fiber_runtime \<Rightarrow> nat \<Rightarrow> bool" where
  "idle rt i \<longleftrightarrow> pending_wakes rt i = 0 \<and> fs_pending (fiber rt i) = None"

definition live :: "('i, 'v) fiber_runtime \<Rightarrow> nat \<Rightarrow> bool" where
  "live rt i \<longleftrightarrow> i < length (fr_states rt) \<and> \<not> fs_done (fiber rt i)"

definition entries_ok :: "('i, 'v) fiber_runtime \<Rightarrow> bool" where
  "entries_ok rt \<longleftrightarrow> (\<forall>(j, r)\<in>set (fr_ready rt). live rt j) \<and>
     (\<forall>(d, n, j, t, c)\<in>set (fr_sleepers rt). j < length (fr_states rt) \<and> t \<le> fs_wait_token (fiber rt j)) \<and>
     (\<forall>a<length (fr_waiters rt). wt_state (waiter rt a) < length (fr_states rt) \<and>
        wt_wait_token (waiter rt a) \<le> fs_wait_token (fiber rt (wt_state (waiter rt a)))) \<and>
     sorted (map heap_key (fr_sleepers rt)) \<and> sorted (map heap_key (fr_future_deadlines rt)) \<and>
     distinct (dict_keys (fr_future_waiters rt))"

text \<open>Every waiter belongs to one future.\<close>

definition owned :: "(nat \<Rightarrow> nat) \<Rightarrow> (nat \<times> nat list) list \<Rightarrow> ('i, 'v) fiber_runtime \<Rightarrow> bool" where
  "owned g xs rt \<longleftrightarrow> (\<forall>f a. listed rt xs f a \<longrightarrow> a < length (fr_waiters rt) \<and> g a = f) \<and>
     (\<forall>(d, n, f, a)\<in>set (fr_future_deadlines rt). a < length (fr_waiters rt) \<and> g a = f)"

text \<open>\<open>R\<close> are the fibers the pump is running.\<close>

definition wake_inv :: "(nat \<Rightarrow> nat) \<Rightarrow> (nat \<times> nat list) list \<Rightarrow> nat set \<Rightarrow> ('i, 'v) fiber_runtime \<Rightarrow> bool" where
  "wake_inv g xs R rt \<longleftrightarrow> entries_ok rt \<and> owned g xs rt \<and>
     (\<forall>i. live rt i \<longrightarrow> (if i \<in> R then idle rt i else wake_ok rt xs i))"

lemma wake_inv_live: "wake_inv g xs R rt \<Longrightarrow> live rt i \<Longrightarrow> i \<notin> R \<Longrightarrow> wake_ok rt xs i"
  "wake_inv g xs R rt \<Longrightarrow> live rt i \<Longrightarrow> i \<in> R \<Longrightarrow> idle rt i"
  by (auto simp: wake_inv_def split: if_splits)

named_theorems fiber_simps "fields after the primitive updates of the runtime"

lemma tick_simps [fiber_simps]:
  "fr_states (tick rt) = fr_states rt" "fr_waiters (tick rt) = fr_waiters rt" "fr_future_waiters (tick rt) = fr_future_waiters rt"
  "fr_future_deadlines (tick rt) = fr_future_deadlines rt" "fr_sleepers (tick rt) = fr_sleepers rt" "fr_ready (tick rt) = fr_ready rt"
  "fr_completed (tick rt) = fr_completed rt" "fr_active_count (tick rt) = fr_active_count rt" "fr_results (tick rt) = fr_results rt"
  "fr_first_error (tick rt) = fr_first_error rt" "fu_result (tick rt) = fu_result rt" "fu_callbacks (tick rt) = fu_callbacks rt"
  by (simp_all add: tick_def)

lemma upd_fiber_simps [fiber_simps]:
  "fr_states (upd_fiber i f rt) = (fr_states rt)[i := f (fiber rt i)]" "fr_waiters (upd_fiber i f rt) = fr_waiters rt"
  "fr_future_waiters (upd_fiber i f rt) = fr_future_waiters rt"
  "fr_future_deadlines (upd_fiber i f rt) = fr_future_deadlines rt" "fr_sleepers (upd_fiber i f rt) = fr_sleepers rt"
  "fr_ready (upd_fiber i f rt) = fr_ready rt"
  "fr_completed (upd_fiber i f rt) = fr_completed rt" "fr_active_count (upd_fiber i f rt) = fr_active_count rt"
  "fr_results (upd_fiber i f rt) = fr_results rt"
  "fr_first_error (upd_fiber i f rt) = fr_first_error rt" "fu_result (upd_fiber i f rt) = fu_result rt"
  "fu_callbacks (upd_fiber i f rt) = fu_callbacks rt"
  by (simp_all add: upd_fiber_def)

lemma deactivate_simps [fiber_simps]:
  "fr_states (deactivate a rt) = fr_states rt" "fr_waiters (deactivate a rt) = (fr_waiters rt)[a := (waiter rt a)\<lparr>wt_active := False\<rparr>]"
  "fr_future_waiters (deactivate a rt) = fr_future_waiters rt"
  "fr_future_deadlines (deactivate a rt) = fr_future_deadlines rt" "fr_sleepers (deactivate a rt) = fr_sleepers rt"
  "fr_ready (deactivate a rt) = fr_ready rt"
  "fr_completed (deactivate a rt) = fr_completed rt" "fr_active_count (deactivate a rt) = fr_active_count rt"
  "fr_results (deactivate a rt) = fr_results rt"
  "fr_first_error (deactivate a rt) = fr_first_error rt" "fu_result (deactivate a rt) = fu_result rt"
  "fu_callbacks (deactivate a rt) = fu_callbacks rt"
  by (simp_all add: deactivate_def)

lemma push_ready_simps [fiber_simps]:
  "fr_states (push_ready i r rt) = fr_states rt" "fr_waiters (push_ready i r rt) = fr_waiters rt"
  "fr_future_waiters (push_ready i r rt) = fr_future_waiters rt"
  "fr_future_deadlines (push_ready i r rt) = fr_future_deadlines rt" "fr_sleepers (push_ready i r rt) = fr_sleepers rt"
  "fr_ready (push_ready i r rt) = fr_ready rt @ [(i, r)]"
  "fr_completed (push_ready i r rt) = fr_completed rt" "fr_active_count (push_ready i r rt) = fr_active_count rt"
  "fr_results (push_ready i r rt) = fr_results rt"
  "fr_first_error (push_ready i r rt) = fr_first_error rt" "fu_result (push_ready i r rt) = fu_result rt"
  "fu_callbacks (push_ready i r rt) = fu_callbacks rt"
  by (simp_all add: push_ready_def)

text \<open>The invariant only reads the tables of fibers, waiters and wake sources.\<close>

lemma wake_inv_cong:
  assumes "fr_states rt' = fr_states rt" "fr_waiters rt' = fr_waiters rt" "fr_future_waiters rt' = fr_future_waiters rt"
    "fr_future_deadlines rt' = fr_future_deadlines rt" "fr_sleepers rt' = fr_sleepers rt" "fr_ready rt' = fr_ready rt"
  shows "wake_inv g xs R rt' = wake_inv g xs R rt"
proof -
  have s: "sleeper_of rt' i = sleeper_of rt i" for i unfolding sleeper_of_def assms ..
  have l: "live rt' = live rt" "listed rt' = listed rt" by (intro ext, simp add: live_def listed_def assms)+
  have p: "pending_wakes rt' i = pending_wakes rt i" for i unfolding pending_wakes_def s assms ..
  have w: "waits_on rt' = waits_on rt" by (intro ext) (simp add: waits_on_def l assms)
  have "wake_ok rt' xs i = wake_ok rt xs i" "idle rt' i = idle rt i" for i unfolding wake_ok_def idle_def p w assms by (rule refl)+
  then show ?thesis unfolding wake_inv_def entries_ok_def owned_def l assms by simp
qed

lemma wake_inv_tick [simp]: "wake_inv g xs R (tick rt) = wake_inv g xs R rt"
  by (rule wake_inv_cong) (simp_all add: fiber_simps)

subsection \<open>Waking a waiter\<close>

lemma waits_on_not_stale:
  assumes "wake_inv g xs R rt" "live rt i" "waits_on rt xs i f' a" "fs_pending (fiber rt i) = Some f'" "a < length (fr_waiters rt)" "g a = f"
  shows "\<not> stale_waiter rt f a"
  using assms by (auto simp: wake_inv_def owned_def waits_on_def stale_waiter_def Let_def live_def)

lemma wake_ok_deactivate:
  assumes "wake_ok rt xs i" "\<And>f. \<not> waits_on rt xs i f a \<or> fs_pending (fiber rt i) \<noteq> Some f"
  shows "wake_ok (deactivate a rt) xs i"
proof -
  have w: "waits_on (deactivate a rt) xs i f a'" if "waits_on rt xs i f a'" "a' \<noteq> a" for f a'
    using that by (auto simp: waits_on_def listed_def fiber_simps)
  have "sleeper_of (deactivate a rt) i = sleeper_of rt i" by (simp add: sleeper_of_def fiber_simps)
  then have p: "pending_wakes (deactivate a rt) i = pending_wakes rt i" unfolding pending_wakes_def fiber_simps by simp
  show ?thesis
  proof (cases "fs_pending (fiber rt i)")
    case None
    then show ?thesis using assms(1) by (simp add: wake_ok_def p fiber_simps)
  next
    case (Some f)
    then obtain a' where "waits_on rt xs i f a'" using assms(1) by (auto simp: wake_ok_def)
    moreover have "a' \<noteq> a" using assms(2) [of f] calculation Some by auto
    ultimately show ?thesis using w assms(1) Some by (auto simp: wake_ok_def p fiber_simps)
  qed
qed

lemma nth_upd_field: "h x = h (xs ! a) \<Longrightarrow> h (xs[a := x] ! b) = h (xs ! b)"
  by (cases "b = a") (cases "a < length xs", simp_all add: not_less list_update_beyond)

lemma deactivate_tables:
  assumes "entries_ok rt" "owned g xs rt"
  shows "entries_ok (deactivate a rt) \<and> owned g xs (deactivate a rt)"
proof -
  have l: "listed (deactivate a rt) = listed rt" "live (deactivate a rt) = live rt" by (intro ext, simp add: listed_def live_def fiber_simps)+
  have h: "wt_state (waiter (deactivate a rt) a') = wt_state (waiter rt a')" "wt_wait_token (waiter (deactivate a rt) a') = wt_wait_token (waiter rt a')" for a'
    unfolding deactivate_simps(2) by (rule nth_upd_field, simp)+
  have n: "length (fr_waiters (deactivate a rt)) = length (fr_waiters rt)" by (simp add: fiber_simps)
  show ?thesis using assms unfolding entries_ok_def owned_def l h n deactivate_simps(1,3-6) by simp
qed

lemma wake_waiter_inv:
  assumes inv: "wake_inv g xs R rt" and a: "a < length (fr_waiters rt)" "g a = f"
  shows "wake_inv g xs R (wake_waiter f r a rt) \<and> \<not> wt_active (waiter (wake_waiter f r a rt) a)"
proof (cases "stale_waiter rt f a")
  case True
  have e: "wake_waiter f r a rt = deactivate a rt" using True by (simp add: wake_waiter_def Let_def)
  have "if i \<in> R then idle (deactivate a rt) i else wake_ok (deactivate a rt) xs i" if lv: "live rt i" for i
  proof (cases "i \<in> R")
    case True
    have "sleeper_of (deactivate a rt) i = sleeper_of rt i" by (simp add: sleeper_of_def fiber_simps)
    then have "idle (deactivate a rt) i = idle rt i" by (simp add: idle_def pending_wakes_def fiber_simps)
    moreover have "idle rt i" by (rule wake_inv_live(2) [OF inv lv True])
    ultimately show ?thesis using True by simp
  next
    case False
    have "\<not> waits_on rt xs i f' a \<or> fs_pending (fiber rt i) \<noteq> Some f'" for f'
      using waits_on_not_stale [OF inv lv _ _ a] \<open>stale_waiter rt f a\<close> by blast
    then show ?thesis using wake_ok_deactivate [OF wake_inv_live(1) [OF inv lv False]] False by simp
  qed
  moreover have "live (deactivate a rt) = live rt" by (intro ext) (simp add: live_def fiber_simps)
  ultimately show ?thesis using inv deactivate_tables [of rt g xs a] a(1) unfolding e wake_inv_def by (simp add: fiber_simps)
next
  case False
  let ?i = "wt_state (waiter rt a)"
  let ?rt1 = "deactivate a rt"
  let ?rt2 = "upd_fiber ?i (\<lambda>s. s\<lparr>fs_pending := None\<rparr>) ?rt1"
  let ?rt3 = "push_ready ?i r ?rt2"
  have e: "wake_waiter f r a rt = ?rt3" using False by (simp add: wake_waiter_def Let_def)
  have i: "?i < length (fr_states rt)" using inv a(1) by (simp add: wake_inv_def entries_ok_def)
  have st: "\<not> fs_done (fiber rt ?i)" "fs_pending (fiber rt ?i) = Some f" "fs_wait_token (fiber rt ?i) = wt_wait_token (waiter rt a)"
    using False by (simp_all add: stale_waiter_def Let_def)
  have lv: "live rt ?i" using i st(1) by (simp add: live_def)
  then have nR: "?i \<notin> R" and ok: "wake_ok rt xs ?i" using inv st(2) by (auto simp: wake_inv_def idle_def split: if_splits)
  have p0: "pending_wakes rt ?i = 0" using ok st(2) by (simp add: wake_ok_def)
  have f3: "fs_done (fiber ?rt3 j) = fs_done (fiber rt j)" "fs_wait_token (fiber ?rt3 j) = fs_wait_token (fiber rt j)"
    "j \<noteq> ?i \<Longrightarrow> fs_pending (fiber ?rt3 j) = fs_pending (fiber rt j)" for j
    by (cases "j = ?i"; simp add: fiber_simps i)+
  have w3: "waiter ?rt3 = waiter ?rt1" by (intro ext) (simp add: fiber_simps)
  have n3: "length (fr_states ?rt3) = length (fr_states rt)" "length (fr_waiters ?rt3) = length (fr_waiters ?rt1)" by (simp_all add: fiber_simps)
  have l3: "live ?rt3 = live rt" "listed ?rt3 = listed rt" "sleeper_of ?rt3 = sleeper_of rt"
    by (intro ext, unfold live_def n3 f3, rule refl) (intro ext, unfold listed_def fiber_simps, rule refl, intro ext, unfold sleeper_of_def f3, rule refl)
  have l1: "live ?rt1 = live rt" "listed ?rt1 = listed rt"
    by (intro ext, simp add: live_def listed_def fiber_simps)+
  have tab: "entries_ok ?rt1" "owned g xs ?rt1" using inv deactivate_tables [of rt g xs a] by (simp_all add: wake_inv_def)
  have pw: "pending_wakes ?rt3 j = pending_wakes rt j + (if j = ?i then 1 else 0)" for j
    by (simp add: pending_wakes_def l3 ready_of_def push_ready_simps upd_fiber_simps deactivate_simps(5,6))
  have "entries_ok ?rt3"
    using tab(1) lv unfolding entries_ok_def l3 l1 f3 w3 n3 by (simp add: push_ready_simps upd_fiber_simps deactivate_simps(1,3-6))
  moreover have "owned g xs ?rt3"
    using tab(2) unfolding owned_def l3 l1 n3 by (simp add: push_ready_simps upd_fiber_simps deactivate_simps(4))
  moreover have "if j \<in> R then idle ?rt3 j else wake_ok ?rt3 xs j" if lj: "live rt j" for j
  proof (cases "j = ?i")
    case True
    have "fs_pending (fiber ?rt3 ?i) = None" by (simp add: fiber_simps i)
    then show ?thesis using nR p0 unfolding True wake_ok_def pw by simp
  next
    case j: False
    show ?thesis
    proof (cases "j \<in> R")
      case True
      then have "idle rt j" by (rule wake_inv_live(2) [OF inv lj])
      then have "idle ?rt3 j" unfolding idle_def pw f3(3) [OF j] using j by simp
      then show ?thesis using True by simp
    next
      case False
      have "\<not> waits_on rt xs j f' a" for f' using j by (auto simp: waits_on_def)
      then have ok1: "wake_ok ?rt1 xs j" using wake_ok_deactivate [OF wake_inv_live(1) [OF inv lj False]] by blast
      have w: "waits_on ?rt3 xs j f' a' = waits_on ?rt1 xs j f' a'" for f' a'
        unfolding waits_on_def l3 l1 w3 f3 by (simp add: push_ready_simps upd_fiber_simps deactivate_simps(1))
      have p: "pending_wakes ?rt3 j = pending_wakes ?rt1 j"
        using j pw [of j] by (simp add: pending_wakes_def fiber_simps sleeper_of_def)
      have "wake_ok ?rt3 xs j" using ok1 unfolding wake_ok_def w p f3(3) [OF j] deactivate_simps(1) .
      then show ?thesis using False by simp
    qed
  qed
  moreover have "\<not> wt_active (waiter ?rt3 a)" using a(1) by (simp add: w3) (simp add: fiber_simps)
  ultimately show ?thesis unfolding e wake_inv_def l3 by blast
qed

subsection \<open>The lists of waiters\<close>

lemma wake_inv_relist:
  assumes inv: "wake_inv g xs R rt" and d: "distinct (dict_keys d)" and rt': "rt' = rt\<lparr>fr_future_waiters := d\<rparr>"
    and sub: "\<And>f a. listed rt' ys f a \<Longrightarrow> listed rt xs f a"
    and act: "\<And>f a. listed rt xs f a \<Longrightarrow> wt_active (waiter rt a) \<Longrightarrow> listed rt' ys f a"
  shows "wake_inv g ys R rt'"
proof -
  have f: "fr_states rt' = fr_states rt" "fr_waiters rt' = fr_waiters rt" "fr_future_deadlines rt' = fr_future_deadlines rt"
    "fr_sleepers rt' = fr_sleepers rt" "fr_ready rt' = fr_ready rt" by (simp_all add: rt')
  have l: "live rt' = live rt" "sleeper_of rt' = sleeper_of rt" by (intro ext, simp add: live_def sleeper_of_def f)+
  have p: "pending_wakes rt' i = pending_wakes rt i" for i unfolding pending_wakes_def l f ..
  have w: "waits_on rt' ys i f' a" if "waits_on rt xs i f' a" for i f' a
    using that act unfolding waits_on_def f by blast
  have "wake_ok rt' ys i" if "wake_ok rt xs i" for i
    using that w unfolding wake_ok_def p f by (auto split: option.splits)
  moreover have "idle rt' i = idle rt i" for i unfolding idle_def p f ..
  moreover have "owned g ys rt'" using inv sub unfolding wake_inv_def owned_def f by blast
  moreover have "entries_ok rt'" using inv d unfolding wake_inv_def entries_ok_def l f by (simp add: rt')
  ultimately show ?thesis using inv unfolding wake_inv_def l by simp
qed

lemma listed_Cons: "listed rt ((f', ws) # xs) f a \<longleftrightarrow> listed rt xs f a \<or> f = f' \<and> a \<in> set ws"
  by (auto simp: listed_def)

lemma wake_inv_keys: "wake_inv g xs R rt \<Longrightarrow> distinct (dict_keys (fr_future_waiters rt))"
  by (simp add: wake_inv_def entries_ok_def)

lemma wake_inv_drop:
  assumes "wake_inv g ((f, a # as) # xs) R rt" "\<not> wt_active (waiter rt a)"
  shows "wake_inv g ((f, as) # xs) R rt"
  by (rule wake_inv_relist [OF assms(1), where d = "fr_future_waiters rt"]) (use assms(2) wake_inv_keys [OF assms(1)] in \<open>auto simp: listed_Cons\<close>)

lemma wake_inv_Nil:
  assumes "wake_inv g ((f, []) # xs) R rt"
  shows "wake_inv g xs R rt"
  by (rule wake_inv_relist [OF assms, where d = "fr_future_waiters rt"]) (use wake_inv_keys [OF assms] in \<open>auto simp: listed_Cons\<close>)

lemma wake_inv_pop:
  assumes inv: "wake_inv g xs R rt" and ws: "dict_get (fr_future_waiters rt) f = Some ws"
  shows "wake_inv g ((f, ws) # xs) R (rt\<lparr>fr_future_waiters := dict_pop (fr_future_waiters rt) f\<rparr>)"
  by (rule wake_inv_relist [OF inv _ refl])
    (use ws wake_inv_keys [OF inv] in \<open>auto simp: listed_def dict_get_pop distinct_dict_pop split: if_splits\<close>)

lemma wake_inv_listed:
  assumes "wake_inv g xs R rt" "listed rt xs f a"
  shows "a < length (fr_waiters rt)" "g a = f"
  using assms by (auto simp: wake_inv_def owned_def)

lemma fold_wake_inv: "wake_inv g ((f, ws) # xs) R rt \<Longrightarrow> wake_inv g xs R (fold (wake_waiter f r) ws rt)"
proof (induction ws arbitrary: rt)
  case Nil
  then show ?case using wake_inv_Nil by simp
next
  case (Cons a ws)
  have "listed rt ((f, a # ws) # xs) f a" by (simp add: listed_Cons)
  from wake_waiter_inv [OF Cons.prems wake_inv_listed [OF Cons.prems this], of r]
  have "wake_inv g ((f, ws) # xs) R (wake_waiter f r a rt)" using wake_inv_drop by blast
  then show ?case using Cons.IH by simp
qed

lemma wake_future_inv:
  assumes "wake_inv g [] R rt"
  shows "wake_inv g [] R (wake_future f rt)"
proof (cases "dict_get (fr_future_waiters rt) f")
  case None
  have "wake_inv g [] R (rt\<lparr>fr_future_waiters := dict_pop (fr_future_waiters rt) f\<rparr>)"
    by (rule wake_inv_relist [OF assms _ refl])
      (use None wake_inv_keys [OF assms] in \<open>auto simp: listed_def dict_get_pop distinct_dict_pop split: if_splits\<close>)
  then show ?thesis by (simp add: wake_future_def Let_def None)
next
  case (Some ws)
  show ?thesis using fold_wake_inv [OF wake_inv_pop [OF assms Some]] by (simp add: wake_future_def Let_def Some)
qed

lemma wake_inv_completed [simp]: "wake_inv g xs R (rt\<lparr>fr_completed := c\<rparr>) = wake_inv g xs R rt"
  by (rule wake_inv_cong) simp_all

lemma drain_completed_inv: "wake_inv g [] R rt \<Longrightarrow> wake_inv g [] R (drain_completed fs rt)"
  by (induction fs rt rule: drain_completed.induct) (simp_all add: wake_future_inv)

lemma complete_inv [simp]: "wake_inv g xs R (complete x rt) = wake_inv g xs R rt"
  by (rule wake_inv_cong) (auto simp: complete_def split: prod.splits)

lemma fold_complete_inv [simp]: "wake_inv g xs R (fold complete l rt) = wake_inv g xs R rt"
  by (induction l arbitrary: rt) simp_all

lemma process_futures_inv: "wake_inv g [] R rt \<Longrightarrow> wake_inv g [] R (process_futures w rt)"
  by (simp add: process_futures_def Let_def drain_completed_inv)

subsection \<open>Deadlines\<close>

lemma wake_inv_deadlines:
  assumes inv: "wake_inv g xs R rt" and es: "set es \<subseteq> set (fr_future_deadlines rt)" "sorted (map heap_key es)"
    and dead: "\<And>d n f a. (d, n, f, a) \<in> set (fr_future_deadlines rt) \<Longrightarrow> (d, n, f, a) \<notin> set es \<Longrightarrow> \<not> wt_active (waiter rt a) \<or> stale_waiter rt f a"
  shows "wake_inv g xs R (rt\<lparr>fr_future_deadlines := es\<rparr>)"
proof -
  let ?rt = "rt\<lparr>fr_future_deadlines := es\<rparr>"
  have l: "live ?rt = live rt" "sleeper_of ?rt = sleeper_of rt" "listed ?rt = listed rt" by (intro ext, simp add: live_def sleeper_of_def listed_def)+
  have p: "pending_wakes ?rt i = pending_wakes rt i" for i unfolding pending_wakes_def l by simp
  have "wake_ok ?rt xs i" if lv: "live rt i" "i \<notin> R" for i
  proof (cases "fs_pending (fiber rt i)")
    case None
    then show ?thesis using wake_inv_live(1) [OF inv lv] by (simp add: wake_ok_def p)
  next
    case (Some f)
    then obtain a where a: "pending_wakes rt i = 0" "waits_on rt xs i f a" using wake_inv_live(1) [OF inv lv] by (auto simp: wake_ok_def)
    then have "listed rt xs f a" "wt_active (waiter rt a)" by (simp_all add: waits_on_def)
    then have "\<not> stale_waiter rt f a" using waits_on_not_stale [OF inv lv(1) a(2) Some] wake_inv_listed [OF inv] by blast
    then have "waits_on ?rt xs i f a" using a(2) dead unfolding waits_on_def l by fastforce
    then show ?thesis using Some a(1) by (auto simp: wake_ok_def p)
  qed
  moreover have "idle ?rt i = idle rt i" for i by (simp add: idle_def p)
  moreover have "owned g xs ?rt" using inv es(1) unfolding wake_inv_def owned_def l by auto
  moreover have "entries_ok ?rt" using inv es(2) unfolding wake_inv_def entries_ok_def l by simp
  ultimately show ?thesis using inv wake_inv_live(2) [OF inv] unfolding wake_inv_def l by simp
qed

lemma wake_waiter_deadlines:
  "wake_waiter f r a (rt\<lparr>fr_future_deadlines := es\<rparr>) = (wake_waiter f r a rt)\<lparr>fr_future_deadlines := es\<rparr>"
  "fr_future_deadlines (wake_waiter f r a rt) = fr_future_deadlines rt"
  by (simp_all add: wake_waiter_def Let_def stale_waiter_def deactivate_def push_ready_def upd_fiber_def)

lemma expire_futures_inv:
  "wake_inv g xs R rt \<Longrightarrow> fr_future_deadlines rt = es \<Longrightarrow> wake_inv g xs R (expire_futures now es rt)"
proof (induction now es rt rule: expire_futures.induct)
  case (1 now rt)
  then show ?case using wake_inv_deadlines [of g xs R rt "[]"] by simp
next
  case (2 now d n f a es rt)
  have same: "rt\<lparr>fr_future_deadlines := (d, n, f, a) # es\<rparr> = rt" using 2(3) by (cases rt) simp
  have a: "a < length (fr_waiters rt)" "g a = f" using 2(2,3) by (auto simp: wake_inv_def owned_def)
  have srt: "sorted (map heap_key es)" using 2(2,3) by (simp add: wake_inv_def entries_ok_def)
  show ?case
  proof (cases "now < d")
    case True
    then show ?thesis using 2(2) same by simp
  next
    case False
    have "wake_inv g xs R (if \<not> wt_active (waiter rt a) then rt\<lparr>fr_future_deadlines := es\<rparr>
        else wake_waiter f (WakeError FutureTimeoutError) a (rt\<lparr>fr_future_deadlines := es\<rparr>))"
    proof (cases "wt_active (waiter rt a)")
      case True
      let ?rt = "wake_waiter f (WakeError FutureTimeoutError :: 'b resume) a rt"
      note w = wake_waiter_inv [OF 2(2) a, of "WakeError FutureTimeoutError"]
      have "wake_inv g xs R (?rt\<lparr>fr_future_deadlines := es\<rparr>)"
        by (rule wake_inv_deadlines) (use w 2(3) srt in \<open>auto simp: wake_waiter_deadlines\<close>)
      then show ?thesis using True by (simp add: wake_waiter_deadlines(1))
    next
      case False
      then have "wake_inv g xs R (rt\<lparr>fr_future_deadlines := es\<rparr>)"
        by (intro wake_inv_deadlines [OF 2(2)]) (use 2(3) srt in auto)
      then show ?thesis using False by simp
    qed
    from 2(1) [OF False refl, of] this show ?thesis using False by (simp add: wake_waiter_deadlines split: if_splits)
  qed
qed

subsection \<open>Sleepers\<close>

abbreviation sleeper_index :: "rat \<times> int \<times> nat \<times> nat \<times> bool \<Rightarrow> nat" where
  "sleeper_index e \<equiv> fst (snd (snd e))"

abbreviation sleeper_token :: "rat \<times> int \<times> nat \<times> nat \<times> bool \<Rightarrow> nat" where
  "sleeper_token e \<equiv> fst (snd (snd (snd e)))"

abbreviation sleeper_check :: "rat \<times> int \<times> nat \<times> nat \<times> bool \<Rightarrow> bool" where
  "sleeper_check e \<equiv> snd (snd (snd (snd e)))"

definition dead_entry :: "('i, 'v) fiber_runtime \<Rightarrow> rat \<times> int \<times> nat \<times> nat \<times> bool \<Rightarrow> bool" where
  "dead_entry rt e = dead_sleeper rt (sleeper_index e) (sleeper_token e)"

text \<open>Moving living sleepers to the ready deque and dropping dead ones.\<close>

lemma move_sleepers:
  assumes inv: "wake_inv g xs R rt" and es: "set es \<subseteq> set (fr_sleepers rt)" "sorted (map heap_key es)"
    and mv: "set mv \<subseteq> set (fr_sleepers rt)" "\<forall>e\<in>set mv. \<not> dead_entry rt e"
    and count: "\<And>i. live rt i \<Longrightarrow> length (filter (sleeper_of rt i) (fr_sleepers rt)) = length (filter (sleeper_of rt i) es) + length (filter (sleeper_of rt i) mv)"
  shows "wake_inv g xs R (rt\<lparr>fr_sleepers := es, fr_ready := fr_ready rt @ map (\<lambda>e. (sleeper_index e, res e)) mv\<rparr>)"
proof -
  define rt' where "rt' = rt\<lparr>fr_sleepers := es, fr_ready := fr_ready rt @ map (\<lambda>e. (sleeper_index e, res e)) mv\<rparr>"
  have f: "fr_states rt' = fr_states rt" "fr_waiters rt' = fr_waiters rt" "fr_future_deadlines rt' = fr_future_deadlines rt"
    "fr_future_waiters rt' = fr_future_waiters rt" "fr_sleepers rt' = es"
    "fr_ready rt' = fr_ready rt @ map (\<lambda>e. (sleeper_index e, res e)) mv" by (simp_all add: rt'_def)
  have l: "live rt' = live rt" "sleeper_of rt' = sleeper_of rt" "listed rt' = listed rt"
    by (intro ext, simp add: live_def sleeper_of_def listed_def f)+
  have mv': "live rt (sleeper_index e) \<and> sleeper_token e = fs_wait_token (fiber rt (sleeper_index e))" if emv: "e \<in> set mv" for e
  proof -
    have "e \<in> set (fr_sleepers rt)" using emv mv(1) by blast
    then have "sleeper_index e < length (fr_states rt)" using inv unfolding wake_inv_def entries_ok_def by fastforce
    then show ?thesis using emv mv(2) by (auto simp: dead_entry_def dead_sleeper_def live_def)
  qed
  have r: "filter (sleeper_of rt i) mv = filter (\<lambda>e. sleeper_index e = i) mv" for i
  proof (rule filter_cong [OF refl])
    fix e assume "e \<in> set mv"
    from mv' [OF this] show "sleeper_of rt i e = (sleeper_index e = i)" by (cases e) (auto simp: sleeper_of_def)
  qed
  have "length (filter (ready_of i) (map (\<lambda>e. (sleeper_index e, res e)) mv)) = length (filter (sleeper_of rt i) mv)" for i
    unfolding r by (induction mv) (simp_all add: ready_of_def)
  then have p: "pending_wakes rt' i = pending_wakes rt i" if "live rt i" for i
    using count [OF that] unfolding pending_wakes_def l f by simp
  have w: "waits_on rt' = waits_on rt" by (intro ext) (simp add: waits_on_def l f)
  have "wake_ok rt' xs i = wake_ok rt xs i" "idle rt' i = idle rt i" if "live rt i" for i
    unfolding wake_ok_def idle_def p [OF that] w f by (rule refl)+
  moreover have "owned g xs rt'" using inv unfolding wake_inv_def owned_def l f by simp
  moreover have "entries_ok rt'"
    using inv es mv' unfolding wake_inv_def entries_ok_def l f by auto
  ultimately show ?thesis using inv unfolding rt'_def [symmetric] wake_inv_def l by simp
qed

lemma wake_sleepers_eq:
  "fr_sleepers rt = es \<Longrightarrow> wake_sleepers verdict now es rt =
     rt\<lparr>fr_sleepers := dropWhile (\<lambda>e. fst e \<le> now) es, fr_ready := fr_ready rt @
       map (\<lambda>e. (sleeper_index e, sleeper_resume verdict (sleeper_index e) (sleeper_check e)))
         (filter (\<lambda>e. \<not> dead_entry rt e) (takeWhile (\<lambda>e. fst e \<le> now) es))\<rparr>"
proof (induction verdict now es rt rule: wake_sleepers.induct)
  case (2 verdict now d n i t check es rt)
  have de: "dead_entry (push_ready j r (rt\<lparr>fr_sleepers := es\<rparr>)) = dead_entry rt" "dead_entry (rt\<lparr>fr_sleepers := es\<rparr>) = dead_entry rt" for j r
    by (intro ext, simp add: dead_entry_def dead_sleeper_def push_ready_def)+
  show ?case
  proof (cases "now < d")
    case True
    then show ?thesis using 2(2) by (cases rt) auto
  next
    case False
    show ?thesis using 2(1) [OF False refl] False de
      by (cases "dead_sleeper rt i t") (simp_all add: push_ready_simps dead_entry_def [of rt "(d, n, i, t, check)"], simp add: push_ready_def)
  qed
qed simp

lemma count_split:
  assumes "\<And>e. e \<in> set l \<Longrightarrow> P e \<Longrightarrow> Q e"
  shows "length (filter P l) = length (filter P (filter Q l))"
  using assms by (induction l) auto

lemma living_sleeper: "live rt i \<Longrightarrow> sleeper_of rt i e \<Longrightarrow> \<not> dead_entry rt e"
  by (auto simp: sleeper_of_def dead_entry_def dead_sleeper_def live_def)

lemma wake_sleepers_inv:
  assumes inv: "wake_inv g xs R rt" and es: "fr_sleepers rt = es"
  shows "wake_inv g xs R (wake_sleepers verdict now es rt)"
  unfolding wake_sleepers_eq [OF es]
proof (rule move_sleepers [OF inv])
  have srt: "sorted (map heap_key es)" using inv es by (simp add: wake_inv_def entries_ok_def)
  show "set (dropWhile (\<lambda>e. fst e \<le> now) es) \<subseteq> set (fr_sleepers rt)" unfolding es by (auto dest: set_dropWhileD)
  show "sorted (map heap_key (dropWhile (\<lambda>e. fst e \<le> now) es))"
    using srt by (metis (no_types, lifting) dropWhile_eq_drop drop_map sorted_wrt_drop)
  show "set (filter (\<lambda>e. \<not> dead_entry rt e) (takeWhile (\<lambda>e. fst e \<le> now) es)) \<subseteq> set (fr_sleepers rt)" unfolding es by (auto dest: set_takeWhileD)
  show "\<forall>e\<in>set (filter (\<lambda>e. \<not> dead_entry rt e) (takeWhile (\<lambda>e. fst e \<le> now) es)). \<not> dead_entry rt e" by simp
  fix i assume lv: "live rt i"
  have "length (filter (sleeper_of rt i) es) = length (filter (sleeper_of rt i) (takeWhile (\<lambda>e. fst e \<le> now) es @ dropWhile (\<lambda>e. fst e \<le> now) es))" by simp
  also have "\<dots> = length (filter (sleeper_of rt i) (takeWhile (\<lambda>e. fst e \<le> now) es)) + length (filter (sleeper_of rt i) (dropWhile (\<lambda>e. fst e \<le> now) es))"
    unfolding filter_append length_append ..
  also have "length (filter (sleeper_of rt i) (takeWhile (\<lambda>e. fst e \<le> now) es)) =
      length (filter (sleeper_of rt i) (filter (\<lambda>e. \<not> dead_entry rt e) (takeWhile (\<lambda>e. fst e \<le> now) es)))"
    by (rule count_split) (rule living_sleeper [OF lv])
  finally show "length (filter (sleeper_of rt i) (fr_sleepers rt)) =
      length (filter (sleeper_of rt i) (dropWhile (\<lambda>e. fst e \<le> now) es)) +
      length (filter (sleeper_of rt i) (filter (\<lambda>e. \<not> dead_entry rt e) (takeWhile (\<lambda>e. fst e \<le> now) es)))"
    unfolding es by linarith
qed

lemma process_deadlines_inv: "wake_inv g xs R rt \<Longrightarrow> wake_inv g xs R (process_deadlines verdict now rt)"
  by (simp add: process_deadlines_def Let_def expire_futures_inv wake_sleepers_inv)

subsection \<open>Cancellation\<close>

definition raises :: "(nat \<Rightarrow> exn option) \<Rightarrow> rat \<times> int \<times> nat \<times> nat \<times> bool \<Rightarrow> bool" where
  "raises verdict e \<longleftrightarrow> sleeper_check e \<and> verdict (sleeper_index e) \<noteq> None"

lemma insort_key_first: "\<forall>x\<in>set xs. f e \<le> f x \<Longrightarrow> insort_key f e xs = e # xs"
  by (cases xs) auto

lemma poll_sleepers_eq:
  "sorted (map heap_key es) \<Longrightarrow> poll_sleepers verdict es rt =
     rt\<lparr>fr_sleepers := filter (\<lambda>e. \<not> dead_entry rt e \<and> \<not> raises verdict e) es, fr_ready := fr_ready rt @
       map (\<lambda>e. (sleeper_index e, WakeError (the (verdict (sleeper_index e))))) (filter (\<lambda>e. \<not> dead_entry rt e \<and> raises verdict e) es)\<rparr>"
proof (induction verdict es rt rule: poll_sleepers.induct)
  case (2 verdict d n i t check es rt)
  have de: "dead_entry (push_ready j r rt) = dead_entry rt" for j r
    by (intro ext) (simp add: dead_entry_def dead_sleeper_def push_ready_def)
  have srt: "sorted (map heap_key es)" "\<forall>x\<in>set es. heap_key (d, n, i, t, check) \<le> heap_key x" using 2(4) by auto
  have ins: "insort_key heap_key (d, n, i, t, check) (filter P es) = (d, n, i, t, check) # filter P es" for P
    by (rule insort_key_first) (use srt(2) in auto)
  consider "dead_sleeper rt i t" | "\<not> dead_sleeper rt i t" "(if check then verdict i else None) = None"
    | e where "\<not> dead_sleeper rt i t" "(if check then verdict i else None) = Some e" by blast
  then show ?case
  proof cases
    case 1
    then show ?thesis using 2(1) [OF 1 srt(1)] by (simp add: dead_entry_def)
  next
    case 2
    then show ?thesis using "2.IH"(2) [OF 2 srt(1)] ins by (auto simp: dead_entry_def raises_def split: if_splits)
  next
    case (3 e)
    have c: "check" "verdict i = Some e" using 3(2) by (simp_all split: if_splits)
    have "dead_entry rt (d, n, i, t, check) = False" "raises verdict (d, n, i, t, check) = True" using 3(1) c by (simp_all add: dead_entry_def raises_def)
    moreover have "poll_sleepers verdict ((d, n, i, t, check) # es) rt = poll_sleepers verdict es (push_ready i (WakeError e) rt)"
      using 3(1) c by simp
    ultimately show ?thesis unfolding "2.IH"(3) [OF 3 srt(1)] de by (simp add: c push_ready_def)
  qed
qed simp

lemma poll_sleepers_inv:
  assumes inv: "wake_inv g xs R rt" and es: "fr_sleepers rt = es"
  shows "wake_inv g xs R (poll_sleepers verdict es rt)"
proof -
  have srt: "sorted (map heap_key es)" using inv es by (simp add: wake_inv_def entries_ok_def)
  show ?thesis unfolding poll_sleepers_eq [OF srt]
  proof (rule move_sleepers [OF inv])
    show "sorted (map heap_key (filter (\<lambda>e. \<not> dead_entry rt e \<and> \<not> raises verdict e) es))" using srt by (rule sorted_filter)
    fix i assume lv: "live rt i"
    have "length (filter (sleeper_of rt i) es) = length (filter (sleeper_of rt i) (filter (\<lambda>e. \<not> dead_entry rt e) es))"
      by (rule count_split) (rule living_sleeper [OF lv])
    also have "\<dots> = length (filter (raises verdict) (filter (sleeper_of rt i) (filter (\<lambda>e. \<not> dead_entry rt e) es))) +
        length (filter (\<lambda>e. \<not> raises verdict e) (filter (sleeper_of rt i) (filter (\<lambda>e. \<not> dead_entry rt e) es)))"
      by (simp only: sum_length_filter_compl)
    finally show "length (filter (sleeper_of rt i) (fr_sleepers rt)) =
        length (filter (sleeper_of rt i) (filter (\<lambda>e. \<not> dead_entry rt e \<and> \<not> raises verdict e) es)) +
        length (filter (sleeper_of rt i) (filter (\<lambda>e. \<not> dead_entry rt e \<and> raises verdict e) es))"
      unfolding es filter_filter by (simp add: conj_commute conj_left_commute)
  qed (use es in auto)
qed

lemma wake_waiter_fields [fiber_simps]:
  "fr_future_waiters (wake_waiter f r a rt) = fr_future_waiters rt" "fr_sleepers (wake_waiter f r a rt) = fr_sleepers rt"
  "fr_completed (wake_waiter f r a rt) = fr_completed rt" "fr_active_count (wake_waiter f r a rt) = fr_active_count rt"
  "fr_results (wake_waiter f r a rt) = fr_results rt" "fr_first_error (wake_waiter f r a rt) = fr_first_error rt"
  "fu_result (wake_waiter f r a rt) = fu_result rt" "fu_callbacks (wake_waiter f r a rt) = fu_callbacks rt"
  "fr_future_deadlines (wake_waiter f r a rt) = fr_future_deadlines rt"
  by (simp_all add: wake_waiter_def Let_def fiber_simps)

lemma wake_waiter_active: "wt_active (waiter (wake_waiter f r a rt) b) \<Longrightarrow> b < length (fr_waiters rt) \<Longrightarrow> wt_active (waiter rt b)"
  by (cases "b = a") (auto simp: wake_waiter_def Let_def fiber_simps split: if_splits)

lemma wake_waiter_length: "length (fr_waiters (wake_waiter f r a rt)) = length (fr_waiters rt)"
  by (simp add: wake_waiter_def Let_def fiber_simps)

lemma wake_waiter_live: "\<not> stale_waiter rt f a \<Longrightarrow> wake_waiter f r a rt =
    push_ready (wt_state (waiter rt a)) r (upd_fiber (wt_state (waiter rt a)) (\<lambda>s. s\<lparr>fs_pending := None\<rparr>) (deactivate a rt))"
  "stale_waiter rt f a \<Longrightarrow> wake_waiter f r a rt = deactivate a rt"
  by (simp_all add: wake_waiter_def Let_def)

text \<open>The poll of one list: what it keeps, and that it only deactivates the waiters it does not keep.\<close>

lemma poll_waiters_spec:
  assumes "poll_waiters verdict f as rt = (keep, rt')" "wake_inv g xs R rt" "\<forall>a\<in>set as. listed rt xs f a"
  shows "wake_inv g xs R rt' \<and> fr_future_waiters rt' = fr_future_waiters rt \<and> set keep \<subseteq> set as \<and>
    (\<forall>a\<in>set as. wt_active (waiter rt' a) \<longrightarrow> a \<in> set keep) \<and>
    (\<forall>a<length (fr_waiters rt). wt_active (waiter rt' a) \<longrightarrow> wt_active (waiter rt a)) \<and> length (fr_waiters rt') = length (fr_waiters rt)"
  using assms
proof (induction "as" arbitrary: rt keep rt')
  case (Cons a as)
  let ?i = "wt_state (waiter rt a)"
  have a: "a < length (fr_waiters rt)" "g a = f" using wake_inv_listed [OF Cons.prems(2)] Cons.prems(3) by auto
  show ?case
  proof (cases "\<not> wt_active (waiter rt a)")
    case True
    then have "poll_waiters verdict f as rt = (keep, rt')" using Cons.prems(1) by (simp add: Let_def)
    from Cons.IH [OF this Cons.prems(2)] Cons.prems(3) show ?thesis using True a(1) by auto
  next
    case act: False
    show ?thesis
    proof (cases "stale_waiter rt f a \<or> (wt_check (waiter rt a) \<and> verdict ?i \<noteq> None)")
      case True
      define r :: "'b resume" where "r = WakeError (the (verdict ?i))"
      have p: "poll_waiters verdict f as (wake_waiter f r a rt) = (keep, rt')"
      proof (cases "stale_waiter rt f a")
        case True
        then show ?thesis using Cons.prems(1) act by (simp add: Let_def wake_waiter_live(2))
      next
        case False
        then have "wt_check (waiter rt a)" "\<exists>e. verdict ?i = Some e" using \<open>stale_waiter rt f a \<or> _\<close> by auto
        then show ?thesis using Cons.prems(1) act False by (auto simp: Let_def wake_waiter_live(1) r_def)
      qed
      note w = wake_waiter_inv [OF Cons.prems(2) a, of r]
      have l: "listed (wake_waiter f r a rt) = listed rt" by (intro ext) (simp add: listed_def wake_waiter_fields)
      have ih: "wake_inv g xs R rt' \<and> fr_future_waiters rt' = fr_future_waiters (wake_waiter f r a rt) \<and> set keep \<subseteq> set as \<and>
          (\<forall>b\<in>set as. wt_active (waiter rt' b) \<longrightarrow> b \<in> set keep) \<and>
          (\<forall>b<length (fr_waiters (wake_waiter f r a rt)). wt_active (waiter rt' b) \<longrightarrow> wt_active (waiter (wake_waiter f r a rt) b)) \<and>
          length (fr_waiters rt') = length (fr_waiters (wake_waiter f r a rt))"
        by (rule Cons.IH [OF p]) (use w Cons.prems(3) l in auto)
      have "\<not> wt_active (waiter rt' a)" using ih w a(1) by (auto simp: wake_waiter_length)
      moreover have "wt_active (waiter rt b)" if "b < length (fr_waiters rt)" "wt_active (waiter rt' b)" for b
        using ih that wake_waiter_active [of f r a rt b] by (auto simp: wake_waiter_length)
      ultimately show ?thesis using ih by (auto simp: wake_waiter_fields(1) wake_waiter_length)
    next
      case False
      obtain keep1 rt1 where p: "poll_waiters verdict f as rt = (keep1, rt1)" by (rule prod.exhaust)
      have "(if wt_check (waiter rt a) then verdict ?i else None) = None" using False by auto
      then have k: "keep = a # keep1" "rt' = rt1" using Cons.prems(1) False act p by (auto simp: Let_def)
      from Cons.IH [OF p Cons.prems(2)] Cons.prems(3) show ?thesis unfolding k by auto
    qed
  qed
qed simp

lemma poll_futures_inv:
  assumes "wake_inv g [] R rt" "distinct (map fst items)" "\<forall>(f, ws)\<in>set items. dict_get (fr_future_waiters rt) f = Some ws"
  shows "wake_inv g [] R (poll_futures verdict items rt)"
  using assms
proof (induction items arbitrary: rt)
  case (Cons item items)
  obtain f ws where item: "item = (f, ws)" by fastforce
  have get: "dict_get (fr_future_waiters rt) f = Some ws" using Cons.prems(3) item by simp
  obtain keep rt1 where p: "poll_waiters verdict f ws rt = (keep, rt1)" by (rule prod.exhaust)
  have li: "\<forall>a\<in>set ws. listed rt [] f a" using get by (auto simp: listed_def)
  note sp = poll_waiters_spec [OF p Cons.prems(1) li]
  let ?d = "if keep \<noteq> [] then dict_set (fr_future_waiters rt1) f keep else dict_pop (fr_future_waiters rt1) f"
  have w1: "wake_inv g [] R rt1" using sp by blast
  have fw: "fr_future_waiters rt1 = fr_future_waiters rt" using sp by blast
  have dk: "distinct (dict_keys ?d)" using wake_inv_keys [OF w1] by (simp add: distinct_dict_set distinct_dict_pop)
  have "wake_inv g [] R (rt1\<lparr>fr_future_waiters := ?d\<rparr>)"
  proof (rule wake_inv_relist [OF w1 dk refl])
    fix f' a assume "listed (rt1\<lparr>fr_future_waiters := ?d\<rparr>) [] f' a"
    then show "listed rt1 [] f' a" using sp get fw by (auto simp: listed_def dict_simps split: if_splits)
  next
    fix f' a assume "listed rt1 [] f' a" "wt_active (waiter rt1 a)"
    then show "listed (rt1\<lparr>fr_future_waiters := ?d\<rparr>) [] f' a" using sp get fw
      by (cases "f' = f"; cases "keep = []") (auto simp: listed_def dict_simps)
  qed
  moreover have "\<forall>(f', ws')\<in>set items. dict_get ?d f' = Some ws'"
  proof (clarify)
    fix f' ws' assume m: "(f', ws') \<in> set items"
    then have "f' \<noteq> f" using Cons.prems(2) item by force
    moreover have "dict_get (fr_future_waiters rt) f' = Some ws'" using Cons.prems(3) m by auto
    ultimately show "dict_get ?d f' = Some ws'" by (simp add: dict_simps fw)
  qed
  ultimately show ?case using Cons.IH [of "rt1\<lparr>fr_future_waiters := ?d\<rparr>"] Cons.prems(2) by (simp add: item p)
qed simp

lemma poll_cancellation_inv:
  assumes "wake_inv g [] R rt"
  shows "wake_inv g [] R (poll_cancellation verdict rt)"
proof -
  have d: "distinct (map fst (fr_future_waiters rt))" using wake_inv_keys [OF assms] by (simp add: dict_keys_def)
  then have "\<forall>(f, ws)\<in>set (fr_future_waiters rt). dict_get (fr_future_waiters rt) f = Some ws" by (auto simp: dict_get_def)
  then show ?thesis using poll_sleepers_inv [OF poll_futures_inv [OF assms d]] by (simp add: poll_cancellation_def Let_def)
qed

lemma next_wait_timeout_inv:
  assumes "wake_inv g [] R rt"
  shows "wake_inv g [] R (snd (next_wait_timeout now rt))"
proof -
  have e: "snd (next_wait_timeout now rt) = rt\<lparr>fr_future_deadlines := dropWhile (dead_deadline rt) (fr_future_deadlines rt)\<rparr>"
    by (simp add: next_wait_timeout_def Let_def)
  show ?thesis unfolding e
  proof (rule wake_inv_deadlines [OF assms])
    show "set (dropWhile (dead_deadline rt) (fr_future_deadlines rt)) \<subseteq> set (fr_future_deadlines rt)" by (auto dest: set_dropWhileD)
    show "sorted (map heap_key (dropWhile (dead_deadline rt) (fr_future_deadlines rt)))"
    proof -
      have "sorted (map heap_key (fr_future_deadlines rt))" using assms by (simp add: wake_inv_def entries_ok_def)
      then show ?thesis by (metis (no_types, lifting) dropWhile_eq_drop drop_map sorted_wrt_drop)
    qed
    fix d n f a assume m: "(d, n, f, a) \<in> set (fr_future_deadlines rt)" "(d, n, f, a) \<notin> set (dropWhile (dead_deadline rt) (fr_future_deadlines rt))"
    have "set (fr_future_deadlines rt) = set (takeWhile (dead_deadline rt) (fr_future_deadlines rt) @ dropWhile (dead_deadline rt) (fr_future_deadlines rt))"
      unfolding takeWhile_dropWhile_id ..
    then have "(d, n, f, a) \<in> set (takeWhile (dead_deadline rt) (fr_future_deadlines rt))" using m unfolding set_append by blast
    from set_takeWhileD [OF this] have "dead_deadline rt (d, n, f, a)" by blast
    then show "\<not> wt_active (waiter rt a) \<or> stale_waiter rt f a" by (simp add: dead_deadline_def)
  qed
qed

lemma wake_inv_next_poll [simp]: "wake_inv g xs R (rt\<lparr>fr_next_poll := t\<rparr>) = wake_inv g xs R rt"
  by (rule wake_inv_cong) simp_all

lemma service_inv: "wake_inv g [] R rt \<Longrightarrow> wake_inv g [] R (service w rt)"
  by (simp add: service_def Let_def process_futures_inv process_deadlines_inv poll_cancellation_inv)

subsection \<open>The running fiber\<close>

text \<open>What the fiber that is running may change of itself.\<close>

lemma running_update:
  assumes inv: "wake_inv g xs {i} rt" and lv: "live rt i" and rt': "rt' = upd_fiber i F rt"
    and tok: "fs_wait_token (fiber rt i) \<le> fs_wait_token (F (fiber rt i))"
  shows "entries_ok rt'" "owned g xs rt'" "\<And>j. j \<noteq> i \<Longrightarrow> live rt' j = live rt j" "\<And>j. live rt j \<Longrightarrow> j \<noteq> i \<Longrightarrow> wake_ok rt' xs j"
    "pending_wakes rt' i = 0" "fiber rt' i = F (fiber rt i)" "i < length (fr_states rt')" "length (fr_states rt') = length (fr_states rt)"
proof -
  have i: "i < length (fr_states rt)" using lv by (simp add: live_def)
  have f: "fr_waiters rt' = fr_waiters rt" "fr_future_waiters rt' = fr_future_waiters rt" "fr_future_deadlines rt' = fr_future_deadlines rt"
    "fr_sleepers rt' = fr_sleepers rt" "fr_ready rt' = fr_ready rt" "length (fr_states rt') = length (fr_states rt)" by (simp_all add: rt' fiber_simps)
  show st: "fiber rt' i = F (fiber rt i)" "i < length (fr_states rt')" "length (fr_states rt') = length (fr_states rt)"
    using i by (simp_all add: rt' fiber_simps)
  have sj: "fiber rt' j = fiber rt j" if "j \<noteq> i" for j using that by (simp add: rt' fiber_simps)
  show lj: "live rt' j = live rt j" if "j \<noteq> i" for j using sj [OF that] by (simp add: live_def st(3))
  have id: "pending_wakes rt i = 0" using wake_inv_live(2) [OF inv lv] by (simp add: idle_def)
  have ent: "entries_ok rt" using inv by (simp add: wake_inv_def)
  have nr: "\<forall>x\<in>set (fr_ready rt). fst x \<noteq> i" using id by (simp add: pending_wakes_def filter_empty_conv ready_of_def)
  have li: "listed rt' = listed rt" by (intro ext) (simp add: listed_def f)
  show "owned g xs rt'" using inv unfolding wake_inv_def owned_def li f by simp
  have tokj: "fs_wait_token (fiber rt j) \<le> fs_wait_token (fiber rt' j)" for j using tok st(1) sj by (cases "j = i") simp_all
  have e1: "\<forall>(j, r)\<in>set (fr_ready rt). live rt' j" using ent nr lj unfolding entries_ok_def by fastforce
  have e2: "\<forall>(d, n, j, t, c)\<in>set (fr_sleepers rt). j < length (fr_states rt) \<and> t \<le> fs_wait_token (fiber rt' j)"
    using ent tokj unfolding entries_ok_def by (fastforce intro: le_trans)
  have e3: "\<forall>a<length (fr_waiters rt). wt_state (waiter rt a) < length (fr_states rt) \<and>
      wt_wait_token (waiter rt a) \<le> fs_wait_token (fiber rt' (wt_state (waiter rt a)))"
    using ent tokj unfolding entries_ok_def by (meson le_trans)
  show "entries_ok rt'" using ent e1 e2 e3 unfolding entries_ok_def f by simp
  have sl: "sleeper_of rt' j = sleeper_of rt j" if "j \<noteq> i" for j by (intro ext) (simp add: sleeper_of_def sj [OF that])
  show "wake_ok rt' xs j" if "live rt j" "j \<noteq> i" for j
  proof -
    have "wake_ok rt xs j" using wake_inv_live(1) [OF inv that(1)] that(2) by simp
    then show ?thesis unfolding wake_ok_def waits_on_def pending_wakes_def li f sj [OF that(2)] sl [OF that(2)] .
  qed
  have "\<not> sleeper_of rt' i e" if es: "e \<in> set (fr_sleepers rt)" for e
  proof -
    obtain d n j t c where e: "e = (d, n, j, t, c)" by (rule prod_cases5)
    have "\<not> sleeper_of rt i e" using id es by (simp add: pending_wakes_def filter_empty_conv)
    moreover have "t \<le> fs_wait_token (fiber rt j)" using ent es e unfolding entries_ok_def by fastforce
    ultimately show ?thesis using tok st(1) by (auto simp: e sleeper_of_def)
  qed
  then show "pending_wakes rt' i = 0" using nr by (simp add: pending_wakes_def f filter_empty_conv ready_of_def)
qed

lemma exit_fiber_inv:
  assumes inv: "wake_inv g xs {i} rt" and lv: "live rt i"
  shows "wake_inv g xs {} (exit_fiber i e rt)"
proof -
  let ?rt = "upd_fiber i (\<lambda>s. s\<lparr>fs_done := True\<rparr>) rt"
  have "fs_wait_token (fiber rt i) \<le> fs_wait_token ((\<lambda>s. s\<lparr>fs_done := True\<rparr>) (fiber rt i))" by simp
  note u = running_update [where F = "\<lambda>s. s\<lparr>fs_done := True\<rparr>", OF inv lv refl this]
  have n: "\<not> live ?rt i" using u(6) by (simp add: live_def)
  have "wake_ok ?rt xs j" if lj: "live ?rt j" for j
  proof (cases "j = i")
    case True
    then show ?thesis using n lj by simp
  next
    case False
    then show ?thesis using u(3) [OF False] u(4) [OF _ False] lj by simp
  qed
  then have "wake_inv g xs {} ?rt" using u(1,2) by (simp add: wake_inv_def)
  then show ?thesis by (subst wake_inv_cong [of _ ?rt]) (simp_all add: exit_fiber_def)
qed

lemma length_filter_insort: "length (filter P (insort_key k x xs)) = length (filter P xs) + (if P x then 1 else 0)"
  by (induction xs) auto

text \<open>Both registrations give the running fiber a new token.\<close>

lemma register_sleep_inv:
  assumes inv: "wake_inv g xs {i} rt" and lv: "live rt i"
  shows "wake_inv g xs {} (register_sleep i d check (upd_fiber i (\<lambda>s. s\<lparr>fs_wait_token := Suc (fs_wait_token s)\<rparr>) rt))"
proof -
  let ?F = "\<lambda>s. s\<lparr>fs_wait_token := Suc (fs_wait_token s)\<rparr>"
  define rt2 where "rt2 = upd_fiber i ?F rt"
  have "fs_wait_token (fiber rt i) \<le> fs_wait_token (?F (fiber rt i))" by simp
  note u = running_update [where F = ?F, OF inv lv rt2_def this]
  define e where "e = (d, fr_serial rt2 + 1, i, fs_wait_token (fiber rt2 i), check)"
  define rt3 where "rt3 = register_sleep i d check rt2"
  have f: "fr_states rt3 = fr_states rt2" "fr_waiters rt3 = fr_waiters rt2" "fr_future_waiters rt3 = fr_future_waiters rt2"
    "fr_future_deadlines rt3 = fr_future_deadlines rt2" "fr_ready rt3 = fr_ready rt2" "fr_sleepers rt3 = insort_key heap_key e (fr_sleepers rt2)"
    by (simp_all add: rt3_def register_sleep_def e_def)
  have l: "live rt3 = live rt2" "listed rt3 = listed rt2" "sleeper_of rt3 = sleeper_of rt2"
    by (intro ext, simp add: live_def listed_def sleeper_of_def f)+
  have se: "sleeper_of rt2 j e = (j = i)" for j by (auto simp: sleeper_of_def e_def)
  have p: "pending_wakes rt3 j = pending_wakes rt2 j + (if j = i then 1 else 0)" for j
    unfolding pending_wakes_def l f length_filter_insort se by simp
  have none: "fs_pending (fiber rt2 i) = None" using wake_inv_live(2) [OF inv lv] u(6) by (simp add: idle_def)
  have "wake_ok rt3 xs j" if lj: "live rt3 j" for j
  proof (cases "j = i")
    case True
    then show ?thesis using none u(5) by (simp add: wake_ok_def f p)
  next
    case False
    then have "wake_ok rt2 xs j" using u(3) [OF False] u(4) [OF _ False] lj l(1) by simp
    moreover have pj: "pending_wakes rt3 j = pending_wakes rt2 j" using p False by simp
    ultimately show ?thesis unfolding wake_ok_def pj waits_on_def l f by simp
  qed
  moreover have "entries_ok rt3"
    using u(1,7) unfolding entries_ok_def l f by (auto simp: set_insort_key sorted_insort_key e_def)
  moreover have "owned g xs rt3" using u(2) unfolding owned_def l f .
  ultimately show ?thesis unfolding rt3_def [symmetric] rt2_def [symmetric] by (simp add: wake_inv_def)
qed

lemma upd_fiber_twice: "i < length (fr_states rt) \<Longrightarrow> upd_fiber i f (upd_fiber i h rt) = upd_fiber i (\<lambda>s. f (h s)) rt"
  by (simp add: upd_fiber_def)

lemma dict_set_twice: "dict_set (dict_set d k v) k v' = dict_set d k v'"
  by (induction d k v rule: dict_set.induct) auto

lemma add_done_callback_simps [fiber_simps]:
  "fr_states (add_done_callback f rt) = fr_states rt" "fr_waiters (add_done_callback f rt) = fr_waiters rt"
  "fr_future_waiters (add_done_callback f rt) = fr_future_waiters rt"
  "fr_future_deadlines (add_done_callback f rt) = fr_future_deadlines rt" "fr_sleepers (add_done_callback f rt) = fr_sleepers rt"
  "fr_ready (add_done_callback f rt) = fr_ready rt" "fr_serial (add_done_callback f rt) = fr_serial rt"
  "fr_active_count (add_done_callback f rt) = fr_active_count rt" "fr_results (add_done_callback f rt) = fr_results rt"
  "fr_first_error (add_done_callback f rt) = fr_first_error rt" "fu_result (add_done_callback f rt) = fu_result rt"
  by (simp_all add: add_done_callback_def split: option.splits)

lemma register_wait_fields:
  fixes rt :: "('i, 'v) fiber_runtime" and f i :: nat
  defines "ws \<equiv> (case dict_get (fr_future_waiters rt) f of None \<Rightarrow> [] | Some ws \<Rightarrow> ws)" and "rtP \<equiv> upd_fiber i (\<lambda>s. s\<lparr>fs_pending := Some f\<rparr>) rt"
  shows "fr_states (register_wait i f deadline check rt) = fr_states rtP"
    "fr_waiters (register_wait i f deadline check rt) = fr_waiters rt @ [\<lparr>wt_state = i, wt_wait_token = fs_wait_token (fiber rtP i),
       wt_deadline = deadline, wt_check = check, wt_active = True\<rparr>]"
    "fr_future_waiters (register_wait i f deadline check rt) = dict_set (fr_future_waiters rt) f (ws @ [length (fr_waiters rt)])"
    "fr_sleepers (register_wait i f deadline check rt) = fr_sleepers rt" "fr_ready (register_wait i f deadline check rt) = fr_ready rt"
    "\<exists>n. fr_future_deadlines (register_wait i f deadline check rt) = (case deadline of None \<Rightarrow> fr_future_deadlines rt
       | Some d \<Rightarrow> insort_key heap_key (d, n, f, length (fr_waiters rt)) (fr_future_deadlines rt))"
  by (auto simp: register_wait_def Let_def fiber_simps dict_get_set dict_set_twice ws_def rtP_def split: option.splits)

lemma register_wait_inv:
  assumes inv: "wake_inv g [] {i} rt" and lv: "live rt i"
  shows "wake_inv (g(length (fr_waiters rt) := f)) [] {} (register_wait i f deadline check (upd_fiber i (\<lambda>s. s\<lparr>fs_wait_token := Suc (fs_wait_token s)\<rparr>) rt))"
proof -
  let ?F = "\<lambda>s. s\<lparr>fs_wait_token := Suc (fs_wait_token s), fs_pending := Some f\<rparr>"
  let ?rt1 = "upd_fiber i (\<lambda>s. s\<lparr>fs_wait_token := Suc (fs_wait_token s)\<rparr>) rt"
  define rt2 where "rt2 = upd_fiber i ?F rt"
  have i: "i < length (fr_states rt)" using lv by (simp add: live_def)
  have tw: "upd_fiber i (\<lambda>s. s\<lparr>fs_pending := Some f\<rparr>) ?rt1 = rt2" unfolding upd_fiber_twice [OF i] rt2_def ..
  have "fs_wait_token (fiber rt i) \<le> fs_wait_token (?F (fiber rt i))" by simp
  note u = running_update [where F = ?F, OF inv lv rt2_def this]
  define rt3 where "rt3 = register_wait i f deadline check ?rt1"
  define ws where "ws = (case dict_get (fr_future_waiters rt2) f of None \<Rightarrow> [] | Some ws \<Rightarrow> ws)"
  define W where "W = length (fr_waiters rt2)"
  define w where "w = \<lparr>wt_state = i, wt_wait_token = fs_wait_token (fiber rt2 i), wt_deadline = deadline, wt_check = check, wt_active = True\<rparr>"
  have same: "fr_waiters rt2 = fr_waiters rt" "fr_waiters ?rt1 = fr_waiters rt2" "fr_future_waiters ?rt1 = fr_future_waiters rt2" "fr_sleepers ?rt1 = fr_sleepers rt2"
    "fr_ready ?rt1 = fr_ready rt2" "fr_future_deadlines ?rt1 = fr_future_deadlines rt2" by (simp_all add: rt2_def fiber_simps)
  have f: "fr_states rt3 = fr_states rt2" "fr_waiters rt3 = fr_waiters rt2 @ [w]" "fr_future_waiters rt3 = dict_set (fr_future_waiters rt2) f (ws @ [W])"
    "fr_sleepers rt3 = fr_sleepers rt2" "fr_ready rt3 = fr_ready rt2"
    using register_wait_fields [of i f deadline check ?rt1] unfolding tw same rt3_def [symmetric] w_def ws_def W_def by simp_all
  obtain n where fd: "fr_future_deadlines rt3 = (case deadline of None \<Rightarrow> fr_future_deadlines rt2
       | Some d \<Rightarrow> insort_key heap_key (d, n, f, W) (fr_future_deadlines rt2))"
    using register_wait_fields(6) [of i f deadline check ?rt1] unfolding same rt3_def [symmetric] W_def by blast
  have fds: "set (fr_future_deadlines rt3) = set (fr_future_deadlines rt2) \<union> (case deadline of None \<Rightarrow> {} | Some d \<Rightarrow> {(d, n, f, W)})"
    unfolding fd by (auto simp: set_insort_key split: option.splits)
  have l: "live rt3 = live rt2" "sleeper_of rt3 = sleeper_of rt2" by (intro ext, simp add: live_def sleeper_of_def f)+
  have p: "pending_wakes rt3 j = pending_wakes rt2 j" for j unfolding pending_wakes_def l f ..
  have li: "listed rt3 [] f' a \<longleftrightarrow> listed rt2 [] f' a \<or> f' = f \<and> a = W" for f' a
    unfolding listed_def f ws_def by (cases "dict_get (fr_future_waiters rt2) f") (auto simp: dict_get_set)
  have wo: "waits_on rt3 [] j f' a" if "waits_on rt2 [] j f' a" for j f' a
  proof -
    have "a < W" using that u(2) by (auto simp: waits_on_def owned_def W_def)
    then have "waiter rt3 a = waiter rt2 a" by (simp add: f(2) W_def nth_append)
    then show ?thesis using that unfolding waits_on_def li f fds by auto
  qed
  have wW: "waiter rt3 W = w" by (simp add: f(2) W_def)
  have mine: "waits_on rt3 [] i f W" unfolding waits_on_def li wW f(1) fds by (auto simp: w_def)
  have "wake_ok rt3 [] j" if lj: "live rt3 j" for j
  proof (cases "j = i")
    case True
    have "fs_pending (fiber rt3 i) = Some f" using u(6) by (simp add: f(1))
    then show ?thesis using True u(5) mine by (auto simp: wake_ok_def p)
  next
    case False
    then have "wake_ok rt2 [] j" using u(3) [OF False] u(4) [OF _ False] lj l(1) by simp
    then show ?thesis unfolding wake_ok_def p f(1) using wo by (auto split: option.splits)
  qed
  moreover have "entries_ok rt3"
  proof -
    have "sorted (map heap_key (fr_future_deadlines rt3))" using u(1) unfolding entries_ok_def fd by (auto simp: sorted_insort_key split: option.splits)
    moreover have "distinct (dict_keys (fr_future_waiters rt3))" using u(1) unfolding entries_ok_def f by (simp add: distinct_dict_set)
    moreover have "wt_state (waiter rt3 a) < length (fr_states rt3) \<and> wt_wait_token (waiter rt3 a) \<le> fs_wait_token (fiber rt3 (wt_state (waiter rt3 a)))"
      if "a < length (fr_waiters rt3)" for a
    proof (cases "a = W")
      case True
      then show ?thesis using u(7) unfolding True wW f(1) by (simp add: w_def)
    next
      case False
      then have "a < length (fr_waiters rt2)" using that by (simp add: f(2) W_def)
      moreover have "waiter rt3 a = waiter rt2 a" using calculation by (simp add: f(2) nth_append)
      ultimately show ?thesis using u(1) unfolding entries_ok_def f by simp
    qed
    ultimately show ?thesis using u(1) unfolding entries_ok_def l f(1,4,5) by simp
  qed
  moreover have "owned (g(W := f)) [] rt3"
    using u(2) unfolding owned_def li fds f(2) W_def by (fastforce split: option.splits)
  ultimately show ?thesis unfolding rt3_def [symmetric] W_def same(1) by (simp add: wake_inv_def)
qed

text \<open>From here on only that there is some assignment of waiters to futures matters.\<close>

definition woken :: "nat set \<Rightarrow> ('i, 'v) fiber_runtime \<Rightarrow> bool" where
  "woken R rt \<longleftrightarrow> (\<exists>g. wake_inv g [] R rt)"

lemma woken_cong:
  assumes "fr_states rt' = fr_states rt" "fr_waiters rt' = fr_waiters rt" "fr_future_waiters rt' = fr_future_waiters rt"
    "fr_future_deadlines rt' = fr_future_deadlines rt" "fr_sleepers rt' = fr_sleepers rt" "fr_ready rt' = fr_ready rt"
  shows "woken R rt' = woken R rt"
  unfolding woken_def using wake_inv_cong [OF assms] by simp

lemma resume_state_woken:
  assumes "woken {i} rt" "live rt i"
  shows "woken {} (resume_state w i r rt)"
proof -
  obtain g where g: "wake_inv g [] {i} (tick rt)" "live (tick rt) i" using assms by (auto simp: woken_def live_def fiber_simps)
  have token: "wake_inv g [] {} (exit_fiber i e (upd_fiber i (\<lambda>s. s\<lparr>fs_wait_token := Suc (fs_wait_token s)\<rparr>) (tick rt)))" for e
  proof -
    let ?F = "\<lambda>s. s\<lparr>fs_wait_token := Suc (fs_wait_token s)\<rparr>"
    have "fs_wait_token (fiber (tick rt) i) \<le> fs_wait_token (?F (fiber (tick rt) i))" by simp
    note u = running_update [where F = ?F, OF g refl this]
    have "idle (upd_fiber i ?F (tick rt)) i" using u(5,6) wake_inv_live(2) [OF g] by (simp add: idle_def)
    moreover have "wake_ok (upd_fiber i ?F (tick rt)) [] j" if "live (upd_fiber i ?F (tick rt)) j" "j \<noteq> i" for j
      using u(3,4) that by simp
    ultimately have "wake_inv g [] {i} (upd_fiber i ?F (tick rt))" using u(1,2) by (simp add: wake_inv_def)
    moreover have "live (upd_fiber i ?F (tick rt)) i" using u(6,7) g(2) by (simp add: live_def)
    ultimately show ?thesis by (rule exit_fiber_inv)
  qed
  have nd: "\<not> fs_done (fiber rt i)" using assms(2) by (simp add: live_def)
  show ?thesis
  proof (cases "wd_yield w (fr_tick rt) i r")
    case (Raised e)
    then show ?thesis using exit_fiber_inv [OF g] nd by (auto simp: resume_state_def Let_def woken_def)
  next
    case (Returned v)
    have "woken {} ((exit_fiber i None (tick rt))\<lparr>fr_results := dict_set (fr_results (tick rt)) i v\<rparr>) = woken {} (exit_fiber i None (tick rt))"
      by (rule woken_cong) simp_all
    then show ?thesis using exit_fiber_inv [OF g, of None] nd Returned by (auto simp: resume_state_def Let_def woken_def)
  next
    case (FutureWait f d c)
    then show ?thesis using register_wait_inv [OF g] nd by (auto simp: resume_state_def Let_def woken_def)
  next
    case (SleepWait d c)
    then show ?thesis using register_sleep_inv [OF g] nd by (auto simp: resume_state_def Let_def woken_def)
  next
    case Unsupported
    then show ?thesis using token nd by (auto simp: resume_state_def Let_def woken_def)
  qed
qed

lemma pop_ready_woken:
  assumes "woken {} rt" "fr_ready rt = (i, r) # rest"
  shows "woken {i} (rt\<lparr>fr_ready := rest\<rparr>)" "live (rt\<lparr>fr_ready := rest\<rparr>) i"
proof -
  let ?rt = "rt\<lparr>fr_ready := rest\<rparr>"
  obtain g where inv: "wake_inv g [] {} rt" using assms(1) by (auto simp: woken_def)
  have l: "live ?rt = live rt" "listed ?rt = listed rt" "sleeper_of ?rt = sleeper_of rt"
    by (intro ext, simp add: live_def listed_def sleeper_of_def)+
  have ent: "entries_ok rt" using inv by (simp add: wake_inv_def)
  have lv: "live rt i" using ent assms(2) by (simp add: entries_ok_def)
  then show "live ?rt i" unfolding l .
  have p: "pending_wakes rt j = pending_wakes ?rt j + (if j = i then 1 else 0)" for j
    unfolding pending_wakes_def l by (simp add: assms(2) ready_of_def)
  have w: "waits_on ?rt = waits_on rt" by (intro ext) (simp add: waits_on_def l)
  have "idle ?rt i" using wake_inv_live(1) [OF inv lv] p [of i] by (simp add: wake_ok_def idle_def split: option.splits)
  moreover have "wake_ok ?rt [] j" if "live rt j" "j \<noteq> i" for j
  proof -
    have pj: "pending_wakes ?rt j = pending_wakes rt j" using p [of j] that(2) by simp
    show ?thesis using wake_inv_live(1) [OF inv that(1)] unfolding wake_ok_def pj w by simp
  qed
  moreover have "entries_ok ?rt" using ent unfolding entries_ok_def l by (simp add: assms(2))
  moreover have "owned g [] ?rt" using inv unfolding wake_inv_def owned_def l by simp
  ultimately have "wake_inv g [] {i} ?rt" unfolding wake_inv_def l by simp
  then show "woken {i} ?rt" by (auto simp: woken_def)
qed

lemma new_state_woken:
  assumes "woken {} rt"
  shows "woken {length (fr_states rt)} (new_state x rt)" "live (new_state x rt) (length (fr_states rt))"
proof -
  let ?n = "length (fr_states rt)"
  define rt' where "rt' = new_state x rt"
  obtain g where inv: "wake_inv g [] {} rt" using assms by (auto simp: woken_def)
  have f: "fr_waiters rt' = fr_waiters rt" "fr_future_waiters rt' = fr_future_waiters rt" "fr_future_deadlines rt' = fr_future_deadlines rt"
    "fr_sleepers rt' = fr_sleepers rt" "fr_ready rt' = fr_ready rt" "length (fr_states rt') = Suc ?n" by (simp_all add: rt'_def new_state_def)
  have st: "fiber rt' ?n = \<lparr>fs_item = x, fs_done = False, fs_wait_token = 0, fs_pending = None\<rparr>" "\<And>j. j < ?n \<Longrightarrow> fiber rt' j = fiber rt j"
    by (simp_all add: rt'_def new_state_def nth_append)
  have lj: "live rt' j \<longleftrightarrow> live rt j \<or> j = ?n" for j using st by (cases "j = ?n") (auto simp: live_def f less_Suc_eq)
  have lt: "live rt j \<Longrightarrow> j < ?n" for j by (simp add: live_def)
  have ent: "entries_ok rt" using inv by (simp add: wake_inv_def)
  have e1: "\<forall>(j, r)\<in>set (fr_ready rt). live rt' j" using ent lj unfolding entries_ok_def by fastforce
  have e2: "\<forall>(d, n, j, t, c)\<in>set (fr_sleepers rt). j < Suc ?n \<and> t \<le> fs_wait_token (fiber rt' j)"
    using ent st(2) unfolding entries_ok_def by fastforce
  have e3: "\<forall>a<length (fr_waiters rt). wt_state (waiter rt a) < Suc ?n \<and> wt_wait_token (waiter rt a) \<le> fs_wait_token (fiber rt' (wt_state (waiter rt a)))"
    using ent st(2) unfolding entries_ok_def by auto
  have ent': "entries_ok rt'" using ent e1 e2 e3 unfolding entries_ok_def f by simp
  have li: "listed rt' = listed rt" by (intro ext) (simp add: listed_def f)
  have own: "owned g [] rt'" using inv unfolding wake_inv_def owned_def li f by simp
  have ok: "wake_ok rt' [] j" if "live rt j" for j
  proof -
    have sl: "sleeper_of rt' j = sleeper_of rt j" by (intro ext) (simp add: sleeper_of_def st(2) [OF lt [OF that]])
    have "wake_ok rt [] j" using wake_inv_live(1) [OF inv that] by simp
    then show ?thesis unfolding wake_ok_def waits_on_def pending_wakes_def li f st(2) [OF lt [OF that]] sl .
  qed
  have "\<forall>x\<in>set (fr_ready rt). fst x \<noteq> ?n" using ent lt unfolding entries_ok_def by fastforce
  moreover have "\<forall>e\<in>set (fr_sleepers rt). \<not> sleeper_of rt' ?n e" using ent unfolding entries_ok_def by (fastforce simp: sleeper_of_def)
  ultimately have id: "idle rt' ?n" by (simp add: idle_def pending_wakes_def f st(1) filter_empty_conv ready_of_def)
  have "if j \<in> {?n} then idle rt' j else wake_ok rt' [] j" if "live rt' j" for j
    using that lj [of j] ok [of j] id by (cases "j = ?n") simp_all
  then have "wake_inv g [] {?n} rt'" using ent' own unfolding wake_inv_def by blast
  then show "woken {?n} (new_state x rt)" unfolding rt'_def [symmetric] woken_def by blast
  show "live (new_state x rt) ?n" unfolding rt'_def [symmetric] lj by simp
qed

lemma start_fiber_woken:
  assumes "woken {} rt"
  shows "woken {} (start_fiber w x rt)"
  unfolding start_fiber_def by (rule resume_state_woken [OF new_state_woken [OF assms]])

lemma resume_some_woken: "woken {} rt \<Longrightarrow> woken {} (resume_some w n rt)"
proof (induction w n rt rule: resume_some.induct)
  case (2 w n rt)
  show ?case
  proof (cases "fr_ready rt")
    case (Cons x rest)
    obtain i r where x: "x = (i, r)" by fastforce
    have "woken {} (resume_state w i r (rt\<lparr>fr_ready := rest\<rparr>))"
      using resume_state_woken [OF pop_ready_woken [OF 2(2)]] Cons x by simp
    then show ?thesis using 2(1) [OF Cons x [symmetric]] Cons x by simp
  qed (use 2(2) in simp)
qed simp

lemma service_woken: "woken {} rt \<Longrightarrow> woken {} (service w rt)"
  unfolding woken_def using service_inv by blast

lemma resume_ready_woken: "woken {} rt \<Longrightarrow> woken {} (resume_ready w rt)"
  by (simp add: resume_ready_def resume_some_woken)

lemma woken_simps [simp]:
  "woken R (tick rt) = woken R rt" "woken R (abandon xs rt) = woken R rt" "woken R (rt\<lparr>fr_burst := b\<rparr>) = woken R rt" "woken R (rt\<lparr>fr_source := src\<rparr>) = woken R rt"
  by (rule woken_cong; simp add: fiber_simps abandon_def)+

lemma admit_woken: "woken {} rt \<Longrightarrow> woken {} (admit w position xs rt)"
  by (induction w position xs rt rule: admit.induct) (simp_all add: Let_def start_fiber_woken resume_ready_woken service_woken)

lemma start_all_woken: "woken {} rt \<Longrightarrow> woken {} (start_all w xs rt)"
  by (induction w xs rt rule: start_all.induct) (simp_all add: Let_def start_fiber_woken)

end
