(* ===== verification/Fiber_Pump.thy ===== *)
theory Fiber_Pump
  imports Fiber_Wakes
begin

text \<open>
  The pump of \<open>run_source\<close> (\<open>fibers.py\<close>): its invariants, that it forgets no fiber, what it returns, and when it waits.
\<close>

section \<open>Invariants of the pump\<close>

text \<open>What the building blocks of a turn keep, the whole turn keeps.\<close>

locale pump_invariant =
  fixes w :: "('i, 'v) world" and P :: "('i, 'v) fiber_runtime \<Rightarrow> bool"
  assumes start_keeps: "P rt \<Longrightarrow> P (start_fiber w x rt)"
    and service_keeps: "P rt \<Longrightarrow> P (service w rt)"
    and resume_keeps: "P rt \<Longrightarrow> P (resume_some w n rt)"
    and wait_keeps: "P rt \<Longrightarrow> P (snd (next_wait_timeout now rt))"
    and tick_keeps: "P (tick rt) = P rt"
    and abandon_keeps: "P (abandon xs rt) = P rt"
    and burst_keeps: "P (rt\<lparr>fr_burst := b\<rparr>) = P rt"
    and source_keeps: "P (rt\<lparr>fr_source := src\<rparr>) = P rt"
begin

lemma resume_ready_keeps: "P rt \<Longrightarrow> P (resume_ready w rt)"
  by (simp add: resume_ready_def resume_keeps)

lemma admit_keeps: "P rt \<Longrightarrow> P (admit w position xs rt)"
  by (induction xs arbitrary: position rt) (simp_all add: Let_def start_keeps resume_ready_keeps service_keeps abandon_keeps)

lemma start_all_keeps: "P rt \<Longrightarrow> P (start_all w xs rt)"
  by (induction xs arbitrary: rt) (simp_all add: Let_def start_keeps abandon_keeps)

lemma pull_keeps: "P rt \<Longrightarrow> pull_items w c rt = Inr (xs, rt') \<Longrightarrow> P rt'"
  by (auto simp: pull_items_def res_bind_eq_Inr tick_keeps source_keeps split: if_splits item_source.splits)

lemma admission_keeps:
  assumes "P rt" "admission w limit rt = Inr (added, rt')"
  shows "P rt'"
proof -
  obtain xs rt1 where p: "pull_items w (requested_items limit rt) rt = Inr (xs, rt1)"
    and rt': "rt' = admit w 0 xs (rt1\<lparr>fr_burst := next_burst limit (requested_items limit rt) (int (length xs)) rt1\<rparr>)"
    using assms(2) by (auto simp: admission_def Let_def res_bind_eq_Inr)
  show ?thesis unfolding rt' by (rule admit_keeps) (simp add: burst_keeps pull_keeps [OF assms(1) p])
qed

lemma read_limit_keeps:
  assumes "P rt" "read_limit_fiber w rt = Inr (limit, rt')"
  shows "P rt'"
proof -
  obtain x where "(case x of PyInt limit \<Rightarrow> if limit < 0 then Inl (ValueError ''runtime API lane concurrency must be an integer >= 0'') else Inr (limit, tick rt)
     | _ \<Rightarrow> Inl (ValueError ''runtime API lane concurrency must be an integer >= 0'')) = Inr (limit, rt')"
    using assms(2) unfolding read_limit_fiber_def res_bind_eq_Inr by blast
  then have "rt' = tick rt" by (cases x) (simp_all split: if_splits)
  then show ?thesis using assms(1) by (simp add: tick_keeps)
qed

lemma after_admission_keeps: "P rt \<Longrightarrow> P (after_admission w rt)"
  by (simp add: after_admission_def resume_ready_keeps service_keeps)

lemma wait_event_keeps: "P rt \<Longrightarrow> P (fst (wait_event w rt))"
  using wait_keeps [of "tick rt"] by (simp add: wait_event_def tick_keeps case_prod_unfold)

lemma settle_keeps:
  assumes "P rt"
  shows "P (fst (settle w limit added rt))"
proof -
  have "P (fst (case pull_items w (min (min limit 16) (fr_max_admission_burst rt)) rt of
           Inl e \<Rightarrow> (rt, Fails e)
         | Inr ([], rt1) \<Rightarrow> (case wd_wait_for_change w (fr_tick rt1) of
             None \<Rightarrow> (rt1, Finishes (collect_results rt1))
           | Some changed \<Rightarrow>
               (let rt2 = snd (next_wait_timeout (wd_clock w (fr_tick rt1)) (tick rt1)) in
                (rt2, if changed then Again else Finishes (collect_results rt2))))
         | Inr (refill, rt1) \<Rightarrow> (start_all w refill (rt1\<lparr>fr_burst := small_burst rt1\<rparr>), Again)))"
  proof (cases "pull_items w (min (min limit 16) (fr_max_admission_burst rt)) rt")
    case (Inr v)
    obtain xs rt1 where v: "v = (xs, rt1)" by fastforce
    have k: "P rt1" using pull_keeps [OF assms] Inr v by simp
    show ?thesis
    proof (cases xs)
      case Nil
      then show ?thesis using Inr v k wait_keeps [of "tick rt1"] by (auto simp: Let_def tick_keeps split: option.splits)
    next
      case (Cons y ys)
      then show ?thesis using Inr v k start_all_keeps [of "rt1\<lparr>fr_burst := small_burst rt1\<rparr>" xs] by (simp add: burst_keeps)
    qed
  qed (use assms in simp)
  then show ?thesis using assms wait_event_keeps by (auto simp: settle_def)
qed

lemma drain_failure_keeps: "P rt \<Longrightarrow> P (fst (drain_failure w e rt))"
  by (simp add: drain_failure_def wait_event_keeps)

lemma turn_keeps:
  assumes "P rt"
  shows "P (fst (pump_turn w rt))"
proof -
  have k1: "P (resume_ready w (service w rt))" using assms by (simp add: resume_ready_keeps service_keeps)
  show ?thesis
  proof (cases "fr_first_error (resume_ready w (service w rt))")
    case (Some e)
    then show ?thesis using drain_failure_keeps [OF after_admission_keeps [OF k1]] by (simp add: pump_turn_def Let_def)
  next
    case None
    show ?thesis
    proof (cases "res_bind (read_limit_fiber w (resume_ready w (service w rt))) (\<lambda>(limit, rt2). res_bind (admission w limit rt2) (\<lambda>(added, rt3). Inr (limit, added, rt3)))")
      case (Inl e)
      then show ?thesis using None k1 by (simp add: pump_turn_def Let_def)
    next
      case (Inr v)
      obtain limit added rt3 where v: "v = (limit, added, rt3)" by (rule prod_cases3)
      obtain rt2 where "read_limit_fiber w (resume_ready w (service w rt)) = Inr (limit, rt2)" "admission w limit rt2 = Inr (added, rt3)"
        using Inr v by (auto simp: res_bind_eq_Inr)
      then have "P rt3" using admission_keeps [OF read_limit_keeps [OF k1]] by blast
      then have "P (after_admission w rt3)" by (rule after_admission_keeps)
      then show ?thesis using None Inr v settle_keeps drain_failure_keeps by (auto simp: pump_turn_def Let_def split: option.splits)
    qed
  qed
qed

end

interpretation woken_pump: pump_invariant w "woken {}" for w :: "('i, 'v) world"
proof
  show "woken {} (snd (next_wait_timeout now rt))" if "woken {} rt" for now rt
    using that next_wait_timeout_inv unfolding woken_def by blast
qed (simp_all add: start_fiber_woken service_woken resume_some_woken)

section \<open>Accounts\<close>

text \<open>The counter of active fibers and the table of results; a result is what a switch into its fiber returned.\<close>

definition accounts :: "('i, 'v) world \<Rightarrow> ('i, 'v) fiber_runtime \<Rightarrow> bool" where
  "accounts w rt \<longleftrightarrow> fr_active_count rt = int (length (filter (\<lambda>d. \<not> d) (map fs_done (fr_states rt)))) \<and>
     distinct (dict_keys (fr_results rt)) \<and>
     (\<forall>i v. dict_get (fr_results rt) i = Some v \<longrightarrow> i < length (fr_states rt) \<and> map fs_done (fr_states rt) ! i \<and> (\<exists>t r. wd_yield w t i r = Returned v)) \<and>
     (fr_first_error rt = None \<longrightarrow> (\<forall>i<length (fr_states rt). map fs_done (fr_states rt) ! i \<longrightarrow> dict_get (fr_results rt) i \<noteq> None))"

definition ledger :: "('i, 'v) fiber_runtime \<Rightarrow> bool list \<times> 'i list \<times> int \<times> (nat \<times> 'v) list \<times> exn option \<times> 'i item_source \<times> 'i list" where
  "ledger rt = (map fs_done (fr_states rt), map fs_item (fr_states rt), fr_active_count rt, fr_results rt, fr_first_error rt, fr_source rt, fr_abandoned rt)"

lemma accounts_ledger: "ledger rt' = ledger rt \<Longrightarrow> accounts w rt' = accounts w rt"
proof -
  assume l: "ledger rt' = ledger rt"
  then have m: "map fs_done (fr_states rt') = map fs_done (fr_states rt)" by (simp add: ledger_def)
  then have "length (fr_states rt') = length (fr_states rt)" by (metis length_map)
  then show ?thesis using l m by (simp add: accounts_def ledger_def)
qed

lemma map_upd_same: "h x = h (xs ! i) \<Longrightarrow> map h (xs[i := x]) = map h xs"
  by (cases "i < length xs") (simp_all add: map_update list_update_same_conv list_update_beyond not_less)

lemma upd_fiber_ledger:
  fixes rt :: "('i, 'v) fiber_runtime"
  assumes "fs_done (F (fiber rt i)) = fs_done (fiber rt i)" "fs_item (F (fiber rt i)) = fs_item (fiber rt i)"
  shows "ledger (upd_fiber i F rt) = ledger rt"
  unfolding ledger_def upd_fiber_simps map_upd_same [of fs_done, OF assms(1)] map_upd_same [of fs_item, OF assms(2)]
  by (simp add: upd_fiber_def)

named_theorems ledger_simps "updates that leave the ledger alone"

lemma ledger_fields [ledger_simps]:
  "ledger (tick rt) = ledger rt" "ledger (deactivate a rt) = ledger rt" "ledger (push_ready i r rt) = ledger rt"
  "ledger (rt\<lparr>fr_ready := rd\<rparr>) = ledger rt" "ledger (rt\<lparr>fr_sleepers := es\<rparr>) = ledger rt" "ledger (rt\<lparr>fr_future_deadlines := fd\<rparr>) = ledger rt"
  "ledger (rt\<lparr>fr_future_waiters := fw\<rparr>) = ledger rt" "ledger (rt\<lparr>fr_completed := fs\<rparr>) = ledger rt" "ledger (rt\<lparr>fr_next_poll := t\<rparr>) = ledger rt"
  "ledger (rt\<lparr>fr_burst := b\<rparr>) = ledger rt"
  "ledger (add_done_callback f rt) = ledger rt" "ledger (complete x rt) = ledger rt"
  by (auto simp: ledger_def tick_def deactivate_def push_ready_def add_done_callback_def complete_def split: option.splits prod.splits)

lemma ledger_pending [ledger_simps]:
  "ledger (upd_fiber i (\<lambda>s. s\<lparr>fs_pending := p\<rparr>) rt) = ledger rt"
  "ledger (upd_fiber i (\<lambda>s. s\<lparr>fs_wait_token := Suc (fs_wait_token s)\<rparr>) rt) = ledger rt"
  by (rule upd_fiber_ledger; simp)+

lemma wake_waiter_ledger [ledger_simps]: "ledger (wake_waiter f r a rt) = ledger rt"
  unfolding wake_waiter_def Let_def by (simp only: ledger_simps split: if_split) simp

lemma fold_ledger: "(\<And>x rt. ledger (h x rt) = ledger rt) \<Longrightarrow> ledger (fold h l rt) = ledger rt"
  by (induction l arbitrary: rt) simp_all

lemma wake_future_ledger [ledger_simps]: "ledger (wake_future f rt) = ledger rt"
  by (simp add: wake_future_def Let_def ledger_simps fold_ledger split: option.splits)

lemma drain_completed_ledger [ledger_simps]: "ledger (drain_completed fs rt) = ledger rt"
  by (induction fs rt rule: drain_completed.induct) (simp_all add: ledger_simps)

lemma process_futures_ledger [ledger_simps]: "ledger (process_futures w rt) = ledger rt"
  by (simp add: process_futures_def Let_def ledger_simps fold_ledger)

lemma wake_sleepers_ledger [ledger_simps]: "ledger (wake_sleepers verdict now es rt) = ledger rt"
  by (induction verdict now es rt rule: wake_sleepers.induct) (simp_all add: Let_def ledger_simps split: if_splits)

lemma expire_futures_ledger [ledger_simps]: "ledger (expire_futures now es rt) = ledger rt"
  by (induction now es rt rule: expire_futures.induct) (simp_all add: Let_def ledger_simps split: if_splits)

lemma poll_waiters_ledger: "ledger (snd (poll_waiters verdict f as rt)) = ledger rt"
proof (induction verdict f "as" rt rule: poll_waiters.induct)
  case (2 verdict f a as rt)
  show ?case
  proof (cases "\<not> wt_active (waiter rt a)")
    case True
    then show ?thesis using 2(1) [OF refl] by (simp add: Let_def)
  next
    case act: False
    show ?thesis
    proof (cases "stale_waiter rt f a")
      case True
      then show ?thesis using 2(2) [OF refl act True] act by (simp add: Let_def ledger_simps)
    next
      case st: False
      show ?thesis
      proof (cases "if wt_check (waiter rt a) then verdict (wt_state (waiter rt a)) else None")
        case None
        then show ?thesis using 2(3) [OF refl act st None] act st by (simp add: Let_def case_prod_unfold)
      next
        case (Some e)
        then show ?thesis using 2(4) [OF refl act st Some] act st by (simp only: poll_waiters.simps Let_def if_False option.case ledger_simps)
      qed
    qed
  qed
qed simp

lemma poll_futures_ledger [ledger_simps]: "ledger (poll_futures verdict items rt) = ledger rt"
proof (induction verdict items rt rule: poll_futures.induct)
  case (2 verdict f ws items rt)
  obtain keep rt1 where p: "poll_waiters verdict f ws rt = (keep, rt1)" by (rule prod.exhaust)
  show ?case using 2 [OF p [symmetric]] poll_waiters_ledger [of verdict f ws rt] by (simp add: p ledger_simps)
qed simp

lemma poll_sleepers_ledger [ledger_simps]: "ledger (poll_sleepers verdict es rt) = ledger rt"
  by (induction verdict es rt rule: poll_sleepers.induct) (simp_all add: Let_def ledger_simps split: option.splits if_splits)

lemma service_ledger [ledger_simps]: "ledger (service w rt) = ledger rt"
  by (simp add: service_def Let_def process_deadlines_def poll_cancellation_def ledger_simps)

lemma next_wait_timeout_ledger [ledger_simps]: "ledger (snd (next_wait_timeout now rt)) = ledger rt"
  by (simp add: next_wait_timeout_def Let_def ledger_simps)

lemma register_ledger [ledger_simps]:
  "ledger (register_sleep i d check rt) = ledger rt" "ledger (register_wait i f deadline check rt) = ledger rt"
proof -
  show "ledger (register_sleep i d check rt) = ledger rt" by (simp add: register_sleep_def ledger_def)
  have "ledger (register_wait i f deadline check rt) = ledger (upd_fiber i (\<lambda>s. s\<lparr>fs_pending := Some f\<rparr>) rt)"
    using register_wait_fields(1) [of i f deadline check rt]
    by (auto simp: register_wait_def Let_def ledger_def add_done_callback_def upd_fiber_def split: option.splits)
  then show "ledger (register_wait i f deadline check rt) = ledger rt" by (simp only: ledger_simps)
qed

lemma count_exit: "i < length xs \<Longrightarrow> \<not> xs ! i \<Longrightarrow> length (filter (\<lambda>d. \<not> d) xs) = Suc (length (filter (\<lambda>d. \<not> d) (xs[i := True])))"
proof (induction xs arbitrary: i)
  case (Cons x xs)
  then show ?case by (cases i) auto
qed simp

lemma exit_fiber_accounts:
  assumes acc: "accounts w rt" and lv: "live rt i"
  shows "accounts w (exit_fiber i (Some e) rt)"
    "wd_yield w t i r = Returned v \<Longrightarrow> accounts w ((exit_fiber i None rt)\<lparr>fr_results := dict_set (fr_results rt) i v\<rparr>)"
proof -
  have i: "i < length (fr_states rt)" "\<not> map fs_done (fr_states rt) ! i" using lv by (simp_all add: live_def)
  have m: "map fs_done (fr_states (exit_fiber i x rt)) = (map fs_done (fr_states rt))[i := True]" for x
    by (simp add: exit_fiber_def fiber_simps map_update)
  have n: "length (fr_states (exit_fiber i x rt)) = length (fr_states rt)" for x by (simp add: exit_fiber_def fiber_simps)
  have act: "fr_active_count rt - 1 = int (length (filter (\<lambda>d. \<not> d) ((map fs_done (fr_states rt))[i := True])))"
    using acc count_exit [of i "map fs_done (fr_states rt)"] i by (simp add: accounts_def)
  have res: "j < length (fr_states rt) \<and> (map fs_done (fr_states rt))[i := True] ! j \<and> (\<exists>t r. wd_yield w t j r = Returned v')"
    if g: "dict_get (fr_results rt) j = Some v'" for j v'
  proof -
    have k: "j < length (fr_states rt)" "map fs_done (fr_states rt) ! j" "\<exists>t r. wd_yield w t j r = Returned v'"
      using acc g unfolding accounts_def by blast+
    then have "j \<noteq> i" using i(2) by metis
    then show ?thesis using k by (simp only: nth_list_update_neq)
  qed
  show "accounts w (exit_fiber i (Some e) rt)" unfolding accounts_def m n
    using acc act res by (auto simp: exit_fiber_def fiber_simps accounts_def split: option.splits)
  assume y: "wd_yield w t i r = Returned v"
  let ?rt = "(exit_fiber i None rt)\<lparr>fr_results := dict_set (fr_results rt) i v\<rparr>"
  have f: "fr_states ?rt = fr_states (exit_fiber i None rt)" "fr_results ?rt = dict_set (fr_results rt) i v" "fr_active_count ?rt = fr_active_count rt - 1"
    "fr_first_error ?rt = fr_first_error rt" by (simp_all add: exit_fiber_def fiber_simps split: option.splits)
  have r1: "j < length (fr_states rt) \<and> (map fs_done (fr_states rt))[i := True] ! j \<and> (\<exists>t r. wd_yield w t j r = Returned v')"
    if "dict_get (dict_set (fr_results rt) i v) j = Some v'" for j v'
    using that res [of j v'] i y by (cases "j = i") (auto simp: dict_get_set)
  have r2: "dict_get (dict_set (fr_results rt) i v) j \<noteq> None"
    if "fr_first_error rt = None" "j < length (fr_states rt)" "(map fs_done (fr_states rt))[i := True] ! j" for j
    using that acc by (cases "j = i") (auto simp: dict_get_set accounts_def)
  show "accounts w ?rt" unfolding accounts_def f m n using acc act r1 r2 by (simp add: accounts_def distinct_dict_set)
qed

lemma resume_state_accounts:
  assumes acc: "accounts w rt" and lv: "live rt i"
  shows "accounts w (resume_state w i r rt)"
proof -
  have nd: "\<not> fs_done (fiber rt i)" using lv by (simp add: live_def)
  have t: "accounts w (tick rt)" "live (tick rt) i" using acc lv by (simp_all add: accounts_ledger [of "tick rt" rt] ledger_simps live_def fiber_simps)
  let ?rt2 = "upd_fiber i (\<lambda>s. s\<lparr>fs_wait_token := Suc (fs_wait_token s)\<rparr>) (tick rt)"
  have l2: "ledger ?rt2 = ledger rt" by (simp only: ledger_simps)
  have t2: "accounts w ?rt2" "live ?rt2 i" using acc lv accounts_ledger [OF l2] by (simp_all add: live_def fiber_simps)
  show ?thesis
  proof (cases "wd_yield w (fr_tick rt) i r")
    case (Raised e)
    then show ?thesis using nd exit_fiber_accounts(1) [OF t] by (simp add: resume_state_def Let_def)
  next
    case (Returned v)
    from exit_fiber_accounts(2) [OF t Returned] show ?thesis using nd Returned by (simp add: resume_state_def Let_def)
  next
    case (FutureWait f d c)
    have l: "ledger (register_wait i f d c ?rt2) = ledger rt" by (simp only: ledger_simps)
    show ?thesis using nd FutureWait acc accounts_ledger [OF l] by (simp add: resume_state_def Let_def)
  next
    case (SleepWait d c)
    have l: "ledger (register_sleep i d c ?rt2) = ledger rt" by (simp only: ledger_simps)
    show ?thesis using nd SleepWait acc accounts_ledger [OF l] by (simp add: resume_state_def Let_def)
  next
    case Unsupported
    then show ?thesis using nd exit_fiber_accounts(1) [OF t2] by (simp add: resume_state_def Let_def)
  qed
qed

lemma new_state_accounts:
  assumes "accounts w rt"
  shows "accounts w (new_state x rt)"
proof -
  have m: "map fs_done (fr_states (new_state x rt)) = map fs_done (fr_states rt) @ [False]" by (simp add: new_state_def)
  have n: "length (fr_states (new_state x rt)) = Suc (length (fr_states rt))" by (simp add: new_state_def)
  have f: "fr_results (new_state x rt) = fr_results rt" "fr_first_error (new_state x rt) = fr_first_error rt"
    "fr_active_count (new_state x rt) = fr_active_count rt + 1" by (simp_all add: new_state_def)
  define B where "B = map fs_done (fr_states rt)"
  have lB: "length (fr_states rt) = length B" by (simp add: B_def)
  show ?thesis unfolding accounts_def m n f using assms unfolding accounts_def lB B_def [symmetric]
    by (auto simp: nth_append less_Suc_eq)
qed

section \<open>Completions arrive\<close>

text \<open>
  Every future with waiters either still has the callback that will queue it, or is in the queue; only completed
  futures are in the queue.
\<close>

definition futures_ok :: "('i, 'v) fiber_runtime \<Rightarrow> bool" where
  "futures_ok rt \<longleftrightarrow> (\<forall>f\<in>set (dict_keys (fr_future_waiters rt)). 0 < fu_callbacks rt f \<or> f \<in> set (fr_completed rt)) \<and>
     (\<forall>f\<in>set (fr_completed rt). fu_result rt f \<noteq> None) \<and> (\<forall>f. 0 < fu_callbacks rt f \<longrightarrow> fu_result rt f = None)"

text \<open>Whatever only removes lists of waiters keeps this.\<close>

definition fewer_waiters :: "('i, 'v) fiber_runtime \<Rightarrow> ('i, 'v) fiber_runtime \<Rightarrow> bool" where
  "fewer_waiters rt rt' \<longleftrightarrow> set (dict_keys (fr_future_waiters rt')) \<subseteq> set (dict_keys (fr_future_waiters rt)) \<and>
     fu_callbacks rt' = fu_callbacks rt \<and> fr_completed rt' = fr_completed rt \<and> fu_result rt' = fu_result rt"

lemma fewer_waiters_refl [simp]: "fewer_waiters rt rt"
  by (simp add: fewer_waiters_def)

lemma fewer_waiters_trans: "fewer_waiters a b \<Longrightarrow> fewer_waiters b c \<Longrightarrow> fewer_waiters a c"
  by (auto simp: fewer_waiters_def)

lemma fewer_waiters_ok: "fewer_waiters rt rt' \<Longrightarrow> futures_ok rt \<Longrightarrow> futures_ok rt'"
  unfolding fewer_waiters_def futures_ok_def by auto

named_theorems fewer_intros "operations that only remove lists of waiters"

lemma fewer_fields [fewer_intros]:
  "fewer_waiters rt (wake_waiter f r a rt)" "fewer_waiters rt (push_ready i r rt)" "fewer_waiters rt (deactivate a rt)" "fewer_waiters rt (tick rt)"
  "fewer_waiters rt (upd_fiber i F rt)" "fewer_waiters rt (rt\<lparr>fr_sleepers := es\<rparr>)" "fewer_waiters rt (rt\<lparr>fr_future_deadlines := fd\<rparr>)"
  "fewer_waiters rt (rt\<lparr>fr_next_poll := t\<rparr>)" "fewer_waiters rt (rt\<lparr>fr_future_waiters := dict_pop (fr_future_waiters rt) f\<rparr>)"
  "fewer_waiters rt (register_sleep i d c rt)" "fewer_waiters rt (exit_fiber i e rt)" "fewer_waiters rt (new_state x rt)"
  by (auto simp: fewer_waiters_def fiber_simps dict_keys_pop register_sleep_def exit_fiber_def new_state_def)

lemma fewer_fold: "(\<And>x rt. fewer_waiters rt (h x rt)) \<Longrightarrow> fewer_waiters rt (fold h l rt)"
  by (induction l arbitrary: rt) (auto intro: fewer_waiters_trans)

lemma wake_sleepers_fewer: "fewer_waiters rt (wake_sleepers verdict now es rt)"
proof (induction verdict now es rt rule: wake_sleepers.induct)
  case (2 verdict now d n i t check es rt)
  show ?case
  proof (cases "now < d")
    case False
    let ?rt1 = "rt\<lparr>fr_sleepers := es\<rparr>"
    let ?rt2 = "if dead_sleeper rt i t then ?rt1 else push_ready i (sleeper_resume verdict i check) ?rt1"
    have "fewer_waiters rt ?rt2" by (simp add: fewer_waiters_def fiber_simps)
    from fewer_waiters_trans [OF this 2 [OF False refl]] show ?thesis using False by (simp add: Let_def)
  qed (simp add: fewer_intros)
qed (simp add: fewer_intros)

lemma expire_futures_fewer: "fewer_waiters rt (expire_futures now es rt)"
proof (induction now es rt rule: expire_futures.induct)
  case (2 now d n f a es rt)
  show ?case
  proof (cases "now < d")
    case False
    let ?rt1 = "rt\<lparr>fr_future_deadlines := es\<rparr>"
    let ?rt2 = "if \<not> wt_active (waiter rt a) then ?rt1 else wake_waiter f (WakeError FutureTimeoutError) a ?rt1"
    have "fewer_waiters rt ?rt2" by (simp add: fewer_waiters_def fiber_simps)
    from fewer_waiters_trans [OF this 2 [OF False refl]] show ?thesis using False by (simp add: Let_def)
  qed (simp add: fewer_intros)
qed (simp add: fewer_intros)

lemma poll_waiters_fewer: "fewer_waiters rt (snd (poll_waiters verdict f as rt)) \<and> fr_future_waiters (snd (poll_waiters verdict f as rt)) = fr_future_waiters rt"
proof (induction verdict f "as" rt rule: poll_waiters.induct)
  case (2 verdict f a as rt)
  let ?i = "wt_state (waiter rt a)"
  show ?case
  proof (cases "\<not> wt_active (waiter rt a)")
    case True
    then show ?thesis using 2(1) [OF refl] by (simp add: Let_def)
  next
    case act: False
    show ?thesis
    proof (cases "stale_waiter rt f a")
      case True
      have "fewer_waiters rt (snd (poll_waiters verdict f as (deactivate a rt)))"
        by (rule fewer_waiters_trans [OF fewer_fields(3)]) (use 2(2) [OF refl act True] in blast)
      then show ?thesis using 2(2) [OF refl act True] act True by (simp add: Let_def fiber_simps)
    next
      case st: False
      show ?thesis
      proof (cases "if wt_check (waiter rt a) then verdict ?i else None")
        case None
        then show ?thesis using 2(3) [OF refl act st None] act st by (simp add: Let_def case_prod_unfold)
      next
        case (Some e)
        let ?rt1 = "push_ready ?i (WakeError e) (upd_fiber ?i (\<lambda>s. s\<lparr>fs_pending := None\<rparr>) (deactivate a rt))"
        have "fewer_waiters rt ?rt1" "fr_future_waiters ?rt1 = fr_future_waiters rt" by (simp_all add: fewer_waiters_def fiber_simps)
        moreover have "poll_waiters verdict f (a # as) rt = poll_waiters verdict f as ?rt1" using act st Some by (simp only: poll_waiters.simps Let_def if_False option.case)
        ultimately show ?thesis using 2(4) [OF refl act st Some] fewer_waiters_trans by metis
      qed
    qed
  qed
qed simp

lemma poll_futures_fewer:
  "set (map fst items) \<subseteq> set (dict_keys (fr_future_waiters rt)) \<Longrightarrow> distinct (map fst items) \<Longrightarrow> fewer_waiters rt (poll_futures verdict items rt)"
proof (induction items arbitrary: rt)
  case (Cons item items)
  obtain f ws where item: "item = (f, ws)" by fastforce
  obtain keep rt1 where p: "poll_waiters verdict f ws rt = (keep, rt1)" by (rule prod.exhaust)
  have w: "fewer_waiters rt rt1" "fr_future_waiters rt1 = fr_future_waiters rt" using poll_waiters_fewer [of rt verdict f ws] p by simp_all
  let ?rt2 = "rt1\<lparr>fr_future_waiters := if keep \<noteq> [] then dict_set (fr_future_waiters rt1) f keep else dict_pop (fr_future_waiters rt1) f\<rparr>"
  have f: "f \<in> set (dict_keys (fr_future_waiters rt))" using Cons.prems(1) item by simp
  have "fewer_waiters rt1 ?rt2" using f w(2) by (auto simp: fewer_waiters_def dict_keys_set dict_keys_pop)
  then have "fewer_waiters rt ?rt2" using w(1) fewer_waiters_trans by blast
  moreover have "fewer_waiters ?rt2 (poll_futures verdict items ?rt2)"
    by (rule Cons.IH) (use Cons.prems item w(2) f in \<open>auto simp: dict_keys_set dict_keys_pop\<close>)
  ultimately have "fewer_waiters rt (poll_futures verdict items ?rt2)" using fewer_waiters_trans by blast
  then show ?case by (simp add: item p)
qed simp

lemma poll_sleepers_fewer: "fewer_waiters rt (poll_sleepers verdict es rt)"
  by (induction verdict es rt rule: poll_sleepers.induct) (auto simp: fewer_waiters_def Let_def fiber_simps split: option.splits if_splits)

lemma poll_cancellation_fewer:
  assumes "distinct (dict_keys (fr_future_waiters rt))"
  shows "fewer_waiters rt (poll_cancellation verdict rt)"
  using fewer_waiters_trans [OF poll_futures_fewer [of "fr_future_waiters rt" rt verdict] poll_sleepers_fewer] assms
  by (simp add: poll_cancellation_def Let_def dict_keys_def)

lemma process_deadlines_fewer: "fewer_waiters rt (process_deadlines verdict now rt)"
  unfolding process_deadlines_def Let_def by (rule fewer_waiters_trans [OF wake_sleepers_fewer expire_futures_fewer])

lemma complete_futures_ok: "futures_ok rt \<Longrightarrow> futures_ok (complete x rt)"
  by (auto simp: futures_ok_def complete_def split: prod.splits)

lemma wake_future_futures_ok:
  assumes "futures_ok rt" "fr_completed rt = f # fs"
  shows "futures_ok (wake_future f (rt\<lparr>fr_completed := fs\<rparr>)) \<and> fr_completed (wake_future f (rt\<lparr>fr_completed := fs\<rparr>)) = fs"
proof -
  let ?rt = "rt\<lparr>fr_completed := fs, fr_future_waiters := dict_pop (fr_future_waiters rt) f\<rparr>"
  have ok: "futures_ok ?rt" using assms unfolding futures_ok_def by (auto simp: dict_keys_pop)
  have fold: "fewer_waiters ?rt (fold (wake_waiter f r) ws ?rt)" for r ws by (rule fewer_fold) (rule fewer_intros)
  have "wake_future f (rt\<lparr>fr_completed := fs\<rparr>) = ?rt \<or> (\<exists>r ws. wake_future f (rt\<lparr>fr_completed := fs\<rparr>) = fold (wake_waiter f r) ws ?rt)"
    by (auto simp: wake_future_def Let_def split: option.splits)
  then show ?thesis
  proof (elim disjE exE)
    fix r ws assume e: "wake_future f (rt\<lparr>fr_completed := fs\<rparr>) = fold (wake_waiter f r) ws ?rt"
    show ?thesis unfolding e using fewer_waiters_ok [OF fold ok] fold [of r ws] by (simp add: fewer_waiters_def)
  qed (use ok in simp)
qed

lemma drain_completed_futures_ok: "futures_ok rt \<Longrightarrow> fr_completed rt = fs \<Longrightarrow> futures_ok (drain_completed fs rt)"
proof (induction fs rt rule: drain_completed.induct)
  case (1 rt)
  then show ?case by (cases rt) simp
next
  case (2 f fs rt)
  then show ?case using wake_future_futures_ok [OF 2(2,3)] by simp
qed

lemma process_futures_ok:
  assumes "futures_ok rt"
  shows "futures_ok (process_futures w rt)"
proof -
  have "futures_ok (fold complete l rt)" if "futures_ok rt" for l and rt :: "('a, 'b) fiber_runtime"
    using that by (induction l arbitrary: rt) (simp_all add: complete_futures_ok)
  then have "futures_ok (fold complete (wd_arrivals w (fr_tick rt)) (tick rt))"
    using fewer_waiters_ok [OF fewer_fields(4) assms] by blast
  then show ?thesis unfolding process_futures_def Let_def by (rule drain_completed_futures_ok) (rule refl)
qed

lemma register_wait_futures_ok:
  assumes "futures_ok rt"
  shows "futures_ok (register_wait i f deadline check rt)"
proof -
  have rest: "fu_callbacks (register_wait i f deadline check rt) = fu_callbacks (if f \<in> set (dict_keys (fr_future_waiters rt)) then rt else add_done_callback f rt)"
    "fr_completed (register_wait i f deadline check rt) = fr_completed (if f \<in> set (dict_keys (fr_future_waiters rt)) then rt else add_done_callback f rt)"
    "fu_result (register_wait i f deadline check rt) = fu_result rt"
    by (auto simp: register_wait_def Let_def add_done_callback_def upd_fiber_def dict_get_None_iff dest: dict_get_SomeD split: option.splits)
  have keys: "set (dict_keys (fr_future_waiters (register_wait i f deadline check rt))) = insert f (set (dict_keys (fr_future_waiters rt)))"
    unfolding register_wait_fields(3) by (auto simp: dict_keys_set)
  show ?thesis
  proof (cases "f \<in> set (dict_keys (fr_future_waiters rt))")
    case True
    then show ?thesis using assms unfolding futures_ok_def keys rest by auto
  next
    case False
    then show ?thesis using assms unfolding futures_ok_def keys rest by (auto simp: add_done_callback_def split: option.splits)
  qed
qed

lemma resume_state_futures_ok:
  assumes "futures_ok rt"
  shows "futures_ok (resume_state w i r rt)"
proof -
  have t: "futures_ok (tick rt)" "futures_ok (upd_fiber i F (tick rt))" for F
    using fewer_waiters_ok [OF fewer_fields(4) assms] fewer_waiters_ok [OF fewer_fields(5)] by blast+
  have res: "futures_ok (rt\<lparr>fr_results := x\<rparr>) = futures_ok rt" for rt :: "('a, 'b) fiber_runtime" and x by (simp add: futures_ok_def)
  have other: "futures_ok rt \<Longrightarrow> futures_ok (register_sleep i d c rt)" "futures_ok rt \<Longrightarrow> futures_ok (exit_fiber i e rt)"
    for i d c e and rt :: "('a, 'b) fiber_runtime"
    using fewer_waiters_ok [OF fewer_fields(10)] fewer_waiters_ok [OF fewer_fields(11)] by blast+
  show ?thesis using assms
    by (cases "wd_yield w (fr_tick rt) i r") (auto simp: resume_state_def Let_def res intro!: register_wait_futures_ok other t)
qed

section \<open>The invariant of the pump\<close>

definition pump_ok :: "('i, 'v) world \<Rightarrow> ('i, 'v) fiber_runtime \<Rightarrow> bool" where
  "pump_ok w rt \<longleftrightarrow> woken {} rt \<and> accounts w rt \<and> futures_ok rt"

lemma pump_okD: "pump_ok w rt \<Longrightarrow> woken {} rt" "pump_ok w rt \<Longrightarrow> accounts w rt" "pump_ok w rt \<Longrightarrow> futures_ok rt"
  by (simp_all add: pump_ok_def)

lemma woken_keys: "woken R rt \<Longrightarrow> distinct (dict_keys (fr_future_waiters rt))"
  unfolding woken_def using wake_inv_keys by blast

lemma service_futures_ok:
  assumes "woken {} rt" "futures_ok rt"
  shows "futures_ok (service w rt)"
proof -
  define rt1 where "rt1 = process_futures w rt"
  define rt2 where "rt2 = process_deadlines (wd_check w (fr_tick rt1)) (wd_clock w (fr_tick rt1)) (tick rt1)"
  obtain g where "wake_inv g [] {} rt" using assms(1) unfolding woken_def by blast
  from process_futures_inv [OF this, of w] have "wake_inv g [] {} (tick rt1)" by (simp add: rt1_def)
  from process_deadlines_inv [OF this] have w2: "woken {} rt2" unfolding woken_def rt2_def by blast
  have "futures_ok (tick rt1)" unfolding rt1_def by (rule fewer_waiters_ok [OF fewer_fields(4) process_futures_ok [OF assms(2)]])
  then have f2: "futures_ok rt2" unfolding rt2_def by (rule fewer_waiters_ok [OF process_deadlines_fewer])
  have "distinct (dict_keys (fr_future_waiters (tick rt2)))" using woken_keys [OF w2] by (simp add: fiber_simps)
  from fewer_waiters_ok [OF poll_cancellation_fewer [OF this] fewer_waiters_ok [OF fewer_fields(4) f2]]
  have "futures_ok (poll_cancellation (wd_check w (fr_tick rt2)) (tick rt2))" .
  then have "futures_ok ((poll_cancellation (wd_check w (fr_tick rt2)) (tick rt2))\<lparr>fr_next_poll := t\<rparr>)" for t
    by (rule fewer_waiters_ok [OF fewer_fields(8)])
  then show ?thesis using f2 by (simp add: service_def Let_def rt1_def rt2_def)
qed

lemma start_fiber_pump_ok:
  assumes "pump_ok w rt"
  shows "pump_ok w (start_fiber w x rt)"
proof -
  note k = pump_okD [OF assms]
  have "accounts w (start_fiber w x rt)" unfolding start_fiber_def
    by (rule resume_state_accounts [OF new_state_accounts [OF k(2)] new_state_woken(2) [OF k(1)]])
  moreover have "futures_ok (start_fiber w x rt)" unfolding start_fiber_def
    by (rule resume_state_futures_ok [OF fewer_waiters_ok [OF fewer_fields(12) k(3)]])
  ultimately show ?thesis using start_fiber_woken [OF k(1)] by (simp add: pump_ok_def)
qed

lemma resume_some_pump_ok: "pump_ok w rt \<Longrightarrow> pump_ok w (resume_some w n rt)"
proof (induction n arbitrary: rt)
  case (Suc n)
  note k = pump_okD [OF Suc.prems]
  show ?case
  proof (cases "fr_ready rt")
    case (Cons x rest)
    obtain i r where x: "x = (i, r)" by fastforce
    let ?rt = "rt\<lparr>fr_ready := rest\<rparr>"
    note p = pop_ready_woken [OF k(1) Cons [unfolded x]]
    have "accounts w ?rt" using k(2) accounts_ledger [of ?rt rt w] by (simp add: ledger_simps)
    moreover have "futures_ok ?rt" using k(3) by (simp add: futures_ok_def)
    ultimately have "pump_ok w (resume_state w i r ?rt)"
      using resume_state_woken [OF p, of w r] resume_state_accounts [OF _ p(2), of w r] resume_state_futures_ok [of ?rt w i r] by (simp add: pump_ok_def)
    then show ?thesis using Suc.IH Cons x by simp
  qed (use Suc.prems in simp)
qed simp

interpretation pump: pump_invariant w "pump_ok w" for w :: "('i, 'v) world"
proof
  fix rt :: "('i, 'v) fiber_runtime"
  show "pump_ok w (start_fiber w x rt)" if "pump_ok w rt" for x by (rule start_fiber_pump_ok [OF that])
  show "pump_ok w (resume_some w n rt)" if "pump_ok w rt" for n by (rule resume_some_pump_ok [OF that])
  show "pump_ok w (service w rt)" if "pump_ok w rt"
    using service_woken [OF pump_okD(1) [OF that], of w] service_futures_ok [OF pump_okD(1) [OF that] pump_okD(3) [OF that], of w]
      pump_okD(2) [OF that] accounts_ledger [OF service_ledger, of w w rt] by (simp add: pump_ok_def)
  show "pump_ok w (snd (next_wait_timeout now rt))" if "pump_ok w rt" for now
  proof -
    have "futures_ok (snd (next_wait_timeout now rt)) = futures_ok rt" by (simp add: futures_ok_def next_wait_timeout_def Let_def)
    then show ?thesis using pump_okD [OF that] woken_pump.wait_keeps [OF pump_okD(1) [OF that], of now] accounts_ledger [OF next_wait_timeout_ledger, of w now rt]
      by (simp add: pump_ok_def)
  qed
  show "pump_ok w (tick rt) = pump_ok w rt" using accounts_ledger [of "tick rt" rt w] by (simp add: pump_ok_def futures_ok_def fiber_simps ledger_simps)
  show "pump_ok w (abandon xs rt) = pump_ok w rt" for xs by (simp add: pump_ok_def futures_ok_def accounts_def abandon_def woken_simps(2) [unfolded abandon_def])
  show "pump_ok w (rt\<lparr>fr_burst := b\<rparr>) = pump_ok w rt" for b by (simp add: pump_ok_def futures_ok_def accounts_def)
  show "pump_ok w (rt\<lparr>fr_source := src\<rparr>) = pump_ok w rt" for src by (simp add: pump_ok_def futures_ok_def accounts_def)
qed

text \<open>The runtimes a pump goes through.\<close>

inductive pump_reachable :: "('i, 'v) world \<Rightarrow> ('i, 'v) fiber_runtime \<Rightarrow> bool" for w where
  created: "new_runtime poll start most interval writer pressure now source = Inr rt \<Longrightarrow> pump_reachable w rt"
| turned: "pump_reachable w rt \<Longrightarrow> pump_turn w rt = (rt', ending) \<Longrightarrow> pump_reachable w rt'"

lemma new_runtime_ok: "new_runtime poll start most interval writer pressure now source = Inr rt \<Longrightarrow> pump_ok w rt"
proof -
  assume "new_runtime poll start most interval writer pressure now source = Inr rt"
  then have f: "fr_states rt = []" "fr_waiters rt = []" "fr_future_waiters rt = []" "fr_future_deadlines rt = []" "fr_sleepers rt = []"
    "fr_ready rt = []" "fr_completed rt = []" "fr_active_count rt = 0" "fr_results rt = []" "fu_callbacks rt = (\<lambda>_. 0)"
    by (auto simp: new_runtime_def res_bind_eq_Inr)
  have "wake_inv (\<lambda>_. 0) [] {} rt" by (simp add: wake_inv_def entries_ok_def owned_def listed_def live_def f dict_get_def dict_keys_def)
  then show ?thesis by (auto simp: pump_ok_def woken_def accounts_def futures_ok_def f dict_get_def dict_keys_def)
qed

lemma reachable_ok: "pump_reachable w rt \<Longrightarrow> pump_ok w rt"
proof (induction rule: pump_reachable.induct)
  case (turned rt rt' ending)
  then show ?case using pump.turn_keeps by (metis fst_conv)
qed (rule new_runtime_ok)

text \<open>
  C4. No fiber is forgotten: whatever the controllers, the clock, the completions, the checks and the source do, every
  fiber that has started and not exited has exactly one thing that will resume it: one entry in the ready deque, one
  sleeper with its current token, or a waiter listed for the very future it waits for, with its deadline in the heap;
  and that future either still holds the callback that queues it or is already queued. The counter of active fibers
  is the number of these fibers.
\<close>

theorem fibers_never_forgotten:
  assumes "pump_reachable w rt"
  shows "fr_active_count rt = int (card {i. live rt i}) \<and>
    (\<forall>i. live rt i \<longrightarrow> wake_ok rt [] i \<and>
      (\<forall>f. fs_pending (fiber rt i) = Some f \<longrightarrow> 0 < fu_callbacks rt f \<or> f \<in> set (fr_completed rt)))"
proof -
  note k = pump_okD [OF reachable_ok [OF assms]]
  obtain g where g: "wake_inv g [] {} rt" using k(1) by (auto simp: woken_def)
  have "length (filter (\<lambda>d. \<not> d) (map fs_done (fr_states rt))) = card {i. live rt i}"
    unfolding length_filter_conv_card by (rule arg_cong [where f = card]) (auto simp: live_def)
  then have count: "fr_active_count rt = int (card {i. live rt i})" using k(2) by (simp add: accounts_def)
  have "0 < fu_callbacks rt f \<or> f \<in> set (fr_completed rt)" if lv: "live rt i" and pend: "fs_pending (fiber rt i) = Some f" for i f
  proof -
    obtain a where "waits_on rt [] i f a" using wake_inv_live(1) [OF g lv] pend by (auto simp: wake_ok_def)
    then obtain ws where "dict_get (fr_future_waiters rt) f = Some ws" by (auto simp: waits_on_def listed_def)
    then show ?thesis using k(3) dict_get_SomeD unfolding futures_ok_def by metis
  qed
  then show ?thesis using count wake_inv_live(1) [OF g] by simp
qed

section \<open>Results\<close>

definition started :: "('i, 'v) fiber_runtime \<Rightarrow> 'i list" where
  "started rt = map fs_item (fr_states rt)"

definition quiet :: "('i, 'v) fiber_runtime \<Rightarrow> ('i, 'v) fiber_runtime \<Rightarrow> bool" where
  "quiet rt rt' \<longleftrightarrow> started rt' = started rt \<and> fr_abandoned rt' = fr_abandoned rt \<and> fr_source rt' = fr_source rt \<and>
     (fr_first_error rt \<noteq> None \<longrightarrow> fr_first_error rt' = fr_first_error rt)"

lemma quiet_trans: "quiet a b \<Longrightarrow> quiet b c \<Longrightarrow> quiet a c"
  by (auto simp: quiet_def)

lemma quiet_ledger: "ledger rt' = ledger rt \<Longrightarrow> quiet rt rt'"
  by (simp add: quiet_def ledger_def started_def)

lemma quiet_refl [simp]: "quiet rt rt"
  by (simp add: quiet_ledger)

lemma exit_fiber_quiet: "quiet rt (exit_fiber i e rt)" "quiet rt (rt\<lparr>fr_results := x\<rparr>)"
proof -
  have "map fs_item ((fr_states rt)[i := (fiber rt i)\<lparr>fs_done := True\<rparr>]) = map fs_item (fr_states rt)" by (rule map_upd_same) simp
  then show "quiet rt (exit_fiber i e rt)" by (auto simp: quiet_def started_def exit_fiber_def upd_fiber_def)
qed (simp add: quiet_def started_def)

lemma resume_state_quiet: "quiet rt (resume_state w i r rt)"
proof -
  let ?rt2 = "upd_fiber i (\<lambda>s. s\<lparr>fs_wait_token := Suc (fs_wait_token s)\<rparr>) (tick rt)"
  have l: "quiet rt (tick rt)" "quiet rt ?rt2" "quiet rt (register_wait i f d c ?rt2)" "quiet rt (register_sleep i q c ?rt2)" for f d c q
    by (rule quiet_ledger, simp only: ledger_simps)+
  show ?thesis
    using l quiet_trans [OF l(1) exit_fiber_quiet(1)] quiet_trans [OF l(2) exit_fiber_quiet(1)]
      quiet_trans [OF quiet_trans [OF l(1) exit_fiber_quiet(1)] exit_fiber_quiet(2)]
    by (cases "wd_yield w (fr_tick rt) i r") (auto simp: resume_state_def Let_def)
qed

lemma resume_some_quiet: "quiet rt (resume_some w n rt)"
proof (induction n arbitrary: rt)
  case (Suc n)
  show ?case
  proof (cases "fr_ready rt")
    case (Cons x rest)
    obtain i r where x: "x = (i, r)" by fastforce
    have "quiet rt (rt\<lparr>fr_ready := rest\<rparr>)" by (rule quiet_ledger) (simp add: ledger_simps)
    from quiet_trans [OF quiet_trans [OF this resume_state_quiet] Suc.IH] show ?thesis by (simp add: Cons x)
  qed simp
qed simp

lemma turn_parts_quiet: "quiet rt (service w rt)" "quiet rt (resume_ready w rt)" "quiet rt (after_admission w rt)"
proof -
  show s: "quiet rt (service w rt)" for rt :: "('a, 'b) fiber_runtime" by (rule quiet_ledger) (simp add: ledger_simps)
  show r: "quiet rt (resume_ready w rt)" for rt :: "('a, 'b) fiber_runtime" by (simp add: resume_ready_def resume_some_quiet)
  show "quiet rt (after_admission w rt)" unfolding after_admission_def by (rule quiet_trans [OF quiet_trans [OF r s] r])
qed

text \<open>The items of an iterator: started, abandoned after a failure, or still to come.\<close>

definition stock :: "'i list \<Rightarrow> ('i, 'v) fiber_runtime \<Rightarrow> bool" where
  "stock L rt \<longleftrightarrow> (fr_first_error rt = None \<longrightarrow> fr_abandoned rt = []) \<and>
     (\<exists>rest exhausted. fr_source rt = PlainItems rest exhausted \<and> started rt @ fr_abandoned rt @ rest = L \<and> (exhausted \<longrightarrow> rest = []))"

lemma quiet_stock: "quiet rt rt' \<Longrightarrow> stock L rt \<Longrightarrow> stock L rt'"
  by (auto simp: quiet_def stock_def)

lemma start_fiber_stock:
  "started (start_fiber w x rt) = started rt @ [x]" "fr_abandoned (start_fiber w x rt) = fr_abandoned rt" "fr_source (start_fiber w x rt) = fr_source rt"
  using resume_state_quiet [of "new_state x rt" w "length (fr_states rt)" Wake]
  by (auto simp: start_fiber_def quiet_def started_def new_state_def)

lemma admit_stock:
  assumes "fr_abandoned rt = []"
  shows "started (admit w position xs rt) @ fr_abandoned (admit w position xs rt) = started rt @ xs \<and> fr_source (admit w position xs rt) = fr_source rt \<and>
    (fr_first_error (admit w position xs rt) = None \<longrightarrow> fr_abandoned (admit w position xs rt) = [])"
  using assms
proof (induction xs arbitrary: position rt)
  case (Cons x xs)
  let ?rt1 = "start_fiber w x rt" and ?rt2 = "resume_ready w (service w (start_fiber w x rt))"
  note f = start_fiber_stock [of w x rt]
  have q: "quiet ?rt1 ?rt2" by (rule quiet_trans [OF turn_parts_quiet(1,2)])
  have i1: "fr_abandoned ?rt1 = []" "fr_abandoned ?rt2 = []" "started ?rt2 = started rt @ [x]" "fr_source ?rt2 = fr_source rt"
    using f q Cons.prems by (simp_all add: quiet_def)
  have ab: "started (abandon xs rt') = started rt'" "fr_source (abandon xs rt') = fr_source rt'" "fr_abandoned (abandon xs rt') = fr_abandoned rt' @ xs"
    "fr_first_error (abandon xs rt') = fr_first_error rt'" for rt' :: "('a, 'b) fiber_runtime" by (simp_all add: abandon_def started_def)
  show ?case using Cons.IH [OF i1(1), of "position + 1"] Cons.IH [OF i1(2), of "position + 1"] i1 f by (auto simp: Let_def ab)
qed (simp add: assms)

lemma start_all_stock:
  assumes "fr_abandoned rt = []"
  shows "started (start_all w xs rt) @ fr_abandoned (start_all w xs rt) = started rt @ xs \<and> fr_source (start_all w xs rt) = fr_source rt \<and>
    (fr_first_error (start_all w xs rt) = None \<longrightarrow> fr_abandoned (start_all w xs rt) = [])"
  using assms
proof (induction xs arbitrary: rt)
  case (Cons x xs)
  note f = start_fiber_stock [of w x rt]
  have ab: "started (abandon xs rt') = started rt'" "fr_source (abandon xs rt') = fr_source rt'" "fr_abandoned (abandon xs rt') = fr_abandoned rt' @ xs"
    "fr_first_error (abandon xs rt') = fr_first_error rt'" for rt' :: "('a, 'b) fiber_runtime" by (simp_all add: abandon_def started_def)
  show ?case using Cons.IH [of "start_fiber w x rt"] Cons.prems f by (auto simp: Let_def ab)
qed simp

lemma pull_items_stock:
  assumes "stock L rt" "fr_first_error rt = None" "pull_items w c rt = Inr (xs, rt')"
  shows "fr_abandoned rt' = [] \<and> fr_first_error rt' = None \<and> fr_active_count rt' = fr_active_count rt \<and>
    (\<exists>rest exhausted. fr_source rt' = PlainItems rest exhausted \<and> started rt' @ xs @ rest = L \<and> (exhausted \<longrightarrow> rest = []))"
proof -
  obtain rest ex where s: "fr_abandoned rt = []" "fr_source rt = PlainItems rest ex" "started rt @ rest = L" "ex \<longrightarrow> rest = []"
    using assms(1,2) by (auto simp: stock_def)
  show ?thesis
  proof (cases "c \<le> 0 \<or> ex")
    case True
    then have "xs = []" "rt' = rt" using assms(3) s(2) by (auto simp: pull_items_def split: if_splits)
    then show ?thesis using s assms(2) by simp
  next
    case False
    then have r: "xs = take (nat c) rest" "rt' = rt\<lparr>fr_source := PlainItems (drop (nat c) rest) (int (length rest) < c)\<rparr>"
      using assms(3) s(2) by (auto simp: pull_items_def)
    have "started rt @ take (nat c) rest @ drop (nat c) rest = L" using s(3) by simp
    moreover have "int (length rest) < c \<longrightarrow> drop (nat c) rest = []" by simp
    ultimately show ?thesis using s(1) assms(2) by (simp add: r started_def)
  qed
qed

lemma admission_stock:
  assumes "stock L rt" "fr_first_error rt = None" "admission w limit rt = Inr (added, rt')"
  shows "stock L rt'"
proof -
  obtain xs rt1 where p: "pull_items w (requested_items limit rt) rt = Inr (xs, rt1)"
    and rt': "rt' = admit w 0 xs (rt1\<lparr>fr_burst := next_burst limit (requested_items limit rt) (int (length xs)) rt1\<rparr>)"
    using assms(3) by (auto simp: admission_def Let_def res_bind_eq_Inr)
  let ?rt = "rt1\<lparr>fr_burst := next_burst limit (requested_items limit rt) (int (length xs)) rt1\<rparr>"
  note q = pull_items_stock [OF assms(1,2) p]
  have a: "fr_abandoned ?rt = []" "started ?rt = started rt1" "fr_source ?rt = fr_source rt1" using q by (simp_all add: started_def)
  from q obtain rest ex where src: "fr_source rt1 = PlainItems rest ex" "started rt1 @ xs @ rest = L" "ex \<longrightarrow> rest = []" by blast
  note d = admit_stock [OF a(1), of w 0 xs]
  have "started rt' @ fr_abandoned rt' @ rest = (started rt' @ fr_abandoned rt') @ rest" by simp
  also have "\<dots> = L" using d src(2) a(2) unfolding rt' by simp
  finally show ?thesis using d src a(3) unfolding stock_def rt' by simp
qed

lemma wait_event_quiet: "quiet rt (fst (wait_event w rt))" "snd (wait_event w rt) \<noteq> Finishes vs"
proof -
  have "ledger (fst (wait_event w rt)) = ledger rt"
    using next_wait_timeout_ledger [of "wd_clock w (fr_tick rt)" "tick rt"] by (simp add: wait_event_def case_prod_unfold ledger_simps)
  then show "quiet rt (fst (wait_event w rt))" by (rule quiet_ledger)
qed (simp add: wait_event_def case_prod_unfold)

lemma drain_failure_quiet: "quiet rt (fst (drain_failure w e rt))" "snd (drain_failure w e rt) \<noteq> Finishes vs"
  by (simp_all add: drain_failure_def wait_event_quiet)

lemma settle_stock:
  assumes "stock L rt" "fr_first_error rt = None"
  shows "stock L (fst (settle w limit added rt))"
proof (cases "fr_active_count rt = 0 \<and> refreshable rt \<and> added = 0")
  case True
  then show ?thesis using assms(1) by (auto simp: stock_def refreshable_def)
next
  case False
  then have "fst (settle w limit added rt) = rt \<or> fst (settle w limit added rt) = fst (wait_event w rt)" by (auto simp: settle_def)
  then show ?thesis using assms(1) quiet_stock [OF wait_event_quiet(1)] by auto
qed

lemma read_limit_tick: "read_limit_fiber w rt = Inr (limit, rt') \<Longrightarrow> rt' = tick rt \<and> wd_limit w (fr_tick rt) = Inr (PyInt limit)"
proof -
  assume "read_limit_fiber w rt = Inr (limit, rt')"
  then obtain x where x: "wd_limit w (fr_tick rt) = Inr x" "(case x of PyInt limit \<Rightarrow> if limit < 0 then Inl (ValueError ''runtime API lane concurrency must be an integer >= 0'') else Inr (limit, tick rt)
     | _ \<Rightarrow> Inl (ValueError ''runtime API lane concurrency must be an integer >= 0'')) = Inr (limit, rt')"
    unfolding read_limit_fiber_def res_bind_eq_Inr by blast
  then show ?thesis by (cases x) (simp_all split: if_splits)
qed

text \<open>The cases of a turn.\<close>

lemma pump_turn_cases:
  obtains (failed) e rt2 where "quiet rt rt2" "fr_first_error rt2 \<noteq> None" "pump_turn w rt = drain_failure w e rt2"
  | (refused) rt1 e where "quiet rt rt1" "fr_first_error rt1 = None" "pump_turn w rt = (rt1, Fails e)"
  | (late) rt1 limit added rt3 e where "quiet rt rt1" "fr_first_error rt1 = None" "admission w limit (tick rt1) = Inr (added, rt3)"
      "pump_turn w rt = drain_failure w e (after_admission w rt3)" "fr_first_error (after_admission w rt3) = Some e"
  | (settled) rt1 limit added rt3 where "quiet rt rt1" "fr_first_error rt1 = None" "admission w limit (tick rt1) = Inr (added, rt3)"
      "wd_limit w (fr_tick rt1) = Inr (PyInt limit)"
      "fr_first_error (after_admission w rt3) = None" "pump_turn w rt = settle w limit added (after_admission w rt3)"
proof -
  define rt1 where "rt1 = resume_ready w (service w rt)"
  have q: "quiet rt rt1" unfolding rt1_def by (rule quiet_trans [OF turn_parts_quiet(1,2)])
  show thesis
  proof (cases "fr_first_error rt1")
    case (Some e)
    have "quiet rt (after_admission w rt1)" by (rule quiet_trans [OF q turn_parts_quiet(3)])
    moreover have "fr_first_error (after_admission w rt1) \<noteq> None" using turn_parts_quiet(3) [of rt1 w] Some by (simp add: quiet_def)
    moreover have "pump_turn w rt = drain_failure w (the (fr_first_error (after_admission w rt1))) (after_admission w rt1)"
      using Some by (simp add: pump_turn_def Let_def rt1_def)
    ultimately show thesis by (rule failed)
  next
    case None
    show thesis
    proof (cases "res_bind (read_limit_fiber w rt1) (\<lambda>(limit, rt2). res_bind (admission w limit rt2) (\<lambda>(added, rt3). Inr (limit, added, rt3)))")
      case (Inl e)
      then show thesis using refused [OF q None] None by (simp add: pump_turn_def Let_def rt1_def)
    next
      case (Inr v)
      obtain limit added rt3 where v: "v = (limit, added, rt3)" by (rule prod_cases3)
      obtain rt2 where r: "read_limit_fiber w rt1 = Inr (limit, rt2)" and a: "admission w limit rt2 = Inr (added, rt3)"
        using Inr v by (auto simp: res_bind_eq_Inr)
      from a read_limit_tick [OF r] have a': "admission w limit (tick rt1) = Inr (added, rt3)" "wd_limit w (fr_tick rt1) = Inr (PyInt limit)" by auto
      have p: "pump_turn w rt = (case fr_first_error (after_admission w rt3) of Some e \<Rightarrow> drain_failure w e (after_admission w rt3) | None \<Rightarrow> settle w limit added (after_admission w rt3))"
        using None Inr v by (simp add: pump_turn_def Let_def rt1_def)
      show thesis
      proof (cases "fr_first_error (after_admission w rt3)")
        case e: None
        show thesis by (rule settled [OF q None a' e]) (simp add: p e)
      next
        case (Some e)
        show thesis by (rule late [OF q None a'(1) _ Some]) (simp add: p Some)
      qed
    qed
  qed
qed

lemma turn_stock:
  assumes "stock L rt"
  shows "stock L (fst (pump_turn w rt))"
proof -
  have adm: "stock L (after_admission w rt3)"
    if "quiet rt rt1" "fr_first_error rt1 = None" "admission w limit (tick rt1) = Inr (added, rt3)" for rt1 limit added rt3
  proof -
    have "quiet rt (tick rt1)" by (rule quiet_trans [OF that(1) quiet_ledger]) (rule ledger_simps)
    then have "stock L (tick rt1)" "fr_first_error (tick rt1) = None" using quiet_stock [OF _ assms] that(2) by (simp_all add: fiber_simps)
    from quiet_stock [OF turn_parts_quiet(3) admission_stock [OF this that(3)]] show ?thesis .
  qed
  show ?thesis
  proof (cases rule: pump_turn_cases [where w = w and rt = rt])
    case (failed e rt2)
    then show ?thesis using quiet_stock [OF quiet_trans [OF failed(1) drain_failure_quiet(1)] assms] by simp
  next
    case (refused rt1 e)
    then show ?thesis using quiet_stock [OF refused(1) assms] by simp
  next
    case (late rt1 limit added rt3 e)
    then show ?thesis using quiet_stock [OF drain_failure_quiet(1) adm [OF late(1-3)]] by simp
  next
    case (settled rt1 limit added rt3)
    then show ?thesis using settle_stock [OF adm [OF settled(1-3)] settled(5)] by simp
  qed
qed

lemma pull_items_quiet: "pull_items w c rt = Inr ([], rt') \<Longrightarrow> fr_active_count rt' = fr_active_count rt \<and> fr_first_error rt' = fr_first_error rt"
  by (auto simp: pull_items_def res_bind_eq_Inr fiber_simps split: if_splits item_source.splits)

lemma settle_finishes:
  assumes "settle w limit added rt = (rt', Finishes vs)" "fr_first_error rt = None"
  shows "vs = collect_results rt' \<and> fr_active_count rt' = 0 \<and> fr_first_error rt' = None \<and>
    (limit = 0 \<or> refreshable rt \<or> (\<exists>rest. fr_source rt = PlainItems rest True)) \<and> (\<not> refreshable rt \<longrightarrow> rt' = rt)"
proof -
  consider (limit) "fr_active_count rt = 0" "limit = 0" | (source) "\<not> (fr_active_count rt = 0 \<and> limit = 0)" "fr_active_count rt = 0" "refreshable rt" "added = 0"
    | (rest) "\<not> (fr_active_count rt = 0 \<and> limit = 0)" "\<not> (fr_active_count rt = 0 \<and> refreshable rt \<and> added = 0)" by blast
  then show ?thesis
  proof cases
    case limit
    then show ?thesis using assms by (auto simp: settle_def)
  next
    case source
    have s: "settle w limit added rt = (case pull_items w (min (min limit 16) (fr_max_admission_burst rt)) rt of
           Inl e \<Rightarrow> (rt, Fails e)
         | Inr ([], rt1) \<Rightarrow> (case wd_wait_for_change w (fr_tick rt1) of
             None \<Rightarrow> (rt1, Finishes (collect_results rt1))
           | Some changed \<Rightarrow>
               (let rt2 = snd (next_wait_timeout (wd_clock w (fr_tick rt1)) (tick rt1)) in
                (rt2, if changed then Again else Finishes (collect_results rt2))))
         | Inr (refill, rt1) \<Rightarrow> (start_all w refill (rt1\<lparr>fr_burst := small_burst rt1\<rparr>), Again))"
      unfolding settle_def if_not_P [OF source(1)] using source(2-4) by simp
    obtain rt1 where p: "pull_items w (min (min limit 16) (fr_max_admission_burst rt)) rt = Inr ([], rt1)"
      using assms(1) unfolding s by (auto split: sum.splits prod.splits list.splits)
    have "rt' = rt1 \<or> rt' = snd (next_wait_timeout (wd_clock w (fr_tick rt1)) (tick rt1))" "vs = collect_results rt'"
      using assms(1) unfolding s p by (auto simp: Let_def split: option.splits if_splits)
    moreover have "fr_active_count (snd (next_wait_timeout t (tick rt1))) = fr_active_count rt1"
      "fr_first_error (snd (next_wait_timeout t (tick rt1))) = fr_first_error rt1" for t
      by (simp_all add: next_wait_timeout_def Let_def fiber_simps)
    ultimately show ?thesis using pull_items_quiet [OF p] source assms(2) by auto
  next
    case rest
    have s: "settle w limit added rt = (if fr_active_count rt = 0 \<and> (case fr_source rt of PlainItems _ exhausted \<Rightarrow> exhausted | Refreshable \<Rightarrow> False)
      then (rt, Finishes (collect_results rt))
      else if fr_ready rt \<noteq> [] then (rt, Again)
      else if added > 0 \<and> fr_active_count rt < limit then (rt, Again)
      else wait_event w rt)" unfolding settle_def if_not_P [OF rest(1)] if_not_P [OF rest(2)] ..
    have "snd (wait_event w rt) \<noteq> Finishes vs" by (rule wait_event_quiet(2))
    then have a: "fr_active_count rt = 0 \<and> (case fr_source rt of PlainItems _ exhausted \<Rightarrow> exhausted | Refreshable \<Rightarrow> False)"
      "rt' = rt" "vs = collect_results rt" using assms(1) unfolding s by (auto split: if_splits)
    then have "\<exists>rest. fr_source rt = PlainItems rest True" by (cases "fr_source rt") auto
    then show ?thesis using a assms(2) by simp
  qed
qed

text \<open>With no fiber left and no error, the results are those of all fibers, in the order they were started.\<close>

lemma collect_results_all:
  assumes acc: "accounts w rt" and none: "fr_active_count rt = 0" "fr_first_error rt = None"
  shows "length (collect_results rt) = length (fr_states rt) \<and> (\<forall>i<length (fr_states rt). \<exists>t r. wd_yield w t i r = Returned (collect_results rt ! i)) \<and> (\<forall>i. \<not> live rt i)"
proof -
  let ?n = "length (fr_states rt)"
  have "int (length (filter (\<lambda>d. \<not> d) (map fs_done (fr_states rt)))) = 0" using acc none(1) unfolding accounts_def by metis
  then have "filter (\<lambda>d. \<not> d) (map fs_done (fr_states rt)) = []" by (simp only: of_nat_eq_0_iff length_0_conv)
  then have "\<forall>d\<in>set (map fs_done (fr_states rt)). d" by (simp add: filter_empty_conv del: set_map)
  then have fin: "map fs_done (fr_states rt) ! i" if "i < ?n" for i using that by (metis length_map nth_mem)
  have keys: "set (dict_keys (fr_results rt)) = {0..<?n}"
  proof (intro set_eqI iffI)
    fix i assume "i \<in> set (dict_keys (fr_results rt))"
    then obtain v where "dict_get (fr_results rt) i = Some v" by (metis dict_get_None_iff not_None_eq)
    then show "i \<in> {0..<?n}" using acc unfolding accounts_def by auto
  next
    fix i assume "i \<in> {0..<?n}"
    then have "dict_get (fr_results rt) i \<noteq> None" using acc none(2) fin [of i] unfolding accounts_def by simp
    then show "i \<in> set (dict_keys (fr_results rt))" by (simp add: dict_get_None_iff)
  qed
  have "sort (dict_keys (fr_results rt)) = [0..<?n]"
    by (rule sorted_distinct_set_unique) (use keys acc in \<open>simp_all add: accounts_def\<close>)
  then have c: "collect_results rt = map (\<lambda>i. the (dict_get (fr_results rt) i)) [0..<?n]" by (simp add: collect_results_def)
  have "\<exists>t r. wd_yield w t i r = Returned (the (dict_get (fr_results rt) i))" if "i < ?n" for i
  proof -
    have "i \<in> set (dict_keys (fr_results rt))" unfolding keys using that by simp
    then obtain v where v: "dict_get (fr_results rt) i = Some v" by (metis dict_get_None_iff not_None_eq)
    have "\<exists>t r. wd_yield w t i r = Returned v" using acc v unfolding accounts_def by blast
    then show ?thesis by (simp add: v)
  qed
  moreover have "\<not> live rt i" for i using fin by (auto simp: live_def)
  ultimately show ?thesis by (simp add: c)
qed

lemma run_source_last:
  assumes "run_source w fuel rt = Some (rt', r)" "P rt" and keeps: "\<And>rt. P rt \<Longrightarrow> P (fst (pump_turn w rt))"
  shows "\<exists>rt1. P rt1 \<and> pump_turn w rt1 = (rt', case r of Inl e \<Rightarrow> Fails e | Inr vs \<Rightarrow> Finishes vs)"
  using assms(1,2)
proof (induction fuel arbitrary: rt)
  case (Suc fuel)
  obtain rt1 ending where t: "pump_turn w rt = (rt1, ending)" by (rule prod.exhaust)
  have "P rt1" using keeps [OF Suc.prems(2)] t by simp
  then show ?case using Suc t by (cases ending) auto
qed simp

lemma turn_finishes:
  assumes st: "stock L rt1" and t: "pump_turn w rt1 = (rt, Finishes vs)"
  shows "\<exists>time limit. wd_limit w time = Inr (PyInt limit) \<and> fr_first_error rt = None \<and> vs = collect_results rt \<and> fr_active_count rt = 0 \<and>
    (limit = 0 \<or> (\<exists>rest. fr_source rt = PlainItems rest True))"
proof -
  have nf: "pump_turn w rt1 \<noteq> drain_failure w e rt'" for e rt'
    using drain_failure_quiet(2) [of w e rt' vs] t by (metis snd_conv)
  show ?thesis
  proof (cases rule: pump_turn_cases [where w = w and rt = rt1])
    case (failed e rt2)
    then show ?thesis using nf by blast
  next
    case (refused rt2 e)
    then show ?thesis using t by simp
  next
    case (late rt2 limit added rt3 e)
    then show ?thesis using nf by blast
  next
    case (settled rt2 limit added rt3)
    let ?rt = "after_admission w rt3"
    have "quiet rt1 (tick rt2)" by (rule quiet_trans [OF settled(1) quiet_ledger]) (rule ledger_simps)
    then have "stock L (tick rt2)" "fr_first_error (tick rt2) = None" using quiet_stock [OF _ st] settled(2) by (simp_all add: fiber_simps)
    have "stock L ?rt" by (rule quiet_stock [OF turn_parts_quiet(3) admission_stock [OF \<open>stock L (tick rt2)\<close> \<open>fr_first_error (tick rt2) = None\<close> settled(3)]])
    then have "\<not> refreshable ?rt" by (auto simp: stock_def refreshable_def)
    moreover have "settle w limit added ?rt = (rt, Finishes vs)" using settled(6) t by simp
    ultimately show ?thesis using settle_finishes [OF _ settled(5)] settled(4) by blast
  qed
qed


section \<open>Waiting\<close>

lemma tick_next_poll: "fr_next_poll (tick rt) = fr_next_poll rt"
  by (simp add: tick_def)

lemma settle_waits:
  assumes "settle w limit added rt = (rt', Waits t)"
  shows "(rt', Waits t) = wait_event w rt \<and> fr_ready rt = []"
proof (cases "fr_active_count rt = 0 \<and> limit = 0")
  case True
  then show ?thesis using assms by (simp add: settle_def)
next
  case l: False
  show ?thesis
  proof (cases "fr_active_count rt = 0 \<and> refreshable rt \<and> added = 0")
    case True
    have "snd (settle w limit added rt) \<noteq> Waits t" unfolding settle_def if_not_P [OF l] if_P [OF True]
      by (cases "pull_items w (min (min limit 16) (fr_max_admission_burst rt)) rt") (auto simp: Let_def split: list.splits option.splits if_splits)
    then show ?thesis using assms by simp
  next
    case False
    show ?thesis using assms unfolding settle_def if_not_P [OF l] if_not_P [OF False] by (simp split: if_splits)
  qed
qed

lemma turn_waits:
  assumes "pump_turn w rt = (rt', Waits t)"
  shows "\<exists>rt1. (rt', Waits t) = wait_event w rt1 \<and> (fr_first_error rt1 = None \<longrightarrow> fr_ready rt1 = [])"
proof -
  have d: "(rt', Waits t) = wait_event w rt2" if "pump_turn w rt = drain_failure w e rt2" for e rt2
    using that assms by (simp add: drain_failure_def split: if_splits)
  show ?thesis
  proof (cases rule: pump_turn_cases [where w = w and rt = rt])
    case (failed e rt2)
    from d [OF failed(3)] failed(2) show ?thesis by (intro exI [of _ rt2] conjI) auto
  next
    case (refused rt1 e)
    then show ?thesis using assms by simp
  next
    case (late rt1 limit added rt3 e)
    then show ?thesis using d [OF late(4)] by (intro exI [of _ "after_admission w rt3"]) simp
  next
    case (settled rt1 limit added rt3)
    have "settle w limit added (after_admission w rt3) = (rt', Waits t)" using settled(6) assms by simp
    from settle_waits [OF this] show ?thesis by blast
  qed
qed


section \<open>A demonstration\<close>

text \<open>Each controller waits five seconds for its own future and returns its value; two of the futures complete.\<close>

definition demo_world :: "(nat, int) world" where
  "demo_world = \<lparr>wd_clock = (\<lambda>_. 0),
     wd_yield = (\<lambda>t i r. case r of Wake \<Rightarrow> FutureWait i (Some 5) False | WakeValue v \<Rightarrow> Returned (v + int i) | WakeError e \<Rightarrow> Raised e),
     wd_check = (\<lambda>_ _. None), wd_arrivals = (\<lambda>_. [(0, Inr 100), (1, Inr 200)]), wd_pull = (\<lambda>_ _. Inr []), wd_limit = (\<lambda>_. Inr (PyInt 2)),
     wd_wait_for_change = (\<lambda>_. None)\<rparr>"

definition demo_waiting_world :: "(nat, int) world" where
  "demo_waiting_world = demo_world\<lparr>wd_arrivals := (\<lambda>_. [])\<rparr>"

definition demo_runtime :: "pynum \<Rightarrow> nat list \<Rightarrow> (nat, int) fiber_runtime res" where
  "demo_runtime interval items = new_runtime 10 (PyInt 64) (PyInt 64) interval (PyInt 1) 0 0 (PlainItems items False)"

lemma demo_run_shows: "case demo_runtime (PyInt 16) [8, 9] of Inl _ \<Rightarrow> False | Inr rt0 \<Rightarrow>
    (case pump_turn demo_world rt0 of (rt1, first) \<Rightarrow> first = Again \<and>
      (case pump_turn demo_world rt1 of (rt, second) \<Rightarrow> second = Finishes [100, 201] \<and> length (fr_states rt) = 2))"
  by code_simp


lemma demo_turn_shows: "case demo_runtime (PyInt 16) [8, 9] of Inl _ \<Rightarrow> False | Inr rt0 \<Rightarrow>
    (case pump_turn demo_waiting_world rt0 of (rt, ending) \<Rightarrow> ending = Waits 5 \<and> fr_active_count rt = 2 \<and> fr_first_error rt = None)"
  by code_simp

lemma demo_turn:
  obtains rt0 rt where "pump_reachable demo_waiting_world rt0" "pump_turn demo_waiting_world rt0 = (rt, Waits 5)" "fr_active_count rt = 2" "fr_first_error rt = None"
proof -
  obtain rt0 where rt0: "demo_runtime (PyInt 16) [8, 9] = Inr rt0" using demo_turn_shows by (auto split: sum.splits)
  obtain rt ending where t: "pump_turn demo_waiting_world rt0 = (rt, ending)" by (rule prod.exhaust)
  have "pump_reachable demo_waiting_world rt0" by (rule pump_reachable.created [OF rt0 [unfolded demo_runtime_def]])
  then show thesis using that demo_turn_shows rt0 t by simp
qed

theorem fibers_never_forgotten_witness:
  "\<exists>rt. pump_reachable demo_waiting_world rt \<and> card {i. live rt i} = 2 \<and> (\<forall>i. live rt i \<longrightarrow> wake_ok rt [] i)"
proof -
  obtain rt0 rt where d: "pump_reachable demo_waiting_world rt0" "pump_turn demo_waiting_world rt0 = (rt, Waits 5)" "fr_active_count rt = 2"
    by (rule demo_turn)
  have r: "pump_reachable demo_waiting_world rt" by (rule pump_reachable.turned [OF d(1,2)])
  have "card {i. live rt i} = 2 \<and> (\<forall>i. live rt i \<longrightarrow> wake_ok rt [] i)" using fibers_never_forgotten [OF r] d(3) by simp
  then show ?thesis using r by blast
qed


text \<open>
  Once a controller has failed, the pump does wait with ready fibers: of five controllers that wait for one future the
  first raises, and with one resumption per slice the pump then waits until the next poll while two of them are ready.
\<close>

definition demo_failing_world :: "(nat, int) world" where
  "demo_failing_world = demo_world\<lparr>wd_yield := (\<lambda>t i r. case r of Wake \<Rightarrow> FutureWait 7 None False
       | WakeValue v \<Rightarrow> if i = 0 then Raised (HandlerError ''first'') else Returned v | WakeError e \<Rightarrow> Raised e),
     wd_arrivals := (\<lambda>t. if t < 20 then [] else [(7, Inr 0)]), wd_limit := (\<lambda>_. Inr (PyInt 5))\<rparr>"

lemma failing_pump_waits_with_ready_fibers:
  "case demo_runtime (PyInt 1) [8, 9, 10, 11, 12] of Inl _ \<Rightarrow> False | Inr rt0 \<Rightarrow>
     (case pump_turn demo_failing_world rt0 of (rt1, first) \<Rightarrow> (case pump_turn demo_failing_world rt1 of (rt2, second) \<Rightarrow>
       first = Waits 10 \<and> second = Waits 10 \<and> fr_first_error rt2 = Some (HandlerError ''first'') \<and> map fst (fr_ready rt2) = [3, 4]))"
  by code_simp

end
