(* ===== verification/Json_Parse.thy ===== *)
theory Json_Parse
  imports Json_Text
begin

text \<open>
  Reading stored texts back: \<open>json.loads\<close> on texts built from strings, arrays and objects. A text with a number, a
  literal or an escape above 00ff is refused; every use in the modelled code refuses such a text at its next test. A
  repeated key of an object is kept here, and the canonical spelling the code compares with never has one. Proved:
  reading gives back exactly the value that was written, in both styles.
\<close>

section \<open>The reader\<close>

definition json_space :: "char \<Rightarrow> bool" where
  "json_space c \<longleftrightarrow> c = CHR 0x20 \<or> c = CHR 0x09 \<or> c = CHR 0x0A \<or> c = CHR 0x0D"

definition skip_ws :: "string \<Rightarrow> string" where
  "skip_ws s = dropWhile json_space s"

definition hex_value :: "char \<Rightarrow> nat option" where
  "hex_value c = (let n = of_char c :: nat in
     if 48 \<le> n \<and> n \<le> 57 then Some (n - 48)
     else if 97 \<le> n \<and> n \<le> 102 then Some (n - 87)
     else if 65 \<le> n \<and> n \<le> 70 then Some (n - 55) else None)"

definition json_escape :: "char \<Rightarrow> char option" where
  "json_escape e =
     (if e = quote_char \<or> e = backslash \<or> e = CHR ''/'' then Some e
      else if e = CHR ''b'' then Some (CHR 0x08)
      else if e = CHR ''f'' then Some (CHR 0x0C)
      else if e = CHR ''n'' then Some (CHR 0x0A)
      else if e = CHR ''r'' then Some (CHR 0x0D)
      else if e = CHR ''t'' then Some (CHR 0x09) else None)"

definition hex4 :: "char \<Rightarrow> char \<Rightarrow> char \<Rightarrow> char \<Rightarrow> char option" where
  "hex4 a b c d = (if hex_value a = Some 0 \<and> hex_value b = Some 0
     then (case hex_value c of None \<Rightarrow> None | Some m \<Rightarrow> (case hex_value d of None \<Rightarrow> None | Some n \<Rightarrow>
       Some (char_of (16 * m + n))))
     else None)"

definition prepend :: "'a \<Rightarrow> ('a list \<times> string) option \<Rightarrow> ('a list \<times> string) option" where
  "prepend x r = map_option (\<lambda>(xs, rest). (x # xs, rest)) r"

text \<open>The characters of a string up to its closing quote, and the text behind it.\<close>

fun scan_string :: "string \<Rightarrow> (string \<times> string) option" where
  "scan_string [] = None"
| "scan_string (c # s) =
     (if c = quote_char then Some ([], s)
      else if c = backslash then (case s of
          [] \<Rightarrow> None
        | e # s1 \<Rightarrow> if e = CHR ''u'' then (case s1 of
              h1 # h2 # h3 # h4 # s2 \<Rightarrow> (case hex4 h1 h2 h3 h4 of None \<Rightarrow> None | Some d \<Rightarrow> prepend d (scan_string s2))
            | _ \<Rightarrow> None)
          else (case json_escape e of None \<Rightarrow> None | Some d \<Rightarrow> prepend d (scan_string s1)))
      else if (of_char c :: nat) < 32 then None
      else prepend c (scan_string s))"

text \<open>The fuel bounds the nesting and the number of members; the length of the text is enough.\<close>

fun parse_value :: "nat \<Rightarrow> string \<Rightarrow> (json \<times> string) option"
  and parse_items :: "nat \<Rightarrow> string \<Rightarrow> (json list \<times> string) option"
  and parse_members :: "nat \<Rightarrow> string \<Rightarrow> ((string \<times> json) list \<times> string) option" where
  "parse_value 0 s = None"
| "parse_value (Suc n) s = (case s of
     [] \<Rightarrow> None
   | c # r \<Rightarrow>
       if c = quote_char then map_option (\<lambda>(x, rest). (JStr x, rest)) (scan_string r)
       else if c = CHR ''['' then
         (if skip_ws r \<noteq> [] \<and> hd (skip_ws r) = CHR '']'' then Some (JArr [], tl (skip_ws r))
          else map_option (\<lambda>(xs, rest). (JArr xs, rest)) (parse_items n (skip_ws r)))
       else if c = CHR ''{'' then
         (if skip_ws r \<noteq> [] \<and> hd (skip_ws r) = CHR ''}'' then Some (JObj [], tl (skip_ws r))
          else map_option (\<lambda>(xs, rest). (JObj xs, rest)) (parse_members n (skip_ws r)))
       else None)"
| "parse_items 0 s = None"
| "parse_items (Suc n) s = (case parse_value n s of
     None \<Rightarrow> None
   | Some (v, r) \<Rightarrow> (case skip_ws r of
       [] \<Rightarrow> None
     | c # r' \<Rightarrow> if c = CHR '']'' then Some ([v], r')
         else if c = CHR '','' then prepend v (parse_items n (skip_ws r')) else None))"
| "parse_members 0 s = None"
| "parse_members (Suc n) s = (case s of
     [] \<Rightarrow> None
   | q # s1 \<Rightarrow> if q \<noteq> quote_char then None else (case scan_string s1 of
       None \<Rightarrow> None
     | Some (k, s2) \<Rightarrow> (case skip_ws s2 of
         [] \<Rightarrow> None
       | c # s3 \<Rightarrow> if c \<noteq> CHR '':'' then None else (case parse_value n (skip_ws s3) of
           None \<Rightarrow> None
         | Some (v, r) \<Rightarrow> (case skip_ws r of
             [] \<Rightarrow> None
           | c' # r' \<Rightarrow> if c' = CHR ''}'' then Some ([(k, v)], r')
               else if c' = CHR '','' then prepend (k, v) (parse_members n (skip_ws r')) else None)))))"

definition json_loads :: "string \<Rightarrow> json res" where
  "json_loads s = (case parse_value (Suc (length s)) (skip_ws s) of
     None \<Rightarrow> Inl (ValueError ''Expecting value'')
   | Some (v, r) \<Rightarrow> if skip_ws r = [] then Inr v else Inl (ValueError ''Extra data''))"

section \<open>Reading what was written\<close>

lemma hex_value_hex_digit:
  assumes "n < 16" shows "hex_value (hex_digit n) = Some n"
proof -
  have "\<forall>n\<in>set [0..<16]. hex_value (hex_digit n) = Some n" by code_simp
  then show ?thesis using assms by simp
qed

lemma hex_digit_zero: "hex_value (CHR ''0'') = Some 0"
  by code_simp

lemma hex4_char: "hex4 (CHR ''0'') (CHR ''0'') (hex_digit (of_char c div 16)) (hex_digit (of_char c mod 16)) = Some c"
proof -
  have "char_of (16 * ((of_char c :: nat) div 16) + of_char c mod 16) = c" by (simp only: mult_div_mod_eq char_of_char)
  then show ?thesis
    by (simp add: hex4_def hex_digit_zero hex_value_hex_digit [OF of_char_div_16] hex_value_hex_digit [of "of_char c mod 16"])
qed

lemma scan_json_char:
  assumes "scan_string t = Some (x, r)"
  shows "scan_string (json_char b c @ t) = Some (c # x, r)"
proof -
  let ?u = "[backslash, CHR ''u'', CHR ''0'', CHR ''0'', hex_digit (of_char c div 16), hex_digit (of_char c mod 16)]"
  have "c \<in> {quote_char, backslash, CHR 0x0A, CHR 0x0D, CHR 0x09, CHR 0x0C, CHR 0x08} \<or> json_char b c = ?u \<or>
      json_char b c = [c] \<and> c \<noteq> quote_char \<and> c \<noteq> backslash \<and> \<not> (of_char c :: nat) < 32"
    by (auto simp: json_char_def Let_def)
  then consider "c = quote_char \<or> c = backslash" | "c = CHR 0x0A" | "c = CHR 0x0D" | "c = CHR 0x09" | "c = CHR 0x0C" | "c = CHR 0x08"
    | "json_char b c = [backslash, CHR ''u'', CHR ''0'', CHR ''0'', hex_digit (of_char c div 16), hex_digit (of_char c mod 16)]"
    | "json_char b c = [c]" "c \<noteq> quote_char" "c \<noteq> backslash" "\<not> (of_char c :: nat) < 32"
    by blast
  then show ?thesis
  proof cases
    case 7
    then show ?thesis using assms by (simp add: hex4_char prepend_def quote_char_def backslash_def)
  next
    case 8
    then show ?thesis using assms by (simp add: prepend_def)
  qed (use assms in \<open>auto simp: json_char_def json_escape_def prepend_def quote_char_def backslash_def\<close>)
qed

lemma scan_json_string: "scan_string (concat (map (json_char b) x) @ quote_char # r) = Some (x, r)"
proof (induction x)
  case (Cons c x)
  then show ?case using scan_json_char [OF Cons.IH, of b c] by simp
qed simp

definition written_style :: "json_style \<Rightarrow> bool" where
  "written_style st \<longleftrightarrow> st = default_style \<or> st = compact_style"

lemma json_dumps_starts: "\<exists>c s. json_dumps st v = c # s \<and> \<not> json_space c \<and> c \<noteq> CHR '']'' \<and> c \<noteq> CHR ''}''"
  by (cases v) (auto simp: json_string_def json_space_def quote_char_def)

lemma skip_ws_dumps: "skip_ws (json_dumps st v @ r) = json_dumps st v @ r"
  using json_dumps_starts [of st v] by (auto simp: skip_ws_def)

lemma skip_ws_quote: "skip_ws (quote_char # r) = quote_char # r"
  by (simp add: skip_ws_def json_space_def quote_char_def)

lemma skip_ws_close [simp]:
  "skip_ws (CHR '']'' # r) = CHR '']'' # r" "skip_ws (CHR ''}'' # r) = CHR ''}'' # r"
  "skip_ws (CHR '','' # r) = CHR '','' # r" "skip_ws (CHR '':'' # r) = CHR '':'' # r"
  by (simp_all add: skip_ws_def json_space_def)

lemma written_item_sep: "written_style st \<Longrightarrow> \<exists>w. item_sep st = CHR '','' # w \<and> (\<forall>s. skip_ws (w @ s) = skip_ws s)"
  by (auto simp: written_style_def default_style_def compact_style_def skip_ws_def json_space_def)

lemma written_key_sep: "written_style st \<Longrightarrow> \<exists>w. key_sep st = CHR '':'' # w \<and> (\<forall>s. skip_ws (w @ s) = skip_ws s)"
  by (auto simp: written_style_def default_style_def compact_style_def skip_ws_def json_space_def)

text \<open>The text of a list of members, behind the opening bracket.\<close>

lemma json_join_Cons: "json_join sep (x # xs) = x @ (if xs = [] then [] else sep @ json_join sep xs)"
  by (cases xs) simp_all

lemma parse_items_join:
  assumes st: "written_style st" and vs: "vs \<noteq> []"
    and one: "\<And>v m r. v \<in> set vs \<Longrightarrow> length (json_dumps st v) \<le> m \<Longrightarrow> parse_value m (json_dumps st v @ r) = Some (v, r)"
    and fuel: "length (json_join (item_sep st) (map (json_dumps st) vs)) < n"
  shows "parse_items n (json_join (item_sep st) (map (json_dumps st) vs) @ CHR '']'' # r) = Some (vs, r)"
  using vs one fuel
proof (induction vs arbitrary: n)
  case (Cons v vs)
  obtain m where n: "n = Suc m" using Cons.prems(3) by (cases n) auto
  have len: "length (json_dumps st v) \<le> m" using Cons.prems(3) n by (simp add: json_join_Cons)
  have v: "parse_value m (json_dumps st v @ t) = Some (v, t)" for t using Cons.prems(2) [of v m t] len by simp
  show ?case
  proof (cases "vs = []")
    case True
    then show ?thesis using v n by simp
  next
    case False
    obtain w where w: "item_sep st = CHR '','' # w" "\<And>s. skip_ws (w @ s) = skip_ws s" using written_item_sep [OF st] by auto
    let ?rest = "json_join (item_sep st) (map (json_dumps st) vs)"
    have "length ?rest < m" using Cons.prems(3) n False w(1) by (simp add: json_join_Cons)
    then have IH: "parse_items m (?rest @ CHR '']'' # r) = Some (vs, r)" using Cons.IH [OF False] Cons.prems(2) by simp
    have "skip_ws (?rest @ CHR '']'' # r) = ?rest @ CHR '']'' # r"
      using False skip_ws_dumps [of st "hd vs"] by (cases vs) (simp_all add: json_join_Cons)
    then show ?thesis using v n IH False w by (simp add: json_join_Cons prepend_def)
  qed
qed simp

lemma parse_members_join:
  assumes st: "written_style st" and kvs: "kvs \<noteq> []"
    and one: "\<And>k v m r. (k, v) \<in> set kvs \<Longrightarrow> length (json_dumps st v) \<le> m \<Longrightarrow> parse_value m (json_dumps st v @ r) = Some (v, r)"
    and fuel: "length (json_join (item_sep st)
      (map (\<lambda>(k, v). json_string (ensure_ascii st) k @ key_sep st @ json_dumps st v) kvs)) < n"
  shows "parse_members n (json_join (item_sep st)
      (map (\<lambda>(k, v). json_string (ensure_ascii st) k @ key_sep st @ json_dumps st v) kvs) @ CHR ''}'' # r) = Some (kvs, r)"
  using kvs one fuel
proof (induction kvs arbitrary: n)
  case (Cons kv kvs)
  let ?f = "\<lambda>(k, v). json_string (ensure_ascii st) k @ key_sep st @ json_dumps st v"
  let ?rest = "json_join (item_sep st) (map ?f kvs)"
  obtain k v where kv: "kv = (k, v)" by (cases kv)
  obtain m where n: "n = Suc m" using Cons.prems(3) by (cases n) auto
  obtain x where x: "key_sep st = CHR '':'' # x" "\<And>s. skip_ws (x @ s) = skip_ws s" using written_key_sep [OF st] by auto
  have len: "length (json_dumps st v) \<le> m" using Cons.prems(3) n kv by (simp add: json_join_Cons)
  have v: "parse_value m (json_dumps st v @ t) = Some (v, t)" for t using Cons.prems(2) [of k v m t] len kv by simp
  have key: "scan_string (concat (map (json_char (ensure_ascii st)) k) @ quote_char # t) = Some (k, t)" for t
    by (rule scan_json_string)
  show ?case
  proof (cases "kvs = []")
    case True
    then show ?thesis using v [of "CHR ''}'' # r"] n kv key x skip_ws_dumps [of st v "CHR ''}'' # r"]
      by (simp add: json_string_def)
  next
    case False
    obtain w where w: "item_sep st = CHR '','' # w" "\<And>s. skip_ws (w @ s) = skip_ws s" using written_item_sep [OF st] by auto
    have "length ?rest < m" using Cons.prems(3) n False w(1) kv by (simp add: json_join_Cons)
    moreover have "parse_value i (json_dumps st v @ t) = Some (v, t)" if "(k, v) \<in> set kvs" "length (json_dumps st v) \<le> i" for k v i t
      using that by (intro Cons.prems(2) [of k]) simp_all
    ultimately have IH: "parse_members m (?rest @ CHR ''}'' # r) = Some (kvs, r)" by (intro Cons.IH [OF False])
    have "skip_ws (?rest @ CHR ''}'' # r) = ?rest @ CHR ''}'' # r"
      using False skip_ws_quote by (cases kvs) (auto simp: json_join_Cons json_string_def case_prod_unfold)
    then show ?thesis using v [of "CHR '','' # w @ ?rest @ CHR ''}'' # r"] n kv key x IH False w
        skip_ws_dumps [of st v "CHR '','' # w @ ?rest @ CHR ''}'' # r"]
      by (simp add: json_join_Cons json_string_def prepend_def)
  qed
qed simp

lemma parse_dumps:
  assumes st: "written_style st"
  shows "length (json_dumps st v) \<le> n \<Longrightarrow> parse_value n (json_dumps st v @ r) = Some (v, r)"
proof (induction v arbitrary: n r)
  case (JStr x)
  then obtain m where "n = Suc m" by (cases n) (auto simp: json_string_def)
  then show ?case using scan_json_string [of "ensure_ascii st" x r] by (simp add: json_string_def)
next
  case (JArr vs)
  then obtain m where n: "n = Suc m" by (cases n) auto
  show ?case
  proof (cases "vs = []")
    case False
    let ?t = "json_join (item_sep st) (map (json_dumps st) vs)"
    have "length ?t < m" using JArr.prems n by simp
    then have items: "parse_items m (?t @ CHR '']'' # r) = Some (vs, r)"
      using parse_items_join [OF st False] JArr.IH by simp
    obtain a vs' where vs: "vs = a # vs'" using False by (cases vs) auto
    obtain c s where c: "json_dumps st a = c # s" "\<not> json_space c" "c \<noteq> CHR '']''" using json_dumps_starts [of st a] by auto
    have "skip_ws (?t @ CHR '']'' # r) = ?t @ CHR '']'' # r \<and> hd (?t @ CHR '']'' # r) \<noteq> CHR '']''"
      using vs c skip_ws_dumps [of st a] by (simp add: json_join_Cons skip_ws_def)
    then show ?thesis using n items by (simp add: quote_char_def)
  qed (simp add: n quote_char_def)
next
  case (JObj kvs)
  then obtain m where n: "n = Suc m" by (cases n) auto
  show ?case
  proof (cases "kvs = []")
    case False
    let ?f = "\<lambda>(k, v). json_string (ensure_ascii st) k @ key_sep st @ json_dumps st v"
    let ?t = "json_join (item_sep st) (map ?f kvs)"
    have len: "length ?t < m" using JObj.prems n by simp
    have "parse_value i (json_dumps st v @ t) = Some (v, t)" if "(k, v) \<in> set kvs" "length (json_dumps st v) \<le> i" for k v i t
      using JObj.IH [of "(k, v)" v] that by simp
    then have items: "parse_members m (?t @ CHR ''}'' # r) = Some (kvs, r)"
      using parse_members_join [OF st False _ len] by blast
    have "skip_ws (?t @ CHR ''}'' # r) = ?t @ CHR ''}'' # r \<and> hd (?t @ CHR ''}'' # r) \<noteq> CHR ''}''"
      using False skip_ws_quote by (cases kvs) (auto simp: json_join_Cons json_string_def quote_char_def case_prod_unfold)
    then show ?thesis using n items by (simp add: quote_char_def)
  qed (simp add: n quote_char_def)
qed

theorem json_loads_dumps: "written_style st \<Longrightarrow> json_loads (json_dumps st v) = Inr v"
  using parse_dumps [of st v "Suc (length (json_dumps st v))" "[]"] skip_ws_dumps [of st v "[]"]
  by (simp add: json_loads_def skip_ws_def)

end
