(* ===== verification/Component_Shapes.thy ===== *)
theory Component_Shapes
  imports Topology Json_Parse
begin

text \<open>
  Stored component identities (\<open>component_identity.py\<close>) and stored graph shapes
  (\<open>storage/component_definitions.py\<close>): the texts in the database, read back. Proved: a stored key gives back its
  members, a stored shape gives back the components of the topology it was made from, and whatever
  \<open>component_snapshot_from_shape\<close> accepts is a canonical shape with a partition of its nodes.
\<close>

section \<open>Component keys\<close>

text \<open>\<open>tuple(json.loads(value))\<close>: the items of an array, the characters of a string, the keys of an object.\<close>

definition decode_component_key :: "string \<Rightarrow> json list res" where
  "decode_component_key raw = res_bind (json_loads raw) (\<lambda>v. case v of
     JArr xs \<Rightarrow> Inr xs
   | JStr s \<Rightarrow> Inr (map (\<lambda>c. JStr [c]) s)
   | JObj kvs \<Rightarrow> Inr (map JStr (rev (remdups (rev (map fst kvs))))))"

theorem decode_encode_component_key:
  "decode_component_key (encode_component_key c) = Inr (map JStr (component_key c))"
  unfolding decode_component_key_def encode_component_key_def
  by (subst json_loads_dumps) (simp_all add: written_style_def)

section \<open>Graph shapes\<close>

definition is_array :: "json \<Rightarrow> bool" where
  "is_array v = (case v of JArr _ \<Rightarrow> True | _ \<Rightarrow> False)"

definition array_items :: "json \<Rightarrow> json list" where
  "array_items v = (case v of JArr xs \<Rightarrow> xs | _ \<Rightarrow> [])"

definition shape_node :: "json \<Rightarrow> node_name res" where
  "shape_node v = (case v of JStr s \<Rightarrow> validate_node_name s | _ \<Rightarrow> Inl (ValueError ''Invalid node name''))"

definition shape_edge :: "node_name list \<Rightarrow> json \<Rightarrow> (node_name \<times> node_name) res" where
  "shape_edge nodes v = (case v of
     JArr [JStr a, JStr b] \<Rightarrow> if a \<in> set nodes \<and> b \<in> set nodes then Inr (a, b) else Inl (ValueError ''Invalid graph shape edge'')
   | _ \<Rightarrow> Inl (ValueError ''Invalid graph shape edge''))"

text \<open>The body of the \<open>try\<close> block; a repeated key of the object keeps its last value.\<close>

definition decode_shape :: "networkx_api \<Rightarrow> string \<Rightarrow> topology_snapshot res" where
  "decode_shape nx raw = res_bind (json_loads raw) (\<lambda>v. case v of
     JObj kvs \<Rightarrow>
       let field = (\<lambda>name. the (map_of (rev kvs) name)) in
       res_bind (raise_if (set (map fst kvs) \<noteq> {''nodes'', ''edges'', ''autostart_edges''})
         (ValueError ''Invalid graph shape collections'')) (\<lambda>_.
       res_bind (raise_if (\<not> (is_array (field ''nodes'') \<and> is_array (field ''edges'') \<and> is_array (field ''autostart_edges'')))
         (ValueError ''Graph shape collections must be lists'')) (\<lambda>_.
       res_bind (res_map shape_node (array_items (field ''nodes''))) (\<lambda>nodes.
       res_bind (res_map (shape_edge nodes) (array_items (field ''edges''))) (\<lambda>edges.
       res_bind (res_map (shape_edge nodes) (array_items (field ''autostart_edges''))) (\<lambda>autostart.
       let graph = foldl (\<lambda>g (u, w). add_edge g u w) (foldl add_node empty_digraph nodes) edges;
           s = snapshot nx \<lparr>graph_obj = graph, autostart_edges = autostart\<rparr> in
       if shape_json s \<noteq> raw then Inl (ValueError ''Graph shape must be canonical'') else Inr s)))))
   | _ \<Rightarrow> Inl (ValueError ''Invalid graph shape collections''))"

definition component_snapshot_from_shape :: "networkx_api \<Rightarrow> string \<Rightarrow> topology_snapshot res" where
  "component_snapshot_from_shape nx raw = (case decode_shape nx raw of
     Inl (ValueError _) \<Rightarrow> Inl (ValueError ''Invalid producing graph shape'')
   | Inl (TypeError _) \<Rightarrow> Inl (ValueError ''Invalid producing graph shape'')
   | r \<Rightarrow> r)"

section \<open>What a shape stands for\<close>

lemma foldl_add_nodes:
  "wf_digraph g \<Longrightarrow> wf_digraph (foldl add_node g ns) \<and> set (dnodes (foldl add_node g ns)) = set (dnodes g) \<union> set ns \<and>
    dedges (foldl add_node g ns) = dedges g"
  by (induction ns arbitrary: g) (auto simp: digraph_simps)

lemma foldl_add_edges:
  "wf_digraph g \<Longrightarrow> set es \<subseteq> set (dnodes g) \<times> set (dnodes g) \<Longrightarrow>
    wf_digraph (foldl (\<lambda>g (u, w). add_edge g u w) g es) \<and>
    set (dnodes (foldl (\<lambda>g (u, w). add_edge g u w) g es)) = set (dnodes g) \<and>
    set (dedges (foldl (\<lambda>g (u, w). add_edge g u w) g es)) = set (dedges g) \<union> set es"
proof (induction es arbitrary: g)
  case (Cons e es)
  obtain u w where e: "e = (u, w)" by force
  have n: "set (dnodes (add_edge g u w)) = set (dnodes g)" using Cons.prems(2) e by (auto simp: digraph_simps)
  have "set es \<subseteq> set (dnodes (add_edge g u w)) \<times> set (dnodes (add_edge g u w))" using Cons.prems(2) n by auto
  from Cons.IH [OF wf_add_edge [OF Cons.prems(1)] this] show ?case using n e by (auto simp: digraph_simps)
qed simp

text \<open>Two descriptions of the same topology have the same components.\<close>

definition same_topology :: "topology \<Rightarrow> topology \<Rightarrow> bool" where
  "same_topology t t' \<longleftrightarrow> nodes_of t = nodes_of t' \<and> raw_edges t = raw_edges t' \<and>
     set (autostart_edges t) \<inter> raw_edges t = set (autostart_edges t') \<inter> raw_edges t'"

lemma same_topology_hedges:
  "wf_topology t \<Longrightarrow> wf_topology t' \<Longrightarrow> same_topology t t' \<Longrightarrow> hedges t = hedges t'"
  unfolding same_topology_def by (simp add: dedges_hoeflein_graph) blast

text \<open>What \<open>component_snapshot_from_shape\<close> accepts.\<close>

definition wf_snapshot :: "topology_snapshot \<Rightarrow> bool" where
  "wf_snapshot s \<longleftrightarrow> sorted (snapshot_components s) \<and> distinct (snapshot_components s) \<and>
     (\<forall>c\<in>set (snapshot_components s). c \<noteq> [] \<and> sorted c \<and> distinct c \<and> (\<forall>n\<in>set c. validate_node_name n = Inr n)) \<and>
     (\<forall>c\<in>set (snapshot_components s). \<forall>d\<in>set (snapshot_components s). c \<noteq> d \<longrightarrow> set c \<inter> set d = {})"

context networkx
begin

lemma snapshot_components_set:
  "wf_topology t \<Longrightarrow> set (snapshot_components (snapshot nx t)) = component_id nx t ` nodes_of t"
  using component_keys_eq by (simp add: snapshot_def)

lemma snapshot_components_distinct: "wf_topology t \<Longrightarrow> distinct (snapshot_components (snapshot nx t))"
proof -
  assume wf: "wf_topology t"
  have "distinct (hoeflein_components nx t)"
    unfolding hoeflein_components_def by (rule scc_distinct [OF wf_hoeflein_graph [OF wf]])
  moreover have "inj_on component_key (comps t)" using component_key_inj [OF wf] by (auto simp: inj_on_def)
  ultimately show ?thesis by (simp add: snapshot_def distinct_map)
qed

lemma same_topology_snapshot:
  assumes "wf_topology t" and "wf_topology t'" and "same_topology t t'"
  shows "snapshot nx t = snapshot nx t'"
proof -
  have scc: "scc_of (hoeflein_graph t) v = scc_of (hoeflein_graph t') v" for v
    using same_topology_hedges [OF assms] assms by (simp add: scc_of_def dnodes_hoeflein_graph same_topology_def)
  have "component_id nx t v = component_id nx t' v" if "v \<in> nodes_of t" for v
    using that assms scc by (simp add: component_id_def component_for_scc same_topology_def)
  then have "set (snapshot_components (snapshot nx t)) = set (snapshot_components (snapshot nx t'))"
    using assms by (simp add: snapshot_components_set same_topology_def)
  then have "snapshot_components (snapshot nx t) = snapshot_components (snapshot nx t')"
    by (rule sorted_distinct_set_unique [rotated -1])
      (use snapshot_components_distinct [OF assms(1)] snapshot_components_distinct [OF assms(2)] in \<open>simp_all add: snapshot_def\<close>)
  moreover have "graph_shape t = graph_shape t'"
    using graph_shape_identifies [OF assms(1,2)] assms(3) by (auto simp: same_topology_def)
  ultimately show ?thesis by (simp add: snapshot_def)
qed

lemma wf_snapshot_snapshot:
  assumes wf: "wf_topology t" and names: "\<forall>n\<in>nodes_of t. validate_node_name n = Inr n"
  shows "wf_snapshot (snapshot nx t)"
proof -
  have key: "\<exists>d\<in>comps t. c = component_key d \<and> set c = d" if "c \<in> set (snapshot_components (snapshot nx t))" for c
    using that set_component_key [OF wf] by (auto simp: snapshot_def)
  have "c \<noteq> [] \<and> sorted c \<and> distinct c \<and> (\<forall>n\<in>set c. validate_node_name n = Inr n)"
    if c: "c \<in> set (snapshot_components (snapshot nx t))" for c
  proof -
    obtain d where d: "d \<in> comps t" "c = component_key d" "set c = d" using key [OF c] by blast
    have "set c \<noteq> {}" "set c \<subseteq> nodes_of t" using comps_nonempty [OF wf d(1)] comps_subset [OF wf d(1)] d(3) by auto
    then show ?thesis using d(2) names by (auto simp: component_key_def)
  qed
  moreover have "set c \<inter> set d = {}"
    if cd: "c \<in> set (snapshot_components (snapshot nx t))" "d \<in> set (snapshot_components (snapshot nx t))" "c \<noteq> d" for c d
  proof -
    obtain c' d' where k: "c' \<in> comps t" "d' \<in> comps t" "c = component_key c'" "d = component_key d'" "set c = c'" "set d = d'"
      using key [OF cd(1)] key [OF cd(2)] by blast
    then have "c' \<noteq> d'" using cd(3) by auto
    then show ?thesis using comps_unique [OF wf k(1,2)] k(5,6) by blast
  qed
  moreover have "sorted (snapshot_components (snapshot nx t))" by (simp add: snapshot_def)
  ultimately show ?thesis using snapshot_components_distinct [OF wf] unfolding wf_snapshot_def by blast
qed

end

section \<open>Reading stored shapes\<close>

lemma shape_node_Inr: "shape_node v = Inr n \<Longrightarrow> v = JStr n \<and> validate_node_name n = Inr n"
  by (cases v) (auto simp: shape_node_def dest: validate_node_name_Inr)

lemma shape_edge_Inr: "shape_edge nodes v = Inr e \<Longrightarrow> fst e \<in> set nodes \<and> snd e \<in> set nodes"
  by (auto simp: shape_edge_def split: json.splits list.splits if_splits)

lemma decode_shape_accepts:
  assumes "decode_shape nx raw = Inr s"
  shows "shape_json s = raw \<and> (\<exists>t. s = snapshot nx t \<and> wf_topology t \<and> (\<forall>n\<in>nodes_of t. validate_node_name n = Inr n))"
proof -
  obtain kvs where v: "json_loads raw = Inr (JObj kvs)"
  proof (cases "json_loads raw")
    case (Inr v)
    then show ?thesis using assms that by (cases v) (auto simp: decode_shape_def)
  qed (use assms in \<open>simp add: decode_shape_def\<close>)
  let ?f = "\<lambda>name. the (map_of (rev kvs) name)"
  obtain nodes edges autostart where r: "res_map shape_node (array_items (?f ''nodes'')) = Inr nodes"
    "res_map (shape_edge nodes) (array_items (?f ''edges'')) = Inr edges"
    and s: "s = snapshot nx \<lparr>graph_obj = foldl (\<lambda>g (u, w). add_edge g u w) (foldl add_node empty_digraph nodes) edges,
        autostart_edges = autostart\<rparr>" "shape_json s = raw"
    using assms unfolding decode_shape_def v by (auto simp: Let_def res_bind_eq_Inr split: if_splits)
  let ?t = "\<lparr>graph_obj = foldl (\<lambda>g (u, w). add_edge g u w) (foldl add_node empty_digraph nodes) edges,
        autostart_edges = autostart\<rparr>"
  have names: "\<forall>n\<in>set nodes. validate_node_name n = Inr n" using res_map_set [OF r(1)] shape_node_Inr by blast
  have sub: "set edges \<subseteq> set nodes \<times> set nodes" using res_map_set [OF r(2)] shape_edge_Inr by (auto simp: mem_Times_iff)
  note n = foldl_add_nodes [OF wf_empty_digraph, of nodes]
  have dn: "set (dnodes (foldl add_node empty_digraph nodes)) = set nodes" using n by (simp add: digraph_simps)
  note e = foldl_add_edges [OF conjunct1 [OF n], of edges]
  have "wf_topology ?t" "nodes_of ?t = set nodes" using e sub dn by (simp_all add: wf_topology_def)
  then have "s = snapshot nx ?t \<and> wf_topology ?t \<and> (\<forall>n\<in>nodes_of ?t. validate_node_name n = Inr n)" using s(1) names by simp
  then show ?thesis using s(2) by blast
qed

lemma component_snapshot_Inr:
  "component_snapshot_from_shape nx raw = Inr s \<longleftrightarrow> decode_shape nx raw = Inr s"
  by (auto simp: component_snapshot_from_shape_def split: sum.splits exn.splits)

lemma accepted_shape_wf:
  assumes "networkx nx" and "component_snapshot_from_shape nx raw = Inr s"
  shows "wf_snapshot s \<and> shape_json s = raw"
  using decode_shape_accepts [of nx raw s] networkx.wf_snapshot_snapshot [OF assms(1)] assms(2)
  unfolding component_snapshot_Inr by blast

lemma res_map_shape_node:
  "\<forall>n\<in>set ns. validate_node_name n = Inr n \<Longrightarrow> res_map shape_node (map JStr ns) = Inr ns"
  by (induction ns) (auto simp: shape_node_def)

lemma res_map_shape_edge:
  "set es \<subseteq> set ns \<times> set ns \<Longrightarrow> res_map (shape_edge ns) (map (\<lambda>(a, b). JArr [JStr a, JStr b]) es) = Inr es"
  by (induction es) (auto simp: shape_edge_def)

lemma shape_reads_back:
  assumes nx: "networkx nx" and wf: "wf_topology t" and names: "\<forall>n\<in>nodes_of t. validate_node_name n = Inr n"
  shows "component_snapshot_from_shape nx (graph_shape t) = Inr (snapshot nx t)"
proof -
  let ?ns = "sort (dnodes (graph_obj t))" and ?es = "sort (dedges (graph_obj t))"
  let ?as = "sorted_set (filter (\<lambda>(start, end). has_edge (graph_obj t) start end) (autostart_edges t))"
  let ?pair = "\<lambda>(a, b). JArr [JStr a, JStr b]"
  let ?kvs = "[(''nodes'', JArr (map JStr ?ns)), (''edges'', JArr (map ?pair ?es)), (''autostart_edges'', JArr (map ?pair ?as))]"
  let ?t = "\<lparr>graph_obj = foldl (\<lambda>g (u, w). add_edge g u w) (foldl add_node empty_digraph ?ns) ?es, autostart_edges = ?as\<rparr>"
  have loads: "json_loads (graph_shape t) = Inr (JObj ?kvs)"
    unfolding graph_shape_def by (rule json_loads_dumps) (simp add: written_style_def)
  have es: "set ?es \<subseteq> set ?ns \<times> set ?ns" using wf by (auto simp: wf_topology_def dest: wf_digraph_edgeD)
  have as: "set ?as \<subseteq> set ?ns \<times> set ?ns" using es by (auto simp: has_edge_def)
  note n = foldl_add_nodes [OF wf_empty_digraph, of ?ns]
  have dn: "set (dnodes (foldl add_node empty_digraph ?ns)) = nodes_of t" using n by (simp add: digraph_simps)
  have e: "wf_topology ?t" "nodes_of ?t = nodes_of t" "raw_edges ?t = raw_edges t"
    using foldl_add_edges [OF conjunct1 [OF n], of ?es] es n dn by (simp_all add: wf_topology_def digraph_simps)
  have "same_topology ?t t" using e(2,3) by (auto simp: same_topology_def has_edge_def)
  then have snap: "snapshot nx ?t = snapshot nx t" by (rule networkx.same_topology_snapshot [OF nx e(1) wf])
  have keys: "set (map fst ?kvs) = {''nodes'', ''edges'', ''autostart_edges''}" by simp
  have fields: "the (map_of (rev ?kvs) ''nodes'') = JArr (map JStr ?ns)" "the (map_of (rev ?kvs) ''edges'') = JArr (map ?pair ?es)"
    "the (map_of (rev ?kvs) ''autostart_edges'') = JArr (map ?pair ?as)" by simp_all
  have nodes: "res_map shape_node (array_items (JArr (map JStr ?ns))) = Inr ?ns"
    using res_map_shape_node [of ?ns] names by (simp add: array_items_def)
  have edges: "res_map (shape_edge ?ns) (array_items (JArr (map ?pair ?es))) = Inr ?es"
    "res_map (shape_edge ?ns) (array_items (JArr (map ?pair ?as))) = Inr ?as"
    using res_map_shape_edge [OF es] res_map_shape_edge [OF as] by (simp_all add: array_items_def)
  have shape: "shape_json (snapshot nx t) = graph_shape t" by (simp add: snapshot_def)
  have "decode_shape nx (graph_shape t) = Inr (snapshot nx t)"
    unfolding decode_shape_def loads
    by (simp only: res_bind_Inr json.case keys fields Let_def nodes edges snap shape is_array_def simp_thms raise_if_simps if_False)
  then show ?thesis by (simp add: component_snapshot_Inr)
qed

section \<open>Properties\<close>

text \<open>
  C17. Stored component keys round-trip: reading the stored spelling of a finite member set gives back exactly its
  members, each once and in order; so two sets with the same stored key are equal.
\<close>

theorem stored_key_reads_back:
  assumes "finite c"
  shows "\<exists>ns. decode_component_key (encode_component_key c) = Inr (map JStr ns) \<and> sorted ns \<and> distinct ns \<and> set ns = c"
proof -
  have "sorted (component_key c) \<and> distinct (component_key c) \<and> set (component_key c) = c"
    using assms by (simp add: component_key_def)
  then show ?thesis using decode_encode_component_key [of c] by blast
qed

theorem stored_key_reads_back_witness:
  "\<exists>ns. decode_component_key (encode_component_key {''b'', ''a''}) = Inr (map JStr ns) \<and> set ns = {''a'', ''b''}"
proof -
  have "finite {''b'', ''a''}" by simp
  from stored_key_reads_back [OF this] show ?thesis by auto
qed

text \<open>
  C16. Stored graph shapes round-trip: the text recorded for a topology with safe node names reads back as exactly
  its snapshot, the components included. The reader accepts no other text: whatever it accepts is the canonical
  text of some topology, and its components are a sorted partition of safe node names.
\<close>

theorem stored_shape_reads_back:
  assumes "networkx nx"
  shows "(\<forall>t. wf_topology t \<and> (\<forall>n\<in>nodes_of t. validate_node_name n = Inr n) \<longrightarrow>
       component_snapshot_from_shape nx (graph_shape t) = Inr (snapshot nx t)) \<and>
     (\<forall>raw s. component_snapshot_from_shape nx raw = Inr s \<longrightarrow> wf_snapshot s \<and> shape_json s = raw \<and>
       (\<exists>t. wf_topology t \<and> raw = graph_shape t \<and> s = snapshot nx t))"
proof -
  have "wf_snapshot s \<and> shape_json s = raw \<and> (\<exists>t. wf_topology t \<and> raw = graph_shape t \<and> s = snapshot nx t)"
    if "component_snapshot_from_shape nx raw = Inr s" for raw s
    using accepted_shape_wf [OF assms that] decode_shape_accepts [of nx raw s] that
    by (auto simp: component_snapshot_Inr snapshot_def)
  then show ?thesis using shape_reads_back [OF assms] by blast
qed

theorem stored_shape_reads_back_witness:
  "component_snapshot_from_shape ref_networkx (graph_shape demo_topology) = Inr (snapshot ref_networkx demo_topology) \<and>
   snapshot_components (snapshot ref_networkx demo_topology) = [[''a''], [''b'', ''c''], [''d'']]"
proof -
  have "\<forall>n\<in>nodes_of demo_topology. validate_node_name n = Inr n" by code_simp
  moreover have "snapshot_components (snapshot ref_networkx demo_topology) = [[''a''], [''b'', ''c''], [''d'']]" by code_simp
  ultimately show ?thesis using stored_shape_reads_back [OF refnx.networkx_axioms] wf_demo_topology by blast
qed

end
