(* ===== verification/Component_Membership.thy ===== *)
theory Component_Membership
  imports Component_Shapes
begin

text \<open>
  Active component memberships (\<open>storage/component_membership.py\<close>, \<open>storage/membership_retirement.py\<close>): the tables
  that record which components are established, their reading with every refusal, the observation of a change of
  membership as a closed region of overlapping memberships, and the replacement of that region in one transaction. A
  row is a tuple of its columns; the primary keys of the tables are enforced by the statements that insert.
\<close>

section \<open>Members and partitions\<close>

text \<open>\<open>_members\<close> and \<open>_ordered_components\<close>; the label is left out of the message.\<close>

definition members_of :: "node_name list \<Rightarrow> component res" where
  "members_of supplied =
     (if supplied = [] then Inl (ValueError ''must contain raw-node names'')
      else res_bind (res_map validate_node_name supplied) (\<lambda>_.
        let normalized = component_key (set supplied) in
        if length normalized \<noteq> length supplied then Inl (ValueError ''contains duplicate raw-node names'')
        else Inr normalized))"

definition ordered_components :: "node_name list list \<Rightarrow> component list res" where
  "ordered_components vals = res_bind (res_map members_of vals) (\<lambda>result.
     if \<not> distinct result then Inl (ValueError ''contains duplicate components'') else Inr result)"

record active_component =
  ac_members :: component
  ac_established :: int

record active_partition =
  pt_revision :: int
  pt_components :: "active_component list"

definition active_component_of :: "node_name list \<Rightarrow> int \<Rightarrow> active_component res" where
  "active_component_of supplied established = res_bind (members_of supplied) (\<lambda>members.
     if established < 0 then Inl (ValueError ''Established revision must be a nonnegative integer'')
     else Inr \<lparr>ac_members = members, ac_established = established\<rparr>)"

fun check_claims :: "int \<Rightarrow> node_name set \<Rightarrow> active_component list \<Rightarrow> unit res" where
  "check_claims revision claimed [] = Inr ()"
| "check_claims revision claimed (item # items) =
     (if ac_established item > revision then Inl (ValueError ''Active component was established after the partition revision'')
      else if claimed \<inter> set (ac_members item) \<noteq> {} then Inl (ValueError ''Active components overlap'')
      else check_claims revision (claimed \<union> set (ac_members item)) items)"

definition active_component_partition :: "int \<Rightarrow> active_component list \<Rightarrow> active_partition res" where
  "active_component_partition revision items =
     (if revision < 0 then Inl (ValueError ''Membership revision must be a nonnegative integer'')
      else let components = sort_key ac_members items in
        if \<not> distinct (map ac_members components) then Inl (ValueError ''Active partition contains a duplicate component'')
        else res_bind (check_claims revision {} components) (\<lambda>_.
          Inr \<lparr>pt_revision = revision, pt_components = components\<rparr>))"

section \<open>The tables\<close>

text \<open>\<open>component_partition_state\<close>, \<open>active_components\<close> and \<open>active_component_members\<close>.\<close>

record membership_tables =
  mt_state :: "(int \<times> int) list"
  mt_components :: "(string \<times> int) list"
  mt_members :: "(string \<times> string) list"

definition read_partition_revision :: "membership_tables \<Rightarrow> int option res" where
  "read_partition_revision mt = (case mt_state mt of
     [] \<Rightarrow> if mt_components mt \<noteq> [] \<or> mt_members mt \<noteq> [] then Inl (RuntimeError ''Active membership rows have no partition state'')
          else Inr None
   | (singleton, revision) # rest \<Rightarrow>
       if rest \<noteq> [] \<or> singleton \<noteq> 1 then Inl (RuntimeError ''Invalid component partition state'')
       else if revision < 0 then Inl (RuntimeError ''Invalid component partition revision'')
       else Inr (Some revision))"

definition json_names :: "json list \<Rightarrow> node_name list option" where
  "json_names vs = (if \<forall>v\<in>set vs. case v of JStr _ \<Rightarrow> True | _ \<Rightarrow> False
     then Some (map (\<lambda>v. case v of JStr s \<Rightarrow> s | _ \<Rightarrow> []) vs) else None)"

definition stored_members :: "string \<Rightarrow> component res" where
  "stored_members key = (case res_bind (decode_component_key key) (\<lambda>vs. case json_names vs of
       None \<Rightarrow> Inl (ValueError ''must contain raw-node names'') | Some ns \<Rightarrow> members_of ns) of
     Inl _ \<Rightarrow> Inl (RuntimeError ''Invalid stored active component'') | Inr members \<Rightarrow> Inr members)"

definition decode_active_component :: "membership_tables \<Rightarrow> string \<times> int \<Rightarrow> int \<Rightarrow> active_component res" where
  "decode_active_component mt row revision = (case row of (key, established) \<Rightarrow>
     res_bind (stored_members key) (\<lambda>members.
     res_bind (raise_if (encode_component_key (set members) \<noteq> key) (RuntimeError ''Stored active component key is not canonical'')) (\<lambda>_.
     let recorded = sort (map fst (filter (\<lambda>(n, k). k = key) (mt_members mt))) in
     res_bind (raise_if (recorded \<noteq> members) (RuntimeError ''Active component disagrees with its member rows'')) (\<lambda>_.
     case active_component_of members established of
       Inl _ \<Rightarrow> Inl (RuntimeError ''Invalid active component revision'')
     | Inr item \<Rightarrow> if ac_established item > revision
         then Inl (RuntimeError ''Active component was established after the partition revision'') else Inr item))))"

definition read_active_component_partition :: "membership_tables \<Rightarrow> active_partition option res" where
  "read_active_component_partition mt = res_bind (read_partition_revision mt) (\<lambda>state. case state of
     None \<Rightarrow> Inr None
   | Some revision \<Rightarrow>
       res_bind (res_map (\<lambda>row. decode_active_component mt row revision) (sort_key fst (mt_components mt))) (\<lambda>components.
       if length (mt_members mt) \<noteq> sum_list (map (\<lambda>item. length (ac_members item)) components)
       then Inl (RuntimeError ''Active membership contains an orphan member row'')
       else (case active_component_partition revision components of
           Inl _ \<Rightarrow> Inl (RuntimeError ''Invalid active component partition'') | Inr p \<Rightarrow> Inr (Some p))))"

definition read_active_component_for_node :: "membership_tables \<Rightarrow> node_name \<Rightarrow> component option res" where
  "read_active_component_for_node mt node = res_bind (validate_node_name node) (\<lambda>_.
     res_bind (read_partition_revision mt) (\<lambda>state. case state of
       None \<Rightarrow> Inr None
     | Some revision \<Rightarrow>
         (case concat (map (\<lambda>(n, k). filter (\<lambda>(k', e). k' = k) (mt_components mt))
             (filter (\<lambda>(n, k). n = node) (mt_members mt))) of
           [] \<Rightarrow> Inl (RuntimeError ''Raw node has no active component membership'')
         | row # rest \<Rightarrow>
             if rest \<noteq> [] then Inl (RuntimeError ''Raw node belongs to more than one active component'')
             else res_bind (decode_active_component mt row revision) (\<lambda>component.
               if node \<notin> set (ac_members component)
               then Inl (RuntimeError ''Active component lookup returned the wrong raw node'')
               else Inr (Some (ac_members component))))))"

section \<open>Initialization\<close>

text \<open>An \<open>INSERT\<close> of several rows: a repeated primary key is refused.\<close>

definition insert_rows :: "('k \<times> 'v) list \<Rightarrow> ('k \<times> 'v) list \<Rightarrow> ('k \<times> 'v) list res" where
  "insert_rows rows new = (if distinct (map fst (rows @ new)) then Inr (rows @ new)
     else Inl (SqliteError ''UNIQUE constraint failed''))"

definition member_rows :: "component list \<Rightarrow> (string \<times> string) list" where
  "member_rows items = concat (map (\<lambda>item. map (\<lambda>node. (node, encode_component_key (set item))) item) items)"

definition initialize_active_component_partition ::
    "bool \<Rightarrow> node_name list list \<Rightarrow> membership_tables \<Rightarrow> (membership_tables \<times> active_partition) res" where
  "initialize_active_component_partition in_transaction components mt =
     res_bind (raise_if (\<not> in_transaction) (RuntimeError ''Active membership initialization requires a writer transaction'')) (\<lambda>_.
     res_bind (read_active_component_partition mt) (\<lambda>current.
     res_bind (raise_if (current \<noteq> None) (RuntimeError ''Active component membership is already initialized'')) (\<lambda>_.
     res_bind (ordered_components components) (\<lambda>ordered.
     let normalized = sort ordered in
     res_bind (res_bind (res_map (\<lambda>item. active_component_of item 0) normalized) (active_component_partition 0)) (\<lambda>_.
     res_bind (insert_rows (mt_state mt) [(1, 0)]) (\<lambda>state.
     res_bind (insert_rows (mt_components mt) (map (\<lambda>item. (encode_component_key (set item), 0)) normalized)) (\<lambda>comps.
     res_bind (insert_rows (mt_members mt) (member_rows normalized)) (\<lambda>members.
     let mt' = \<lparr>mt_state = state, mt_components = comps, mt_members = members\<rparr> in
     res_bind (read_active_component_partition mt') (\<lambda>result. case result of
       None \<Rightarrow> Inl (RuntimeError ''Active component partition disappeared during initialization'')
     | Some p \<Rightarrow> Inr (mt', p))))))))))"

section \<open>Observing a change\<close>

record historical_membership =
  hm_members :: component
  hm_shape_id :: int
  hm_generation :: int
  hm_reusable :: bool

definition historical_membership_of :: "node_name list \<Rightarrow> int \<Rightarrow> int \<Rightarrow> bool \<Rightarrow> historical_membership res" where
  "historical_membership_of supplied shape_id generation reusable = res_bind (members_of supplied) (\<lambda>members.
     if shape_id < 1 then Inl (ValueError ''Historical shape ID must be a positive integer'')
     else if generation < 0 then Inl (ValueError ''Historical alignment generation must be a nonnegative integer'')
     else Inr \<lparr>hm_members = members, hm_shape_id = shape_id, hm_generation = generation, hm_reusable = reusable\<rparr>)"

record preparation_scope =
  ps_members :: component
  ps_floor :: "int option"

definition preparation_scope_of :: "node_name list \<Rightarrow> int option \<Rightarrow> preparation_scope res" where
  "preparation_scope_of supplied bound = res_bind (members_of supplied) (\<lambda>members.
     if (case bound of None \<Rightarrow> False | Some g \<Rightarrow> g < 0)
     then Inl (ValueError ''Preparation generation floor must be a nonnegative integer or None'')
     else Inr \<lparr>ps_members = members, ps_floor = bound\<rparr>)"

record membership_change =
  mc_source :: active_partition
  mc_target_shape :: string
  mc_requested :: "component list"
  mc_source_components :: "component list"
  mc_target_components :: "component list"
  mc_preparation :: "preparation_scope list"
  mc_history :: "historical_membership list"
  mc_removed :: "node_name list"

definition preparation_components :: "membership_change \<Rightarrow> component list" where
  "preparation_components change = map ps_members (mc_preparation change)"

definition changes_active_membership :: "membership_change \<Rightarrow> bool" where
  "changes_active_membership change \<longleftrightarrow> set (mc_source_components change) \<noteq> set (mc_target_components change)"

definition history_key :: "historical_membership \<Rightarrow> int \<times> component \<times> int" where
  "history_key item = (hm_shape_id item, hm_members item, hm_generation item)"

text \<open>\<open>any\<close> common node, and the nodes of some components.\<close>

definition meets :: "node_name set \<Rightarrow> component \<Rightarrow> bool" where
  "meets nodes c \<longleftrightarrow> nodes \<inter> set c \<noteq> {}"

definition nodes_in :: "component set \<Rightarrow> node_name set" where
  "nodes_in cs = (\<Union>c\<in>cs. set c)"

type_synonym selection = "component set \<times> component set \<times> historical_membership set"

text \<open>One turn of the \<open>while\<close> loop: the selected target, active and reusable memberships.\<close>

definition grow_region ::
    "component list \<Rightarrow> component list \<Rightarrow> historical_membership list \<Rightarrow> selection \<Rightarrow> selection" where
  "grow_region target active history sel = (case sel of (selected_target, selected_active, selected_reusable) \<Rightarrow>
     let reached = nodes_in (selected_target \<union> selected_active) \<union> nodes_in (hm_members ` selected_reusable);
         active' = selected_active \<union> set (filter (meets reached) active);
         reached = reached \<union> nodes_in active';
         reusable' = selected_reusable \<union> set (filter (\<lambda>item. hm_reusable item \<and> meets reached (hm_members item)) history);
         reached = reached \<union> nodes_in (hm_members ` reusable');
         target' = selected_target \<union> set (filter (meets reached) target) in
     (target', active', reusable'))"

definition region_size :: "selection \<Rightarrow> nat \<times> nat \<times> nat" where
  "region_size sel = (case sel of (t, a, r) \<Rightarrow> (card t, card a, card r))"

function select_region ::
    "component list \<Rightarrow> component list \<Rightarrow> historical_membership list \<Rightarrow> selection \<Rightarrow> selection" where
  "select_region target active history sel =
     (let sel' = grow_region target active history sel in
      if region_size sel' = region_size sel then sel' else select_region target active history sel')"
  by pat_completeness auto

lemma grow_region_grows:
  assumes "grow_region target active history (t, a, r) = (t', a', r')"
  shows "\<exists>xs ys zs. t' = t \<union> xs \<and> xs \<subseteq> set target \<and> a' = a \<union> ys \<and> ys \<subseteq> set active \<and> r' = r \<union> zs \<and> zs \<subseteq> set history"
  using assms unfolding grow_region_def Let_def by (auto simp del: set_filter intro!: exI dest: filter_is_subset [THEN subsetD])

termination select_region
proof (relation "measure (\<lambda>(target, active, history, t, a, r).
    card (set target - t) + card (set active - a) + card (set history - r))", simp)
  fix target active :: "component list" and history and sel sel' :: selection
  assume sel': "sel' = grow_region target active history sel" and neq: "region_size sel' \<noteq> region_size sel"
  obtain t a r where s: "sel = (t, a, r)" by (cases sel) auto
  obtain t' a' r' where s': "sel' = (t', a', r')" by (cases sel') auto
  obtain xs ys zs where g: "t' = t \<union> xs" "xs \<subseteq> set target" "a' = a \<union> ys" "ys \<subseteq> set active" "r' = r \<union> zs" "zs \<subseteq> set history"
    using grow_region_grows sel' s s' by metis
  have le: "card (set target - t') \<le> card (set target - t)" "card (set active - a') \<le> card (set active - a)"
    "card (set history - r') \<le> card (set history - r)"
    using g by (auto intro!: card_mono)
  have "\<not> (xs \<subseteq> t \<and> ys \<subseteq> a \<and> zs \<subseteq> r)"
  proof
    assume "xs \<subseteq> t \<and> ys \<subseteq> a \<and> zs \<subseteq> r"
    then have "t' = t \<and> a' = a \<and> r' = r" using g by blast
    then show False using neq s s' by simp
  qed
  then consider "\<not> xs \<subseteq> t" | "\<not> ys \<subseteq> a" | "\<not> zs \<subseteq> r" by blast
  then show "((target, active, history, sel'), target, active, history, sel) \<in> measure (\<lambda>(target, active, history, t, a, r).
    card (set target - t) + card (set active - a) + card (set history - r))"
  proof cases
    case 1
    then have "card (set target - t') < card (set target - t)" using g by (intro psubset_card_mono) auto
    then show ?thesis using le s s' by simp
  next
    case 2
    then have "card (set active - a') < card (set active - a)" using g by (intro psubset_card_mono) auto
    then show ?thesis using le s s' by simp
  next
    case 3
    then have "card (set history - r') < card (set history - r)" using g by (intro psubset_card_mono) auto
    then show ?thesis using le s s' by simp
  qed
qed

declare select_region.simps [simp del]

definition observe_membership_change ::
    "active_partition \<Rightarrow> topology_snapshot \<Rightarrow> node_name list list \<Rightarrow> historical_membership list \<Rightarrow> membership_change res" where
  "observe_membership_change active snap requested_components historical =
     res_bind (raise_if (shape_json snap = []) (ValueError ''Target graph shape must be nonempty text'')) (\<lambda>_.
     res_bind (ordered_components (snapshot_components snap)) (\<lambda>target.
     res_bind (raise_if (target \<noteq> sort target) (ValueError ''Target components must use canonical snapshot order'')) (\<lambda>_.
     res_bind (ordered_components requested_components) (\<lambda>requested.
     res_bind (raise_if (requested = [] \<or> \<not> set requested \<subseteq> set target)
       (ValueError ''Requested components must belong to the target graph'')) (\<lambda>_.
     let history = sort_key history_key historical in
     res_bind (raise_if (\<not> distinct (map history_key history))
       (ValueError ''Historical membership observations contain duplicate identities'')) (\<lambda>_.
     case select_region target (map ac_members (pt_components active)) history (set requested, {}, {}) of
       (selected_target, selected_active, selected_reusable) \<Rightarrow>
     let reusable_nodes = nodes_in (hm_members ` selected_reusable);
         affected_nodes = nodes_in (selected_target \<union> selected_active) \<union> reusable_nodes;
         relevant = filter (\<lambda>item. meets affected_nodes (hm_members item)) history;
         preparation = set requested \<union> Set.filter (meets reusable_nodes) selected_target in
     res_bind (res_map (\<lambda>members. let generations = map hm_generation (filter (\<lambda>item. meets (set members) (hm_members item)) relevant) in
         preparation_scope_of members (if generations = [] then None else Some (Max (set generations))))
       (filter (\<lambda>members. members \<in> preparation) target)) (\<lambda>scopes.
     Inr \<lparr>mc_source = active, mc_target_shape = shape_json snap, mc_requested = requested,
       mc_source_components = sorted_list_of_set selected_active,
       mc_target_components = filter (\<lambda>item. item \<in> selected_target) target,
       mc_preparation = scopes, mc_history = relevant,
       mc_removed = sorted_list_of_set (affected_nodes - nodes_in (set target))\<rparr>)))))))"

definition observe_removed_memberships ::
    "networkx_api \<Rightarrow> active_partition \<Rightarrow> topology_snapshot \<Rightarrow> historical_membership list \<Rightarrow> membership_change res" where
  "observe_removed_memberships nx active snap historical =
     res_bind (component_snapshot_from_shape nx (shape_json snap)) (\<lambda>expected.
     res_bind (raise_if (snap \<noteq> expected) (ValueError ''Removed membership observation requires a canonical target shape'')) (\<lambda>_.
     let history = sort_key history_key historical in
     res_bind (raise_if (\<not> distinct (map history_key history))
       (ValueError ''Historical membership observations contain duplicate identities'')) (\<lambda>_.
     let current_nodes = nodes_in (set (snapshot_components snap));
         sources = filter (\<lambda>members. \<not> meets current_nodes members \<and>
           \<not> (\<exists>old\<in>set history. hm_reusable old \<and> meets (set (hm_members old)) members)) (map ac_members (pt_components active)) in
     Inr \<lparr>mc_source = active, mc_target_shape = shape_json snap, mc_requested = [],
       mc_source_components = sources, mc_target_components = [], mc_preparation = [],
       mc_history = history, mc_removed = sort (concat sources)\<rparr>)))"

section \<open>Replacing the region\<close>

definition validate_membership_change :: "networkx_api \<Rightarrow> membership_tables \<Rightarrow> membership_change \<Rightarrow> unit res" where
  "validate_membership_change nx mt change =
     res_bind (read_active_component_partition mt) (\<lambda>current.
     res_bind (raise_if (current \<noteq> Some (mc_source change)) (RuntimeError ''Active component membership changed after observation'')) (\<lambda>_.
     case res_bind (component_snapshot_from_shape nx (mc_target_shape change)) (\<lambda>target.
         if mc_requested change \<noteq> [] then observe_membership_change (mc_source change) target (mc_requested change) (mc_history change)
         else observe_removed_memberships nx (mc_source change) target (mc_history change)) of
       Inl (ValueError _) \<Rightarrow> Inl (RuntimeError ''Invalid observed membership change'')
     | Inl e \<Rightarrow> Inl e
     | Inr expected \<Rightarrow> if expected \<noteq> change
         then Inl (RuntimeError ''Membership change does not match its observations'') else Inr ()))"

text \<open>\<open>_replace_active_component_closure\<close>: each \<open>rowcount\<close> is the number of rows the statement touches.\<close>

definition replace_active_component_closure ::
    "networkx_api \<Rightarrow> bool \<Rightarrow> membership_tables \<Rightarrow> membership_change \<Rightarrow> (membership_tables \<times> active_partition) res" where
  "replace_active_component_closure nx in_transaction mt change =
     res_bind (raise_if (\<not> in_transaction) (RuntimeError ''Active membership replacement requires a writer transaction'')) (\<lambda>_.
     res_bind (validate_membership_change nx mt change) (\<lambda>_.
     let current = mc_source change; source = set (mc_source_components change); target = set (mc_target_components change);
         known = set (map ac_members (pt_components current)) in
     res_bind (raise_if (\<not> source \<subseteq> known) (RuntimeError ''Membership replacement source is not active'')) (\<lambda>_.
     let unaffected = known - source in
     res_bind (raise_if (nodes_in unaffected \<inter> nodes_in target \<noteq> {})
       (RuntimeError ''Membership replacement overlaps an unaffected active component'')) (\<lambda>_.
     if source = target then Inr (mt, current)
     else
     let source_keys = (\<lambda>item. encode_component_key (set item)) ` source;
         members = filter (\<lambda>(n, k). k \<notin> source_keys) (mt_members mt);
         comps = filter (\<lambda>(k, e). k \<notin> source_keys) (mt_components mt) in
     res_bind (raise_if (int (length (mt_members mt)) - int (length members) \<noteq> (\<Sum>item\<in>source. int (length item)))
       (RuntimeError ''Active component members changed before replacement'')) (\<lambda>_.
     res_bind (raise_if (int (length (mt_components mt)) - int (length comps) \<noteq> int (card source))
       (RuntimeError ''Active components changed before replacement'')) (\<lambda>_.
     let revision = pt_revision current + 1; items = sorted_list_of_set target in
     res_bind (insert_rows comps (map (\<lambda>item. (encode_component_key (set item), revision)) items)) (\<lambda>comps'.
     res_bind (insert_rows members (member_rows items)) (\<lambda>members'.
     let matching = filter (\<lambda>(singleton, r). singleton = 1 \<and> r = pt_revision current) (mt_state mt);
         state' = map (\<lambda>(singleton, r). if singleton = 1 \<and> r = pt_revision current then (singleton, revision) else (singleton, r)) (mt_state mt) in
     res_bind (raise_if (length matching \<noteq> 1) (RuntimeError ''Component partition revision changed before replacement'')) (\<lambda>_.
     let mt' = \<lparr>mt_state = state', mt_components = comps', mt_members = members'\<rparr> in
     res_bind (read_active_component_partition mt') (\<lambda>result. case result of
       None \<Rightarrow> Inl (RuntimeError ''Active membership replacement did not persist exactly'')
     | Some p \<Rightarrow> if pt_revision p \<noteq> revision \<or> set (map ac_members (pt_components p)) \<noteq> unaffected \<union> target
         then Inl (RuntimeError ''Active membership replacement did not persist exactly'')
         else Inr (mt', p)))))))))))"

end
