(* ===== verification/Membership_Tables.thy ===== *)
theory Membership_Tables
  imports Component_Membership
begin

text \<open>
  What the membership tables store: the reader accepts exactly the tables that represent a valid partition, and the
  lookup of one node agrees with it.
\<close>

section \<open>Members\<close>

definition valid_members :: "component \<Rightarrow> bool" where
  "valid_members c \<longleftrightarrow> c \<noteq> [] \<and> sorted c \<and> distinct c \<and> (\<forall>n\<in>set c. validate_node_name n = Inr n)"

abbreviation key_of :: "component \<Rightarrow> string" where
  "key_of c \<equiv> encode_component_key (set c)"

lemma res_map_validate: "res_map validate_node_name xs = Inr ys \<longleftrightarrow> ys = xs \<and> (\<forall>n\<in>set xs. validate_node_name n = Inr n)"
  by (induction xs arbitrary: ys) (auto simp: res_bind_eq_Inr dest: validate_node_name_Inr)

lemma sorted_component_key: "sorted c \<Longrightarrow> distinct c \<Longrightarrow> component_key (set c) = c"
  by (simp add: component_key_def sorted_list_of_set.idem_if_sorted_distinct)

lemma members_of_Inr: "members_of xs = Inr c \<Longrightarrow> valid_members c \<and> set c = set xs \<and> length c = length xs"
  by (auto simp: members_of_def valid_members_def res_bind_eq_Inr res_map_validate component_key_def Let_def split: if_splits)

lemma members_of_valid: "valid_members c \<Longrightarrow> members_of c = Inr c"
  using sorted_component_key [of c] res_map_validate [of c c]
  by (simp add: members_of_def valid_members_def)

lemma valid_members_eq: "valid_members c \<Longrightarrow> valid_members d \<Longrightarrow> set c = set d \<longleftrightarrow> c = d"
  unfolding valid_members_def by (metis sorted_distinct_set_unique)

lemma key_of_inject: "key_of c = key_of d \<longleftrightarrow> set c = set d"
proof -
  have "map JStr (component_key (set c)) = map JStr (component_key (set d))" if "key_of c = key_of d"
    using decode_encode_component_key [of "set c"] decode_encode_component_key [of "set d"] that by simp
  then have "component_key (set c) = component_key (set d)" if "key_of c = key_of d"
    using that by (simp add: inj_map_eq_map [of JStr] inj_def)
  then show ?thesis by (metis component_key_def finite_set set_sorted_list_of_set)
qed

lemma valid_key_inject: "valid_members c \<Longrightarrow> valid_members d \<Longrightarrow> key_of c = key_of d \<longleftrightarrow> c = d"
  by (simp add: key_of_inject valid_members_eq)

lemma json_names_JStr: "json_names (map JStr ns) = Some ns"
  by (simp add: json_names_def comp_def)

lemma stored_members_key: "valid_members c \<Longrightarrow> stored_members (key_of c) = Inr c"
  using decode_encode_component_key [of "set c"] sorted_component_key [of c] members_of_valid [of c]
  by (simp add: stored_members_def json_names_JStr valid_members_def)

lemma stored_members_valid: "stored_members key = Inr c \<Longrightarrow> valid_members c"
  by (auto simp: stored_members_def res_bind_eq_Inr split: sum.splits option.splits dest: members_of_Inr)

section \<open>Partitions\<close>

definition wf_partition :: "active_partition \<Rightarrow> bool" where
  "wf_partition p \<longleftrightarrow> 0 \<le> pt_revision p \<and>
     sorted (map ac_members (pt_components p)) \<and> distinct (map ac_members (pt_components p)) \<and>
     (\<forall>item\<in>set (pt_components p). valid_members (ac_members item) \<and> 0 \<le> ac_established item \<and>
        ac_established item \<le> pt_revision p) \<and>
     (\<forall>a\<in>set (pt_components p). \<forall>b\<in>set (pt_components p). ac_members a \<noteq> ac_members b \<longrightarrow>
        set (ac_members a) \<inter> set (ac_members b) = {})"

lemma check_claims_Inr:
  "check_claims revision claimed items = Inr () \<longleftrightarrow>
     (\<forall>item\<in>set items. ac_established item \<le> revision \<and> claimed \<inter> set (ac_members item) = {}) \<and>
     sorted_wrt (\<lambda>a b. set (ac_members a) \<inter> set (ac_members b) = {}) items"
proof (induction items arbitrary: claimed)
  case (Cons item items)
  then show ?case by (auto simp: not_less)
qed simp

lemma disjoint_sorted_wrt:
  assumes "distinct (map ac_members items)"
  shows "sorted_wrt (\<lambda>a b. set (ac_members a) \<inter> set (ac_members b) = {}) items \<longleftrightarrow>
     (\<forall>a\<in>set items. \<forall>b\<in>set items. ac_members a \<noteq> ac_members b \<longrightarrow> set (ac_members a) \<inter> set (ac_members b) = {})"
  using assms
proof (induction items)
  case (Cons x xs)
  let ?D = "\<lambda>a b. set (ac_members a) \<inter> set (ac_members b) = {}"
  have ne: "\<forall>y\<in>set xs. ac_members x \<noteq> ac_members y" using Cons.prems by auto
  have sym: "?D a b \<longleftrightarrow> ?D b a" for a b by blast
  have IH: "sorted_wrt ?D xs \<longleftrightarrow> (\<forall>a\<in>set xs. \<forall>b\<in>set xs. ac_members a \<noteq> ac_members b \<longrightarrow> ?D a b)" using Cons by simp
  have "(\<forall>a\<in>set (x # xs). \<forall>b\<in>set (x # xs). ac_members a \<noteq> ac_members b \<longrightarrow> ?D a b) \<longleftrightarrow>
      (\<forall>y\<in>set xs. ?D x y) \<and> (\<forall>a\<in>set xs. \<forall>b\<in>set xs. ac_members a \<noteq> ac_members b \<longrightarrow> ?D a b)"
    using ne sym by (metis (no_types, lifting) set_ConsD list.set_intros)
  then show ?case using IH by simp
qed simp

lemma active_component_of_valid:
  "valid_members c \<Longrightarrow> 0 \<le> e \<Longrightarrow> active_component_of c e = Inr \<lparr>ac_members = c, ac_established = e\<rparr>"
  by (simp add: active_component_of_def members_of_valid)

lemma active_component_of_Inr:
  "active_component_of c e = Inr item \<Longrightarrow> valid_members (ac_members item) \<and> set (ac_members item) = set c \<and>
     ac_established item = e \<and> 0 \<le> e"
  by (auto simp: active_component_of_def res_bind_eq_Inr split: if_splits dest: members_of_Inr)

lemma partition_Inr:
  assumes "active_component_partition revision items = Inr p"
    and "\<forall>item\<in>set items. valid_members (ac_members item) \<and> 0 \<le> ac_established item"
  shows "wf_partition p \<and> pt_revision p = revision \<and> set (pt_components p) = set items"
proof -
  have p: "p = \<lparr>pt_revision = revision, pt_components = sort_key ac_members items\<rparr>" "0 \<le> revision"
    "distinct (map ac_members (sort_key ac_members items))" "check_claims revision {} (sort_key ac_members items) = Inr ()"
    using assms(1) by (auto simp: active_component_partition_def Let_def res_bind_eq_Inr split: if_splits)
  then show ?thesis
    using assms(2) disjoint_sorted_wrt [OF p(3)] by (simp add: wf_partition_def check_claims_Inr)
qed

lemma partition_eq:
  assumes "wf_partition p" and "wf_partition q" and "pt_revision p = pt_revision q" and "set (pt_components p) = set (pt_components q)"
  shows "p = q"
proof -
  have "inj_on ac_members (set (pt_components p))" using assms(1) by (simp add: wf_partition_def distinct_map)
  then have "pt_components p = pt_components q"
    using assms by (intro map_sorted_distinct_set_unique [of ac_members]) (auto simp: wf_partition_def)
  then show ?thesis using assms(3) by simp
qed

lemma partition_total:
  assumes p: "wf_partition p" and "set items = set (pt_components p)" and "distinct (map ac_members items)"
  shows "active_component_partition (pt_revision p) items = Inr p"
proof -
  let ?s = "sort_key ac_members items"
  have inj: "inj_on ac_members (set items)" using assms(3) by (simp add: distinct_map)
  have "distinct items" using assms(3) by (simp add: distinct_map)
  then have d: "distinct (map ac_members ?s)" using inj by (simp add: distinct_map)
  have "check_claims (pt_revision p) {} ?s = Inr ()"
    using p assms(2) disjoint_sorted_wrt [OF d] by (simp add: check_claims_Inr wf_partition_def)
  then have "active_component_partition (pt_revision p) items = Inr \<lparr>pt_revision = pt_revision p, pt_components = ?s\<rparr>"
    using p d by (simp add: active_component_partition_def wf_partition_def)
  moreover have "?s = pt_components p"
    using p assms(2) d inj by (intro map_sorted_distinct_set_unique [of ac_members]) (auto simp: wf_partition_def)
  ultimately show ?thesis by simp
qed

section \<open>Tables that represent a partition\<close>

definition primary_keys :: "membership_tables \<Rightarrow> bool" where
  "primary_keys mt \<longleftrightarrow> distinct (map fst (mt_state mt)) \<and> distinct (map fst (mt_components mt)) \<and> distinct (map fst (mt_members mt))"

definition represents :: "membership_tables \<Rightarrow> active_partition \<Rightarrow> bool" where
  "represents mt p \<longleftrightarrow> mt_state mt = [(1, pt_revision p)] \<and>
     set (mt_components mt) = (\<lambda>item. (key_of (ac_members item), ac_established item)) ` set (pt_components p) \<and>
     set (mt_members mt) = {(n, key_of (ac_members item)) |n item. item \<in> set (pt_components p) \<and> n \<in> set (ac_members item)}"

lemma recorded_members:
  assumes "primary_keys mt" and "represents mt p" and "wf_partition p" and "item \<in> set (pt_components p)"
  shows "sort (map fst (filter (\<lambda>(n, k). k = key_of (ac_members item)) (mt_members mt))) = ac_members item"
proof -
  let ?rows = "filter (\<lambda>(n, k). k = key_of (ac_members item)) (mt_members mt)"
  have "a = item" if "a \<in> set (pt_components p)" "key_of (ac_members a) = key_of (ac_members item)" for a
  proof -
    have "ac_members a = ac_members item" using that assms(3,4) valid_key_inject by (auto simp: wf_partition_def)
    then show ?thesis using that assms(3,4) unfolding wf_partition_def distinct_map inj_on_def by blast
  qed
  then have same: "a = item" if "a \<in> set (pt_components p)" "key_of (ac_members a) = key_of (ac_members item)" for a
    using that by simp
  have rows: "set (mt_members mt) = {(n, key_of (ac_members item)) |n item. item \<in> set (pt_components p) \<and> n \<in> set (ac_members item)}"
    using assms(2) by (simp add: represents_def)
  have "(n, key_of (ac_members item)) \<in> set (mt_members mt) \<longleftrightarrow> n \<in> set (ac_members item)" for n
  proof
    assume "(n, key_of (ac_members item)) \<in> set (mt_members mt)"
    then obtain a where a: "a \<in> set (pt_components p)" "key_of (ac_members a) = key_of (ac_members item)" "n \<in> set (ac_members a)"
      unfolding rows by auto
    show "n \<in> set (ac_members item)" using same [OF a(1,2)] a(3) by simp
  next
    assume "n \<in> set (ac_members item)"
    then show "(n, key_of (ac_members item)) \<in> set (mt_members mt)" unfolding rows using assms(4) by blast
  qed
  then have "set (map fst ?rows) = set (ac_members item)" by force
  moreover have "distinct (map fst ?rows)" using assms(1) by (simp add: primary_keys_def distinct_map_filter)
  moreover have "sorted (ac_members item)" "distinct (ac_members item)" using assms(3,4) by (auto simp: wf_partition_def valid_members_def)
  ultimately show ?thesis by (intro sorted_distinct_set_unique) simp_all
qed

lemma decode_represented:
  assumes "primary_keys mt" and "represents mt p" and "wf_partition p" and "item \<in> set (pt_components p)"
  shows "decode_active_component mt (key_of (ac_members item), ac_established item) (pt_revision p) = Inr item"
proof -
  have v: "valid_members (ac_members item)" "0 \<le> ac_established item" "ac_established item \<le> pt_revision p"
    using assms(3,4) by (auto simp: wf_partition_def)
  show ?thesis
    using recorded_members [OF assms] v
    by (simp add: decode_active_component_def stored_members_key active_component_of_valid)
qed

lemma length_filter_groups:
  "distinct ks \<Longrightarrow> sum_list (map (\<lambda>k. length (filter (\<lambda>(n, k'). k' = k) rows)) ks) = length (filter (\<lambda>(n, k'). k' \<in> set ks) rows)"
proof (induction ks)
  case (Cons k ks)
  have "length (filter (\<lambda>(n, k'). k' = k \<or> k' \<in> set ks) rows) =
      length (filter (\<lambda>(n, k'). k' = k) rows) + length (filter (\<lambda>(n, k'). k' \<in> set ks) rows)"
    using Cons.prems by (induction rows) auto
  then show ?case using Cons by simp
qed simp

lemma decode_Inr:
  assumes "decode_active_component mt row revision = Inr item"
  shows "row = (key_of (ac_members item), ac_established item) \<and> valid_members (ac_members item) \<and> 0 \<le> ac_established item \<and>
     ac_established item \<le> revision \<and> sort (map fst (filter (\<lambda>(n, k). k = fst row) (mt_members mt))) = ac_members item"
proof -
  obtain key e where row: "row = (key, e)" by force
  obtain c where c1: "stored_members key = Inr c"
    using assms by (cases "stored_members key") (simp_all add: decode_active_component_def row)
  obtain item' where i1: "active_component_of c e = Inr item'"
    using assms c1 by (cases "active_component_of c e") (auto simp: decode_active_component_def row raise_if_def split: if_splits)
  have c: "stored_members key = Inr c" "key_of c = key" "active_component_of c e = Inr item" "ac_established item \<le> revision"
    "sort (map fst (filter (\<lambda>(n, k). k = key) (mt_members mt))) = c"
    using assms c1 i1 by (auto simp: decode_active_component_def row raise_if_def Let_def split: if_splits)
  have "ac_members item = c" using active_component_of_Inr [OF c(3)] stored_members_valid [OF c(1)] valid_members_eq by blast
  then show ?thesis using active_component_of_Inr [OF c(3)] c row by simp
qed

theorem reader_exact:
  assumes keys: "primary_keys mt"
  shows "read_active_component_partition mt = Inr (Some p) \<longleftrightarrow> wf_partition p \<and> represents mt p"
proof
  let ?rows = "sort_key fst (mt_components mt)"
  assume "read_active_component_partition mt = Inr (Some p)"
  note read = this [unfolded read_active_component_partition_def]
  obtain revision where r1: "read_partition_revision mt = Inr (Some revision)"
    using read by (cases "read_partition_revision mt") (auto split: option.splits)
  obtain items where r2: "res_map (\<lambda>row. decode_active_component mt row revision) ?rows = Inr items"
    using read r1 by (cases "res_map (\<lambda>row. decode_active_component mt row revision) ?rows") auto
  have r: "read_partition_revision mt = Inr (Some revision)"
    "res_map (\<lambda>row. decode_active_component mt row revision) ?rows = Inr items"
    "length (mt_members mt) = sum_list (map (\<lambda>item. length (ac_members item)) items)"
    "active_component_partition revision items = Inr p"
    using read r1 r2 by (auto split: if_splits sum.splits)
  have state: "mt_state mt = [(1, revision)]"
    using r(1) by (auto simp: read_partition_revision_def split: list.splits if_splits)
  have item: "?rows ! i = (key_of (ac_members (items ! i)), ac_established (items ! i)) \<and> valid_members (ac_members (items ! i)) \<and>
     0 \<le> ac_established (items ! i) \<and> length (ac_members (items ! i)) = length (filter (\<lambda>(n, k). k = fst (?rows ! i)) (mt_members mt)) \<and>
     set (ac_members (items ! i)) = {n. (n, fst (?rows ! i)) \<in> set (mt_members mt)}"
    if "i < length ?rows" for i
  proof -
    have d: "?rows ! i = (key_of (ac_members (items ! i)), ac_established (items ! i)) \<and> valid_members (ac_members (items ! i)) \<and>
        0 \<le> ac_established (items ! i) \<and> sort (map fst (filter (\<lambda>(n, k). k = fst (?rows ! i)) (mt_members mt))) = ac_members (items ! i)"
      using decode_Inr [OF res_map_nth [OF r(2) that]] by blast
    then have d5: "sort (map fst (filter (\<lambda>(n, k). k = fst (?rows ! i)) (mt_members mt))) = ac_members (items ! i)" by blast
    have s: "set (ac_members (items ! i)) = {n. (n, fst (?rows ! i)) \<in> set (mt_members mt)}" unfolding d5 [symmetric] by force
    have "length (ac_members (items ! i)) = length (filter (\<lambda>(n, k). k = fst (?rows ! i)) (mt_members mt))"
      unfolding d5 [symmetric] by simp
    then show ?thesis using d s by blast
  qed
  have len: "length items = length ?rows" by (rule res_map_length [OF r(2)])
  have rows: "?rows = map (\<lambda>item. (key_of (ac_members item), ac_established item)) items"
  proof (rule nth_equalityI)
    show "?rows ! i = map (\<lambda>item. (key_of (ac_members item), ac_established item)) items ! i" if "i < length ?rows" for i
      using conjunct1 [OF item [OF that]] that len by simp
  qed (simp add: len)
  have valid: "valid_members (ac_members x) \<and> 0 \<le> ac_established x" if x: "x \<in> set items" for x
  proof -
    obtain i where i: "i < length items" "x = items ! i" using x by (auto simp: in_set_conv_nth)
    then have "i < length ?rows" using len by simp
    then show ?thesis using item [of i] i(2) by blast
  qed
  have p: "wf_partition p \<and> pt_revision p = revision \<and> set (pt_components p) = set items"
    using partition_Inr [OF r(4)] valid by blast
  have "set (mt_components mt) = set ?rows" by simp
  then have comps: "set (mt_components mt) = (\<lambda>item. (key_of (ac_members item), ac_established item)) ` set items"
    unfolding rows by simp
  have dk: "distinct (map fst ?rows)" using keys by (simp add: primary_keys_def distinct_map)
  have "map (\<lambda>item. length (ac_members item)) items =
      map (\<lambda>k. length (filter (\<lambda>(n, k'). k' = k) (mt_members mt))) (map fst ?rows)"
  proof (rule nth_equalityI)
    fix i assume "i < length (map (\<lambda>item. length (ac_members item)) items)"
    then have i: "i < length ?rows" using len by simp
    have "length (ac_members (items ! i)) = length (filter (\<lambda>(n, k). k = fst (?rows ! i)) (mt_members mt))" using item [OF i] by blast
    then show "map (\<lambda>item. length (ac_members item)) items ! i =
        map (\<lambda>k. length (filter (\<lambda>(n, k'). k' = k) (mt_members mt))) (map fst ?rows) ! i"
      using i len by simp
  qed (simp add: len)
  then have "length (filter (\<lambda>(n, k'). k' \<in> set (map fst ?rows)) (mt_members mt)) = length (mt_members mt)"
    using length_filter_groups [OF dk, of "mt_members mt"] r(3) by simp
  then have known: "\<forall>(n, k)\<in>set (mt_members mt). k \<in> set (map fst ?rows)"
    using length_filter_less [of _ "mt_members mt" "\<lambda>(n, k'). k' \<in> set (map fst ?rows)"] by force
  have "set (mt_members mt) = {(n, key_of (ac_members item)) |n item. item \<in> set items \<and> n \<in> set (ac_members item)}"
  proof (intro set_eqI iffI)
    fix x assume x: "x \<in> set (mt_members mt)"
    obtain n k where xk: "x = (n, k)" by force
    then have "k \<in> set (map fst ?rows)" using known x by auto
    then obtain i where i0: "i < length (map fst ?rows)" "k = map fst ?rows ! i" unfolding in_set_conv_nth by blast
    then have i: "i < length ?rows" "k = fst (?rows ! i)" by simp_all
    have it: "?rows ! i = (key_of (ac_members (items ! i)), ac_established (items ! i))"
      "set (ac_members (items ! i)) = {n. (n, fst (?rows ! i)) \<in> set (mt_members mt)}" using item [OF i(1)] by blast+
    have "n \<in> set (ac_members (items ! i))" unfolding it(2) using x xk i(2) by simp
    moreover have "k = key_of (ac_members (items ! i))" using i(2) unfolding it(1) by (simp only: fst_conv)
    ultimately show "x \<in> {(n, key_of (ac_members item)) |n item. item \<in> set items \<and> n \<in> set (ac_members item)}"
      using xk i(1) len nth_mem [of i items] by auto
  next
    fix x assume "x \<in> {(n, key_of (ac_members item)) |n item. item \<in> set items \<and> n \<in> set (ac_members item)}"
    then obtain n i where i: "i < length items" "x = (n, key_of (ac_members (items ! i)))" "n \<in> set (ac_members (items ! i))"
      by (auto simp: in_set_conv_nth)
    then have "i < length ?rows" using len by simp
    then have it: "?rows ! i = (key_of (ac_members (items ! i)), ac_established (items ! i))"
      "set (ac_members (items ! i)) = {n. (n, fst (?rows ! i)) \<in> set (mt_members mt)}" using item [of i] by blast+
    have "(n, fst (?rows ! i)) \<in> set (mt_members mt)" using i(3) unfolding it(2) by blast
    moreover have "fst (?rows ! i) = key_of (ac_members (items ! i))" using arg_cong [OF it(1), of fst] by (simp only: fst_conv)
    ultimately show "x \<in> set (mt_members mt)" unfolding i(2) by (simp only:)
  qed
  then show "wf_partition p \<and> represents mt p" using p comps state by (simp add: represents_def)
next
  assume wr: "wf_partition p \<and> represents mt p"
  let ?row = "\<lambda>item. (key_of (ac_members item), ac_established item)"
  define rows where "rows = sort_key fst (mt_components mt)"
  have wf: "wf_partition p" and rep: "represents mt p" using wr by auto
  have inj: "a = b" if ab: "a \<in> set (pt_components p)" "b \<in> set (pt_components p)" "?row a = ?row b" for a b
  proof -
    have "valid_members (ac_members a)" "valid_members (ac_members b)" using wf ab(1,2) by (auto simp: wf_partition_def)
    then have "ac_members a = ac_members b" using ab(3) valid_key_inject by simp
    then show ?thesis using ab(3) by simp
  qed
  have comps: "set rows = ?row ` set (pt_components p)" using rep by (simp add: represents_def rows_def)
  then have "\<forall>row\<in>set rows. \<exists>a. a \<in> set (pt_components p) \<and> ?row a = row" by auto
  then obtain g where g: "\<And>row. row \<in> set rows \<Longrightarrow> g row \<in> set (pt_components p)" "\<And>row. row \<in> set rows \<Longrightarrow> ?row (g row) = row"
    by (auto dest!: bchoice)
  have dec: "decode_active_component mt row (pt_revision p) = Inr (g row)" if row: "row \<in> set rows" for row
    using decode_represented [OF keys rep wf g(1) [OF row]] g(2) [OF row] by simp
  have res: "res_map (\<lambda>row. decode_active_component mt row (pt_revision p)) rows = Inr (map g rows)"
    by (rule res_map_total) (rule dec)
  have items: "set (map g rows) = set (pt_components p)"
  proof
    show "set (map g rows) \<subseteq> set (pt_components p)" using g(1) by auto
    show "set (pt_components p) \<subseteq> set (map g rows)"
    proof
      fix a assume a: "a \<in> set (pt_components p)"
      then have r: "?row a \<in> set rows" unfolding comps by simp
      have "g (?row a) = a" by (rule inj [OF g(1) [OF r] a g(2) [OF r]])
      then show "a \<in> set (map g rows)" using r by (force simp: image_iff)
    qed
  qed
  have dk: "distinct (map fst rows)" using keys by (simp add: primary_keys_def distinct_map rows_def)
  have key: "key_of (ac_members (g row)) = fst row" if "row \<in> set rows" for row
    using arg_cong [OF g(2) [OF that], of fst] by (simp only: fst_conv)
  then have "map key_of (map ac_members (map g rows)) = map fst rows" by simp
  then have di: "distinct (map ac_members (map g rows))" using dk by (metis distinct_map)
  have len: "length (ac_members (g row)) = length (filter (\<lambda>(n, k'). k' = fst row) (mt_members mt))" if row: "row \<in> set rows" for row
  proof -
    have "length (ac_members (g row)) = length (sort (map fst (filter (\<lambda>(n, k). k = key_of (ac_members (g row))) (mt_members mt))))"
      unfolding recorded_members [OF keys rep wf g(1) [OF row]] by (rule refl)
    then show ?thesis unfolding key [OF row] by simp
  qed
  have "sum_list (map (\<lambda>item. length (ac_members item)) (map g rows)) =
      sum_list (map (\<lambda>k. length (filter (\<lambda>(n, k'). k' = k) (mt_members mt))) (map fst rows))"
    using len by (simp add: comp_def cong: map_cong)
  then have "sum_list (map (\<lambda>item. length (ac_members item)) (map g rows)) =
      length (filter (\<lambda>(n, k'). k' \<in> set (map fst rows)) (mt_members mt))"
    unfolding length_filter_groups [OF dk] .
  moreover have "filter (\<lambda>(n, k'). k' \<in> set (map fst rows)) (mt_members mt) = mt_members mt"
  proof (rule filter_True)
    have "k \<in> set (map fst rows)" if m: "(n, k) \<in> set (mt_members mt)" for n k
    proof -
      obtain a where "a \<in> set (pt_components p)" "k = key_of (ac_members a)" using m rep by (auto simp: represents_def)
      then show ?thesis unfolding set_map comps by force
    qed
    then show "\<forall>x\<in>set (mt_members mt). case x of (n, k') \<Rightarrow> k' \<in> set (map fst rows)" by blast
  qed
  ultimately have count: "length (mt_members mt) = sum_list (map (\<lambda>item. length (ac_members item)) (map g rows))" by (simp only:)
  have state: "read_partition_revision mt = Inr (Some (pt_revision p))"
    using rep wf by (simp add: read_partition_revision_def represents_def wf_partition_def)
  show "read_active_component_partition mt = Inr (Some p)"
    unfolding read_active_component_partition_def state rows_def [symmetric] res_bind_Inr option.case res
    using count partition_total [OF wf items di] by simp
qed

end
