(* ===== verification/Membership_Region.thy ===== *)
theory Membership_Region
  imports Membership_Tables
begin

text \<open>
  The region of a membership change: the loop of \<open>observe_membership_change\<close> computes the smallest set of nodes that
  contains the requested components and is closed under overlapping target, active and reusable historical
  memberships; and observing again with only the relevant history gives the same change.
\<close>

section \<open>The closed region\<close>

inductive_set region :: "component set \<Rightarrow> component set \<Rightarrow> node_name set" for requested overlapping where
  start: "c \<in> requested \<Longrightarrow> n \<in> set c \<Longrightarrow> n \<in> region requested overlapping"
| step: "n \<in> region requested overlapping \<Longrightarrow> c \<in> overlapping \<Longrightarrow> n \<in> set c \<Longrightarrow> m \<in> set c \<Longrightarrow> m \<in> region requested overlapping"

definition reusable_members :: "historical_membership list \<Rightarrow> component set" where
  "reusable_members history = hm_members ` {item \<in> set history. hm_reusable item}"

definition overlapping :: "component list \<Rightarrow> component list \<Rightarrow> historical_membership list \<Rightarrow> component set" where
  "overlapping target active history = set target \<union> set active \<union> reusable_members history"

lemma region_closed: "c \<in> overlap \<Longrightarrow> meets (region req overlap) c \<Longrightarrow> set c \<subseteq> region req overlap"
  by (auto simp: meets_def intro: region.step)

lemma region_least:
  assumes "\<And>c. c \<in> req \<Longrightarrow> set c \<subseteq> X" and "\<And>c. c \<in> overlap \<Longrightarrow> meets X c \<Longrightarrow> set c \<subseteq> X"
  shows "region req overlap \<subseteq> X"
proof
  fix n assume "n \<in> region req overlap"
  then show "n \<in> X"
  proof (induction rule: region.induct)
    case (step n c m)
    then have "meets X c" by (auto simp: meets_def)
    then show ?case using assms(2) step by blast
  qed (use assms(1) in blast)
qed

text \<open>What the loop keeps: it selects only memberships inside the region, and never drops a requested one.\<close>

definition inside_region :: "component set \<Rightarrow> component list \<Rightarrow> component list \<Rightarrow> historical_membership list \<Rightarrow> selection \<Rightarrow> bool" where
  "inside_region req target active history sel = (case sel of (t, a, r) \<Rightarrow>
     req \<subseteq> t \<and> t \<subseteq> set target \<and> a \<subseteq> set active \<and> r \<subseteq> {item \<in> set history. hm_reusable item} \<and>
     nodes_in (t \<union> a) \<union> nodes_in (hm_members ` r) \<subseteq> region req (overlapping target active history))"

lemma nodes_in_Un: "nodes_in (A \<union> B) = nodes_in A \<union> nodes_in B"
  by (auto simp: nodes_in_def)

lemma nodes_in_mono: "A \<subseteq> B \<Longrightarrow> nodes_in A \<subseteq> nodes_in B"
  by (auto simp: nodes_in_def)

lemma nodes_in_upper: "c \<in> A \<Longrightarrow> set c \<subseteq> nodes_in A"
  by (auto simp: nodes_in_def)

lemma nodes_in_filter:
  assumes "\<And>c. c \<in> C \<Longrightarrow> c \<in> overlap" and "X \<subseteq> region req overlap"
  shows "nodes_in {c \<in> C. meets X c} \<subseteq> region req overlap"
proof
  fix n assume "n \<in> nodes_in {c \<in> C. meets X c}"
  then obtain c where c: "c \<in> C" "meets X c" "n \<in> set c" by (auto simp: nodes_in_def)
  then have "meets (region req overlap) c" using assms(2) by (auto simp: meets_def)
  then show "n \<in> region req overlap" using region_closed [OF assms(1) [OF c(1)]] c(3) by blast
qed

lemma grow_region_eq:
  "grow_region target active history (t, a, r) = (t', a', r') \<longleftrightarrow>
     (let x = nodes_in (t \<union> a) \<union> nodes_in (hm_members ` r) in
      a' = a \<union> set (filter (meets x) active) \<and>
      r' = r \<union> set (filter (\<lambda>item. hm_reusable item \<and> meets (x \<union> nodes_in a') (hm_members item)) history) \<and>
      t' = t \<union> set (filter (meets (x \<union> nodes_in a' \<union> nodes_in (hm_members ` r'))) target))"
  unfolding grow_region_def Let_def prod.case prod.inject by blast

lemma grow_inside:
  assumes "inside_region req target active history sel"
  shows "inside_region req target active history (grow_region target active history sel)"
proof -
  obtain t a r where sel: "sel = (t, a, r)" by (cases sel) auto
  let ?R = "region req (overlapping target active history)"
  define x where "x = nodes_in (t \<union> a) \<union> nodes_in (hm_members ` r)"
  define a' where "a' = a \<union> set (filter (meets x) active)"
  define y where "y = x \<union> nodes_in a'"
  define r' where "r' = r \<union> set (filter (\<lambda>item. hm_reusable item \<and> meets y (hm_members item)) history)"
  define z where "z = y \<union> nodes_in (hm_members ` r')"
  define t' where "t' = t \<union> set (filter (meets z) target)"
  have grow: "grow_region target active history sel = (t', a', r')"
    unfolding sel grow_region_eq Let_def t'_def z_def r'_def y_def a'_def x_def by (intro conjI refl)
  have inv: "req \<subseteq> t" "t \<subseteq> set target" "a \<subseteq> set active" "r \<subseteq> {item \<in> set history. hm_reusable item}" "x \<subseteq> ?R"
    using assms by (simp_all add: inside_region_def sel x_def)
  have "nodes_in {c \<in> set active. meets x c} \<subseteq> ?R" by (rule nodes_in_filter [OF _ inv(5)]) (simp add: overlapping_def)
  then have y: "y \<subseteq> ?R" using inv(5) by (auto simp: y_def a'_def nodes_in_Un x_def)
  have "nodes_in {c \<in> reusable_members history. meets y c} \<subseteq> ?R" by (rule nodes_in_filter [OF _ y]) (simp add: overlapping_def)
  moreover have "hm_members ` r' \<subseteq> hm_members ` r \<union> {c \<in> reusable_members history. meets y c}"
    by (auto simp: r'_def reusable_members_def)
  ultimately have "nodes_in (hm_members ` r') \<subseteq> nodes_in (hm_members ` r) \<union> ?R"
    using nodes_in_mono [of "hm_members ` r'" "hm_members ` r \<union> {c \<in> reusable_members history. meets y c}"] by (auto simp: nodes_in_Un)
  then have z: "z \<subseteq> ?R" using y inv(5) by (auto simp: z_def x_def)
  have "nodes_in {c \<in> set target. meets z c} \<subseteq> ?R" by (rule nodes_in_filter [OF _ z]) (simp add: overlapping_def)
  then have "nodes_in t' \<subseteq> ?R" using inv(5) by (auto simp: t'_def nodes_in_Un x_def)
  moreover have "nodes_in a' \<subseteq> ?R" "nodes_in (hm_members ` r') \<subseteq> ?R" using y z by (auto simp: y_def z_def)
  moreover have "req \<subseteq> t'" "t' \<subseteq> set target" "a' \<subseteq> set active" "r' \<subseteq> {item \<in> set history. hm_reusable item}"
    using inv by (auto simp: t'_def a'_def r'_def)
  ultimately show ?thesis unfolding grow by (simp add: inside_region_def nodes_in_Un)
qed

lemma grow_fixed:
  assumes "inside_region req target active history sel"
    and "region_size (grow_region target active history sel) = region_size sel"
  shows "grow_region target active history sel = sel"
proof -
  obtain t a r where sel: "sel = (t, a, r)" by (cases sel) auto
  obtain t' a' r' where grow: "grow_region target active history sel = (t', a', r')" by (cases "grow_region target active history sel") auto
  obtain xs ys zs where g: "t' = t \<union> xs" "a' = a \<union> ys" "r' = r \<union> zs"
    using grow_region_grows grow sel by metis
  have fin: "finite t'" "finite a'" "finite r'"
  proof -
    have "t' \<subseteq> set target" "a' \<subseteq> set active" "r' \<subseteq> {item \<in> set history. hm_reusable item}"
      using grow_inside [OF assms(1)] grow by (simp_all add: inside_region_def)
    then show "finite t'" "finite a'" "finite r'" by (simp_all add: finite_subset)
  qed
  have "card t' = card t" "card a' = card a" "card r' = card r" using assms(2) grow sel by (simp_all add: region_size_def)
  then have "t' = t" "a' = a" "r' = r"
    using card_subset_eq [OF fin(1), of t] card_subset_eq [OF fin(2), of a] card_subset_eq [OF fin(3), of r] g by auto
  then show ?thesis using grow sel by simp
qed

lemma select_region_fixed:
  assumes "inside_region req target active history sel"
  shows "inside_region req target active history (select_region target active history sel) \<and>
    grow_region target active history (select_region target active history sel) = select_region target active history sel"
  using assms
proof (induction target active history sel rule: select_region.induct)
  case (1 target active history sel)
  let ?s = "grow_region target active history sel"
  show ?case
  proof (cases "region_size ?s = region_size sel")
    case True
    then have s: "?s = sel" using grow_fixed 1 by blast
    then have "select_region target active history sel = sel" using True by (subst select_region.simps) (simp add: Let_def)
    then show ?thesis using s 1(2) by simp
  next
    case False
    then have "select_region target active history sel = select_region target active history ?s"
      by (subst select_region.simps) (simp add: Let_def)
    then show ?thesis using 1(1) [OF refl False grow_inside [OF 1(2)]] by simp
  qed
qed

text \<open>The loop selects exactly the memberships that meet the region.\<close>

lemma select_region_exact:
  assumes req: "set requested \<subseteq> set target" and ne: "\<And>c. c \<in> overlapping target active history \<Longrightarrow> c \<noteq> []"
  shows "select_region target active history (set requested, {}, {}) =
    (let R = region (set requested) (overlapping target active history) in
     ({c \<in> set target. meets R c}, {c \<in> set active. meets R c},
      {item \<in> set history. hm_reusable item \<and> meets R (hm_members item)}))"
proof -
  let ?o = "overlapping target active history" let ?R = "region (set requested) ?o"
  obtain t a r where s: "select_region target active history (set requested, {}, {}) = (t, a, r)" by (metis prod_cases3)
  have "inside_region (set requested) target active history (set requested, {}, {})"
    using req by (auto simp: inside_region_def nodes_in_def intro: region.start)
  from select_region_fixed [OF this] s have inside: "inside_region (set requested) target active history (t, a, r)"
    and fixed: "grow_region target active history (t, a, r) = (t, a, r)" by simp_all
  let ?X = "nodes_in (t \<union> a) \<union> nodes_in (hm_members ` r)"
  have sub: "set requested \<subseteq> t" "t \<subseteq> set target" "a \<subseteq> set active" "r \<subseteq> {item \<in> set history. hm_reusable item}" "?X \<subseteq> ?R"
    using inside by (simp_all add: inside_region_def)
  note e = fixed [unfolded grow_region_eq Let_def]
  note active = conjunct1 [OF e] and reuse = conjunct1 [OF conjunct2 [OF e]] and goal = conjunct2 [OF conjunct2 [OF e]]
  have X: "?X \<union> nodes_in a = ?X" "?X \<union> nodes_in a \<union> nodes_in (hm_members ` r) = ?X" by (auto simp: nodes_in_Un)
  have a: "c \<in> a" if "c \<in> set active" "meets ?X c" for c using active that by auto
  have r: "item \<in> r" if "item \<in> set history" "hm_reusable item" "meets ?X (hm_members item)" for item
    using reuse that unfolding X by auto
  have t: "c \<in> t" if "c \<in> set target" "meets ?X c" for c using goal that unfolding X by auto
  have "?R \<subseteq> ?X"
  proof (rule region_least)
    show "set c \<subseteq> ?X" if "c \<in> set requested" for c using sub(1) that by (auto simp: nodes_in_def)
    show "set c \<subseteq> ?X" if "c \<in> ?o" "meets ?X c" for c
      using that a [of c] t [of c] r unfolding overlapping_def reusable_members_def nodes_in_def by blast
  qed
  then have R: "?R = ?X" using sub(5) by blast
  have m: "meets ?X c" if "c \<in> ?o" "set c \<subseteq> ?X" for c using hd_in_set [OF ne [OF that(1)]] that(2) unfolding meets_def by blast
  have up: "set c \<subseteq> ?X" if "c \<in> t \<or> c \<in> a \<or> c \<in> hm_members ` r" for c
    using that nodes_in_upper [of c "t \<union> a"] nodes_in_upper [of c "hm_members ` r"] by auto
  have "t = {c \<in> set target. meets ?R c}"
    unfolding R using t sub(2) m [OF _ up] by (auto simp: overlapping_def)
  moreover have "a = {c \<in> set active. meets ?R c}"
    unfolding R using a sub(3) m [OF _ up] by (auto simp: overlapping_def)
  moreover have "r = {item \<in> set history. hm_reusable item \<and> meets ?R (hm_members item)}"
    unfolding R using r sub(4) m [OF _ up] by (auto simp: overlapping_def reusable_members_def)
  ultimately show ?thesis using s by (simp add: Let_def)
qed

text \<open>Only the history that meets the region matters.\<close>

lemma region_relevant:
  assumes "set history' = {item \<in> set history. meets (region req (overlapping target active history)) (hm_members item)}"
  shows "region req (overlapping target active history') = region req (overlapping target active history)"
proof
  let ?o = "overlapping target active history" and ?o' = "overlapping target active history'"
  show "region req ?o' \<subseteq> region req ?o"
    by (rule region_least, blast intro: region.start, rule region_closed)
      (use assms in \<open>auto simp: overlapping_def reusable_members_def\<close>)
  show "region req ?o \<subseteq> region req ?o'"
  proof
    fix n assume "n \<in> region req ?o"
    then show "n \<in> region req ?o'"
    proof (induction rule: region.induct)
      case (step n c m)
      have "c \<in> ?o'"
        using step.hyps assms unfolding overlapping_def reusable_members_def meets_def by auto
      then show ?case using step by (blast intro: region.step)
    qed (blast intro: region.start)
  qed
qed

end
