(* ===== verification/Membership_Changes.thy ===== *)
theory Membership_Changes
  imports Membership_Region
begin

text \<open>
  Changes of the active membership: what \<open>observe_membership_change\<close> returns, that the observation is stable, that the
  replacement of an observed region never fails and replaces exactly the region, and what the tables look like after
  any sequence of initializations and replacements.
\<close>

section \<open>What an observation returns\<close>

definition wf_history :: "historical_membership list \<Rightarrow> bool" where
  "wf_history history \<longleftrightarrow> (\<forall>item\<in>set history. valid_members (hm_members item) \<and> 1 \<le> hm_shape_id item \<and> 0 \<le> hm_generation item)"

definition generation_floor :: "historical_membership list \<Rightarrow> component \<Rightarrow> int option" where
  "generation_floor history members =
     (let generations = map hm_generation (filter (\<lambda>item. meets (set members) (hm_members item)) history) in
      if generations = [] then None else Some (Max (set generations)))"

text \<open>The change an observation with the region \<open>R\<close> returns.\<close>

definition region_change ::
    "node_name set \<Rightarrow> active_partition \<Rightarrow> topology_snapshot \<Rightarrow> component list \<Rightarrow> historical_membership list \<Rightarrow> membership_change" where
  "region_change R active snap requested history =
     (let target = snapshot_components snap;
          relevant = filter (\<lambda>item. meets R (hm_members item)) history;
          reusable_nodes = nodes_in (hm_members ` {item \<in> set relevant. hm_reusable item}) in
      \<lparr>mc_source = active, mc_target_shape = shape_json snap, mc_requested = requested,
       mc_source_components = filter (meets R) (map ac_members (pt_components active)),
       mc_target_components = filter (meets R) target,
       mc_preparation = map (\<lambda>c. \<lparr>ps_members = c, ps_floor = generation_floor relevant c\<rparr>)
         (filter (\<lambda>c. c \<in> set requested \<or> meets R c \<and> meets reusable_nodes c) target),
       mc_history = relevant, mc_removed = sorted_list_of_set (R - nodes_in (set target))\<rparr>)"

abbreviation change_region :: "active_partition \<Rightarrow> topology_snapshot \<Rightarrow> component list \<Rightarrow> historical_membership list \<Rightarrow> node_name set" where
  "change_region active snap requested history \<equiv>
     region (set requested) (overlapping (snapshot_components snap) (map ac_members (pt_components active)) history)"

lemma members_of_map: "\<forall>c\<in>set cs. valid_members c \<Longrightarrow> res_map members_of cs = Inr cs"
  by (induction cs) (simp_all add: members_of_valid)

lemma ordered_components_valid: "\<forall>c\<in>set cs. valid_members c \<Longrightarrow> distinct cs \<Longrightarrow> ordered_components cs = Inr cs"
  by (simp add: ordered_components_def members_of_map)

lemma ordered_components_Inr:
  assumes "ordered_components cs = Inr ds"
  shows "(\<forall>d\<in>set ds. valid_members d) \<and> distinct ds"
proof -
  have "res_map members_of cs = Inr ds" "distinct ds" using assms by (auto simp: ordered_components_def res_bind_eq_Inr split: if_splits)
  then show ?thesis using res_map_set [of members_of cs ds] members_of_Inr by blast
qed

lemma snapshot_valid: "wf_snapshot snap \<Longrightarrow> \<forall>c\<in>set (snapshot_components snap). valid_members c"
  by (simp add: wf_snapshot_def valid_members_def)

lemma partition_valid: "wf_partition p \<Longrightarrow> \<forall>c\<in>set (map ac_members (pt_components p)). valid_members c"
  by (auto simp: wf_partition_def)

lemma sorted_filter_set: "sorted xs \<Longrightarrow> distinct xs \<Longrightarrow> sorted_list_of_set {x \<in> set xs. P x} = filter P xs"
proof -
  assume "sorted xs" "distinct xs"
  then have "sorted (filter P xs)" "distinct (filter P xs)" by (simp_all add: sorted_wrt_filter)
  moreover have "set (filter P xs) = {x \<in> set xs. P x}" by simp
  ultimately show ?thesis by (metis sorted_list_of_set.idem_if_sorted_distinct)
qed

lemma region_nodes:
  fixes target active :: "component list" and history :: "historical_membership list"
  assumes "req \<subseteq> set target"
  defines "R \<equiv> region req (overlapping target active history)"
  shows "nodes_in ({c \<in> set target. meets R c} \<union> {c \<in> set active. meets R c}) \<union>
    nodes_in (hm_members ` {item \<in> set history. hm_reusable item \<and> meets R (hm_members item)}) = R"
proof
  have "set c \<subseteq> R" if "c \<in> overlapping target active history" "meets R c" for c
    using region_closed [OF that(1)] that(2) unfolding R_def by blast
  then show "nodes_in ({c \<in> set target. meets R c} \<union> {c \<in> set active. meets R c}) \<union>
    nodes_in (hm_members ` {item \<in> set history. hm_reusable item \<and> meets R (hm_members item)}) \<subseteq> R"
    by (auto simp: nodes_in_def overlapping_def reusable_members_def)
  have meets: "meets R c" if "n \<in> R" "n \<in> set c" for n c using that by (auto simp: meets_def)
  have "R \<subseteq> nodes_in {c \<in> overlapping target active history. meets R c}"
  proof
    fix n assume n: "n \<in> R"
    then have "\<exists>c\<in>overlapping target active history. n \<in> set c" unfolding R_def
    proof (induction rule: region.induct)
      case (start c n)
      then have "c \<in> overlapping target active history" using assms(1) by (auto simp: overlapping_def)
      then show ?case using start by blast
    qed blast
    then show "n \<in> nodes_in {c \<in> overlapping target active history. meets R c}" using meets [OF n] by (auto simp: nodes_in_def)
  qed
  then show "R \<subseteq> nodes_in ({c \<in> set target. meets R c} \<union> {c \<in> set active. meets R c}) \<union>
    nodes_in (hm_members ` {item \<in> set history. hm_reusable item \<and> meets R (hm_members item)})"
    by (auto simp: nodes_in_def overlapping_def reusable_members_def)
qed

lemma finite_region: "finite req \<Longrightarrow> finite overlap \<Longrightarrow> finite (region req overlap)"
proof -
  assume fin: "finite req" "finite overlap"
  have "region req overlap \<subseteq> nodes_in (req \<union> overlap)" by (rule region_least) (auto simp: nodes_in_def)
  moreover have "finite (nodes_in (req \<union> overlap))" using fin by (simp add: nodes_in_def)
  ultimately show ?thesis by (rule finite_subset)
qed

lemma preparation_scopes:
  assumes "\<forall>c\<in>set cs. valid_members c" and "\<forall>item\<in>set history. 0 \<le> hm_generation item"
  shows "res_map (\<lambda>c. let generations = map hm_generation (filter (\<lambda>item. meets (set c) (hm_members item)) history) in
      preparation_scope_of c (if generations = [] then None else Some (Max (set generations)))) cs =
    Inr (map (\<lambda>c. \<lparr>ps_members = c, ps_floor = generation_floor history c\<rparr>) cs)"
proof (rule res_map_total)
  fix c assume c: "c \<in> set cs"
  let ?g = "map hm_generation (filter (\<lambda>item. meets (set c) (hm_members item)) history)"
  have "0 \<le> Max (set ?g)" if "?g \<noteq> []"
  proof -
    have "Max (set ?g) \<in> set ?g" using that by (intro Max_in) (simp_all only: finite_set set_empty not_False_eq_True)
    then show ?thesis using assms(2) by auto
  qed
  then have g: "\<not> (case generation_floor history c of None \<Rightarrow> False | Some g \<Rightarrow> g < 0)"
    by (simp add: generation_floor_def Let_def not_less)
  have "(let generations = ?g in preparation_scope_of c (if generations = [] then None else Some (Max (set generations)))) =
      preparation_scope_of c (generation_floor history c)"
    by (simp only: generation_floor_def Let_def)
  also have "\<dots> = Inr \<lparr>ps_members = c, ps_floor = generation_floor history c\<rparr>"
    using g assms(1) c by (simp only: preparation_scope_of_def members_of_valid res_bind_Inr if_False)
  finally show "(let generations = ?g in preparation_scope_of c (if generations = [] then None else Some (Max (set generations)))) =
      Inr \<lparr>ps_members = c, ps_floor = generation_floor history c\<rparr>" .
qed

lemma observe_spec:
  assumes active: "wf_partition active" and snap: "wf_snapshot snap" and "shape_json snap \<noteq> []"
    and hist: "wf_history historical" "distinct (map history_key historical)"
    and req: "ordered_components requested_components = Inr requested" "requested \<noteq> []" "set requested \<subseteq> set (snapshot_components snap)"
  shows "observe_membership_change active snap requested_components historical =
    Inr (region_change (change_region active snap requested historical) active snap requested (sort_key history_key historical))"
proof -
  let ?target = "snapshot_components snap" and ?active = "map ac_members (pt_components active)" and ?history = "sort_key history_key historical"
  let ?R = "region (set requested) (overlapping ?target ?active historical)"
  have target: "ordered_components ?target = Inr ?target" "sort ?target = ?target"
    using snap snapshot_valid [OF snap] by (simp_all add: ordered_components_valid wf_snapshot_def sorted_sort_id)
  have over: "overlapping ?target ?active ?history = overlapping ?target ?active historical"
    by (simp add: overlapping_def reusable_members_def)
  have valid: "\<forall>c\<in>overlapping ?target ?active historical. valid_members c"
    using snapshot_valid [OF snap] partition_valid [OF active] hist(1) by (auto simp: overlapping_def reusable_members_def wf_history_def)
  have sel: "select_region ?target ?active ?history (set requested, {}, {}) =
      ({c \<in> set ?target. meets ?R c}, {c \<in> set ?active. meets ?R c},
       {item \<in> set ?history. hm_reusable item \<and> meets ?R (hm_members item)})"
    using select_region_exact [OF req(3), of ?active ?history] valid unfolding over by (simp add: valid_members_def Let_def)
  have dist: "distinct (map history_key ?history)" using hist(2) by (simp add: distinct_map)
  have fin: "finite (?R - nodes_in (set ?target))"
    by (intro finite_Diff finite_region) (simp_all add: overlapping_def reusable_members_def)
  have act: "sorted_list_of_set {c \<in> set ?active. meets ?R c} = filter (meets ?R) ?active"
    by (rule sorted_filter_set) (use active in \<open>simp_all add: wf_partition_def\<close>)
  let ?relevant = "filter (\<lambda>item. meets ?R (hm_members item)) ?history"
  let ?reusable = "{item \<in> set ?history. hm_reusable item \<and> meets ?R (hm_members item)}"
  have reuse: "{item \<in> set ?relevant. hm_reusable item} = ?reusable" by auto
  have affected: "nodes_in ({c \<in> set ?target. meets ?R c} \<union> {c \<in> set ?active. meets ?R c}) \<union> nodes_in (hm_members ` ?reusable) = ?R"
    using region_nodes [OF req(3), of ?active historical] by simp
  have tgt: "filter (\<lambda>item. item \<in> {c \<in> set ?target. meets ?R c}) ?target = filter (meets ?R) ?target"
    by (rule filter_cong) auto
  have prep: "filter (\<lambda>c. c \<in> set requested \<union> Set.filter (meets (nodes_in (hm_members ` ?reusable))) {c \<in> set ?target. meets ?R c}) ?target =
      filter (\<lambda>c. c \<in> set requested \<or> meets ?R c \<and> meets (nodes_in (hm_members ` ?reusable)) c) ?target"
    by (rule filter_cong) auto
  have scopes: "res_map (\<lambda>c. let generations = map hm_generation (filter (\<lambda>item. meets (set c) (hm_members item)) ?relevant) in
      preparation_scope_of c (if generations = [] then None else Some (Max (set generations)))) cs =
    Inr (map (\<lambda>c. \<lparr>ps_members = c, ps_floor = generation_floor ?relevant c\<rparr>) cs)" if "set cs \<subseteq> set ?target" for cs
    using that snapshot_valid [OF snap] hist(1) by (intro preparation_scopes) (auto simp: wf_history_def)
  have guards: "raise_if (shape_json snap = []) (ValueError ''Target graph shape must be nonempty text'') = Inr ()"
    "raise_if (?target \<noteq> ?target) (ValueError ''Target components must use canonical snapshot order'') = Inr ()"
    "raise_if (requested = [] \<or> \<not> set requested \<subseteq> set ?target) (ValueError ''Requested components must belong to the target graph'') = Inr ()"
    "raise_if (\<not> distinct (map history_key ?history)) (ValueError ''Historical membership observations contain duplicate identities'') = Inr ()"
    using assms(3) req(2,3) dist by (simp_all only: raise_if_def if_False simp_thms)
  show ?thesis
    unfolding observe_membership_change_def region_change_def target(1) req(1) res_bind_Inr Let_def target(2) guards sel prod.case affected act tgt prep reuse
    by (subst scopes [unfolded Let_def]) auto
qed

text \<open>The conditions under which it returns at all.\<close>

lemma observe_conditions:
  assumes "observe_membership_change active snap requested_components historical = Inr change"
  shows "shape_json snap \<noteq> [] \<and> distinct (map history_key historical) \<and>
    (\<exists>requested. ordered_components requested_components = Inr requested \<and> requested \<noteq> [] \<and>
      (\<exists>target. ordered_components (snapshot_components snap) = Inr target \<and> set requested \<subseteq> set target))"
proof -
  have "distinct (map history_key (sort_key history_key historical)) \<longleftrightarrow> distinct (map history_key historical)"
    by (simp add: distinct_map)
  then show ?thesis
    using assms unfolding observe_membership_change_def by (auto simp: res_bind_eq_Inr Let_def)
qed

text \<open>Observing again, with the requested components and the history of the change, gives the change.\<close>

lemma observation_stable:
  assumes active: "wf_partition active" and snap: "wf_snapshot snap" and hist: "wf_history historical"
    and observed: "observe_membership_change active snap requested_components historical = Inr change"
  shows "observe_membership_change active snap (mc_requested change) (mc_history change) = Inr change \<and> mc_requested change \<noteq> []"
proof -
  obtain requested target where c: "shape_json snap \<noteq> []" "distinct (map history_key historical)"
    "ordered_components requested_components = Inr requested" "requested \<noteq> []"
    "ordered_components (snapshot_components snap) = Inr target" "set requested \<subseteq> set target"
    using observe_conditions [OF observed] by blast
  have t: "ordered_components (snapshot_components snap) = Inr (snapshot_components snap)"
    using snap snapshot_valid [OF snap] by (simp add: ordered_components_valid wf_snapshot_def)
  then have sub: "set requested \<subseteq> set (snapshot_components snap)" using c(5,6) by simp
  let ?R = "change_region active snap requested historical" and ?h = "sort_key history_key historical"
  let ?h' = "filter (\<lambda>item. meets ?R (hm_members item)) ?h"
  have change: "change = region_change ?R active snap requested ?h"
    using observe_spec [OF active snap c(1) hist c(2,3,4) sub] observed by simp
  then have f: "mc_requested change = requested" "mc_history change = ?h'" by (simp_all add: region_change_def Let_def)
  have R: "change_region active snap requested ?h' = ?R" by (rule region_relevant) simp
  have h': "wf_history ?h'" "distinct (map history_key ?h')" "sort_key history_key ?h' = ?h'"
    using hist c(2) by (simp_all add: wf_history_def distinct_map inj_on_def sort_key_id_if_sorted sorted_filter)
  have req: "ordered_components requested = Inr requested"
    using ordered_components_Inr [OF c(3)] by (simp add: ordered_components_valid)
  have "observe_membership_change active snap requested ?h' = Inr (region_change ?R active snap requested ?h')"
    using observe_spec [OF active snap c(1) h'(1,2) req c(4) sub] unfolding R h'(3) .
  moreover have "region_change ?R active snap requested ?h' = change" unfolding change by (simp add: region_change_def conj_ac)
  ultimately show ?thesis using f c(4) by simp
qed

section \<open>What a replacement does\<close>

definition replaced_partition :: "active_partition \<Rightarrow> component set \<Rightarrow> component set \<Rightarrow> active_partition" where
  "replaced_partition p source target = \<lparr>pt_revision = pt_revision p + 1, pt_components = sort_key ac_members
     (filter (\<lambda>item. ac_members item \<notin> source) (pt_components p) @
      map (\<lambda>c. \<lparr>ac_members = c, ac_established = pt_revision p + 1\<rparr>) (sorted_list_of_set target))\<rparr>"

text \<open>A source of active components, and target components apart from the unaffected ones.\<close>

definition replaceable :: "active_partition \<Rightarrow> component set \<Rightarrow> component set \<Rightarrow> bool" where
  "replaceable p source target \<longleftrightarrow> source \<subseteq> set (map ac_members (pt_components p)) \<and> finite target \<and> (\<forall>c\<in>target. valid_members c) \<and>
     (\<forall>c\<in>target. \<forall>d\<in>target. c \<noteq> d \<longrightarrow> set c \<inter> set d = {}) \<and>
     nodes_in (set (map ac_members (pt_components p)) - source) \<inter> nodes_in target = {}"

lemma set_replaced: "finite target \<Longrightarrow> set (pt_components (replaced_partition p source target)) =
    {item \<in> set (pt_components p). ac_members item \<notin> source} \<union>
    (\<lambda>c. \<lparr>ac_members = c, ac_established = pt_revision p + 1\<rparr>) ` target"
  by (simp add: replaced_partition_def)

lemma replaceable_apart:
  assumes "replaceable p source target" and "item \<in> set (pt_components p)" and "ac_members item \<notin> source" and "c \<in> target"
  shows "set (ac_members item) \<inter> set c = {}"
proof -
  have "set (ac_members item) \<subseteq> nodes_in (set (map ac_members (pt_components p)) - source)"
    by (rule nodes_in_upper) (use assms(2,3) in simp)
  moreover have "set c \<subseteq> nodes_in target" by (rule nodes_in_upper [OF assms(4)])
  ultimately show ?thesis using assms(1) unfolding replaceable_def by blast
qed

lemma distinct_map_sort_key: "distinct (map f (sort_key g xs)) \<longleftrightarrow> distinct (map f xs)"
  by (simp add: distinct_map)

lemma valid_members_ne: "valid_members c \<Longrightarrow> set c \<noteq> {}"
  by (simp add: valid_members_def)

lemma wf_replaced:
  assumes wf: "wf_partition p" and ok: "replaceable p source target"
  shows "wf_partition (replaced_partition p source target)"
proof -
  let ?old = "filter (\<lambda>item. ac_members item \<notin> source) (pt_components p)"
  let ?new = "map (\<lambda>c. \<lparr>ac_members = c, ac_established = pt_revision p + 1\<rparr>) (sorted_list_of_set target)"
  have fin: "finite target" and tv: "\<forall>c\<in>target. valid_members c" using ok by (auto simp: replaceable_def)
  have apart: "set (ac_members item) \<inter> set c = {}" if "item \<in> set ?old" "c \<in> target" for item c
    using replaceable_apart [OF ok _ _ that(2), of item] that(1) by simp
  have "ac_members item \<notin> target" if "item \<in> set ?old" for item
  proof
    assume c: "ac_members item \<in> target"
    then have "set (ac_members item) = {}" using apart [OF that c] by simp
    then show False using valid_members_ne tv c by blast
  qed
  moreover have "distinct (map ac_members ?old)" using wf by (simp add: wf_partition_def distinct_map_filter)
  ultimately have dist: "distinct (map ac_members (?old @ ?new))" using fin by (auto simp: comp_def)
  then have "distinct (map ac_members (sort_key ac_members (?old @ ?new)))" by (simp only: distinct_map_sort_key)
  moreover have "set (ac_members a) \<inter> set (ac_members b) = {}"
    if ab: "a \<in> set (?old @ ?new)" "b \<in> set (?old @ ?new)" "ac_members a \<noteq> ac_members b" for a b
  proof -
    have "a \<in> set ?old \<or> ac_members a \<in> target" "b \<in> set ?old \<or> ac_members b \<in> target" using ab(1,2) fin by auto
    moreover have "set (ac_members a) \<inter> set (ac_members b) = {}" if "a \<in> set ?old" "b \<in> set ?old"
      using wf that ab(3) by (auto simp: wf_partition_def)
    moreover have "set (ac_members a) \<inter> set (ac_members b) = {}" if "ac_members a \<in> target" "ac_members b \<in> target"
      using ok that ab(3) by (auto simp: replaceable_def)
    ultimately show ?thesis using apart [of a "ac_members b"] apart [of b "ac_members a"] by blast
  qed
  moreover have "valid_members (ac_members item) \<and> 0 \<le> ac_established item \<and> ac_established item \<le> pt_revision p + 1"
    if "item \<in> set (?old @ ?new)" for item
    using that wf tv fin by (force simp: wf_partition_def)
  moreover have "0 \<le> pt_revision p + 1" using wf by (simp add: wf_partition_def)
  ultimately show ?thesis unfolding wf_partition_def replaced_partition_def active_partition.simps set_sort
    by (intro conjI ballI impI) (simp_all only: sorted_sort_key, blast+)
qed

text \<open>The rows the two \<open>DELETE\<close> statements remove.\<close>

lemma removed_members:
  assumes keys: "primary_keys mt" and rep: "represents mt p" and wf: "wf_partition p"
    and S: "S \<subseteq> set (map ac_members (pt_components p))"
  shows "int (length (mt_members mt)) - int (length (filter (\<lambda>(n, k). k \<notin> key_of ` S) (mt_members mt))) = (\<Sum>c\<in>S. int (length c))"
proof -
  have fin: "finite S" using S finite_subset by blast
  let ?cs = "sorted_list_of_set S"
  have valid: "\<forall>c\<in>S. valid_members c" using S partition_valid [OF wf] by blast
  have "inj_on key_of S" using valid valid_key_inject by (auto simp: inj_on_def)
  then have dist: "distinct (map key_of ?cs)" using fin by (simp add: distinct_map)
  have len: "length (filter (\<lambda>(n, k'). k' = key_of c) (mt_members mt)) = length c" if c: "c \<in> set ?cs" for c
  proof -
    obtain item where item: "item \<in> set (pt_components p)" "ac_members item = c" using S c fin by auto
    have "length (sort (map fst (filter (\<lambda>(n, k). k = key_of c) (mt_members mt)))) = length c"
      using recorded_members [OF keys rep wf item(1)] item(2) by simp
    then show ?thesis by simp
  qed
  have "sum_list (map length ?cs) = sum_list (map (\<lambda>k. length (filter (\<lambda>(n, k'). k' = k) (mt_members mt))) (map key_of ?cs))"
    using len by (simp add: comp_def cong: map_cong)
  also have "\<dots> = length (filter (\<lambda>(n, k'). k' \<in> set (map key_of ?cs)) (mt_members mt))"
    by (rule length_filter_groups [OF dist])
  also have "\<dots> = length (filter (\<lambda>(n, k). \<not> k \<notin> key_of ` S) (mt_members mt))" using fin by simp
  finally have "length (mt_members mt) = length (filter (\<lambda>(n, k). k \<notin> key_of ` S) (mt_members mt)) + sum_list (map length ?cs)"
    using sum_length_filter_compl [of "\<lambda>(n, k). k \<notin> key_of ` S" "mt_members mt"] by (simp add: case_prod_unfold)
  moreover have "int (sum_list (map length ?cs)) = (\<Sum>c\<in>S. int (length c))"
    using fin by (simp add: sum_list_distinct_conv_sum_set)
  ultimately show ?thesis by simp
qed

lemma removed_components:
  assumes keys: "primary_keys mt" and rep: "represents mt p" and wf: "wf_partition p"
    and S: "S \<subseteq> set (map ac_members (pt_components p))"
  shows "int (length (mt_components mt)) - int (length (filter (\<lambda>(k, e). k \<notin> key_of ` S) (mt_components mt))) = int (card S)"
proof -
  let ?gone = "filter (\<lambda>(k, e). k \<in> key_of ` S) (mt_components mt)"
  have valid: "\<forall>c\<in>S. valid_members c" using S partition_valid [OF wf] by blast
  have "distinct (map fst ?gone)" using keys by (simp add: primary_keys_def distinct_map_filter)
  then have "length ?gone = card (set (map fst ?gone))" by (metis distinct_card length_map)
  also have "set (map fst ?gone) = key_of ` S"
  proof
    show "key_of ` S \<subseteq> set (map fst ?gone)"
    proof
      fix k assume "k \<in> key_of ` S"
      then obtain item where "item \<in> set (pt_components p)" "k = key_of (ac_members item)" "ac_members item \<in> S" using S by auto
      then have "(k, ac_established item) \<in> set ?gone" using rep by (auto simp: represents_def)
      then show "k \<in> set (map fst ?gone)" by force
    qed
  qed auto
  also have "card (key_of ` S) = card S" using valid valid_key_inject by (intro card_image) (auto simp: inj_on_def)
  finally show ?thesis
    using sum_length_filter_compl [of "\<lambda>(k, e). k \<in> key_of ` S" "mt_components mt"] by (simp add: case_prod_unfold)
qed

lemma set_member_rows: "set (member_rows cs) = {(n, key_of c) |n c. c \<in> set cs \<and> n \<in> set c}"
  by (auto simp: member_rows_def)

lemma map_fst_member_rows: "map fst (member_rows cs) = concat cs"
  by (induction cs) (simp_all add: member_rows_def comp_def)

lemma distinct_concat_disjoint:
  assumes "distinct cs" and "\<forall>c\<in>set cs. valid_members c" and "\<forall>c\<in>set cs. \<forall>d\<in>set cs. c \<noteq> d \<longrightarrow> set c \<inter> set d = {}"
  shows "distinct (concat cs)"
  using assms by (auto simp: distinct_concat_iff valid_members_def removeAll_id filter_id_conv intro!: distinct_concat)

text \<open>The rows that are left, and the rows that are added, make the tables of the replaced partition.\<close>

lemma replaced_rows:
  assumes keys: "primary_keys mt" and rep: "represents mt p" and wf: "wf_partition p" and ok: "replaceable p S T"
  defines "comps \<equiv> filter (\<lambda>(k, e). k \<notin> key_of ` S) (mt_components mt)"
    and "members \<equiv> filter (\<lambda>(n, k). k \<notin> key_of ` S) (mt_members mt)"
    and "items \<equiv> sorted_list_of_set T"
  shows "\<exists>comps' members'. insert_rows comps (map (\<lambda>c. (key_of c, pt_revision p + 1)) items) = Inr comps' \<and>
     insert_rows members (member_rows items) = Inr members' \<and>
     primary_keys \<lparr>mt_state = [(1, pt_revision p + 1)], mt_components = comps', mt_members = members'\<rparr> \<and>
     represents \<lparr>mt_state = [(1, pt_revision p + 1)], mt_components = comps', mt_members = members'\<rparr> (replaced_partition p S T)"
proof -
  have fin: "finite T" and T: "\<forall>c\<in>T. valid_members c" and S: "S \<subseteq> set (map ac_members (pt_components p))"
    using ok by (auto simp: replaceable_def)
  have valid: "valid_members (ac_members item)" if "item \<in> set (pt_components p)" for item using wf that by (simp add: wf_partition_def)
  have kept: "key_of (ac_members item) \<notin> key_of ` S \<longleftrightarrow> ac_members item \<notin> S" if "item \<in> set (pt_components p)" for item
  proof -
    have "key_of (ac_members item) = key_of c \<longleftrightarrow> ac_members item = c" if "c \<in> S" for c
    proof -
      have "valid_members c" using S that partition_valid [OF wf] by blast
      then show ?thesis using valid_key_inject [OF valid [OF \<open>item \<in> set (pt_components p)\<close>]] by blast
    qed
    then show ?thesis by blast
  qed
  let ?rest = "{item \<in> set (pt_components p). ac_members item \<notin> S}"
  have sc: "set comps = (\<lambda>item. (key_of (ac_members item), ac_established item)) ` ?rest"
    using rep kept unfolding comps_def represents_def by auto
  have sm: "set members = {(n, key_of (ac_members item)) |n item. item \<in> ?rest \<and> n \<in> set (ac_members item)}"
    using rep kept unfolding members_def represents_def by auto
  have apart: "set (ac_members item) \<inter> set c = {}" if "item \<in> ?rest" "c \<in> T" for item c
    using replaceable_apart [OF ok _ _ that(2), of item] that(1) by simp
  have new: "ac_members item \<noteq> c" if i: "item \<in> ?rest" "c \<in> T" for item c
  proof
    assume "ac_members item = c"
    then have "set c = {}" using apart [OF i] by simp
    then show False using valid_members_ne [of c] T i(2) by simp
  qed
  have dc: "distinct (map fst comps)" "distinct (map fst members)"
    using keys by (simp_all add: primary_keys_def comps_def members_def distinct_map_filter)
  have "inj_on key_of T" using T valid_key_inject by (auto simp: inj_on_def)
  then have "distinct (map key_of items)" using fin by (simp add: items_def distinct_map)
  moreover have "key_of (ac_members item) \<noteq> key_of c" if i: "item \<in> ?rest" "c \<in> T" for item c
    using new [OF i] valid_key_inject [of "ac_members item" c] valid [of item] T i by simp
  ultimately have d1: "distinct (map fst (comps @ map (\<lambda>c. (key_of c, pt_revision p + 1)) items))"
    using dc(1) fin by (auto simp: sc items_def comp_def)
  have "distinct (concat items)" using fin T ok unfolding items_def by (intro distinct_concat_disjoint) (auto simp: replaceable_def)
  moreover have "n \<notin> set (concat items)" if "n \<in> fst ` set members" for n
  proof
    assume "n \<in> set (concat items)"
    then obtain c where c: "c \<in> T" "n \<in> set c" using fin by (auto simp: items_def)
    have "\<exists>item. item \<in> ?rest \<and> n \<in> set (ac_members item)" using \<open>n \<in> fst ` set members\<close> unfolding sm by force
    then obtain item where "item \<in> ?rest" "n \<in> set (ac_members item)" by blast
    then show False using apart [of item c] c by blast
  qed
  ultimately have d2: "distinct (map fst (members @ member_rows items))"
    using dc(2) by (auto simp: map_fst_member_rows)
  let ?c = "comps @ map (\<lambda>c. (key_of c, pt_revision p + 1)) items" and ?m = "members @ member_rows items"
  let ?new = "(\<lambda>c. \<lparr>ac_members = c, ac_established = pt_revision p + 1\<rparr>) ` T"
  have si: "set items = T" using fin by (simp add: items_def)
  have c: "set ?c = (\<lambda>item. (key_of (ac_members item), ac_established item)) ` (?rest \<union> ?new)"
    unfolding set_append sc set_map si image_Un image_image active_component.simps by (rule refl)
  have "{(n, key_of c) |n c. c \<in> T \<and> n \<in> set c} = {(n, key_of (ac_members item)) |n item. item \<in> ?new \<and> n \<in> set (ac_members item)}" (is "?A = ?B")
  proof
    show "?A \<subseteq> ?B"
    proof
      fix x assume "x \<in> ?A"
      then obtain n c where x: "x = (n, key_of c)" "c \<in> T" "n \<in> set c" by blast
      let ?i = "\<lparr>ac_members = c, ac_established = pt_revision p + 1\<rparr>"
      have "x = (n, key_of (ac_members ?i))" "?i \<in> ?new" "n \<in> set (ac_members ?i)" using x by simp_all
      then show "x \<in> ?B" by blast
    qed
    show "?B \<subseteq> ?A" by auto
  qed
  then have m: "set ?m = {(n, key_of (ac_members item)) |n item. item \<in> ?rest \<union> ?new \<and> n \<in> set (ac_members item)}"
    unfolding set_append sm set_member_rows si by blast
  have rev: "pt_revision (replaced_partition p S T) = pt_revision p + 1" by (simp add: replaced_partition_def)
  have "represents \<lparr>mt_state = [(1, pt_revision p + 1)], mt_components = ?c, mt_members = ?m\<rparr> (replaced_partition p S T)"
    unfolding represents_def set_replaced [OF fin] membership_tables.simps rev c m by (intro conjI refl)
  moreover have "primary_keys \<lparr>mt_state = [(1, pt_revision p + 1)], mt_components = ?c, mt_members = ?m\<rparr>"
    using d1 d2 by (simp only: primary_keys_def membership_tables.simps list.map distinct.simps) simp
  ultimately show ?thesis using d1 d2 unfolding insert_rows_def by (intro exI [of _ ?c] exI [of _ ?m]) (simp only: if_True simp_thms)
qed

lemma replace_ok:
  assumes keys: "primary_keys mt" and read: "read_active_component_partition mt = Inr (Some p)"
    and valid: "validate_membership_change nx mt change = Inr ()" and p: "mc_source change = p"
    and ok: "replaceable p (set (mc_source_components change)) (set (mc_target_components change))"
  defines "S \<equiv> set (mc_source_components change)" and "T \<equiv> set (mc_target_components change)"
  shows "if S = T then replace_active_component_closure nx True mt change = Inr (mt, p)
    else \<exists>mt'. replace_active_component_closure nx True mt change = Inr (mt', replaced_partition p S T) \<and>
      primary_keys mt' \<and> read_active_component_partition mt' = Inr (Some (replaced_partition p S T))"
proof -
  have wf: "wf_partition p" and rep: "represents mt p" using reader_exact [OF keys] read by auto
  have ok': "replaceable p S T" using ok by (simp add: S_def T_def)
  let ?known = "set (map ac_members (pt_components p))"
  have S: "S \<subseteq> ?known" and apart: "nodes_in (?known - S) \<inter> nodes_in T = {}" and fin: "finite T"
    using ok' unfolding replaceable_def by blast+
  have guards: "raise_if (\<not> True) e = Inr ()" "raise_if (\<not> S \<subseteq> ?known) e = Inr ()" "raise_if (nodes_in (?known - S) \<inter> nodes_in T \<noteq> {}) e = Inr ()" for e
    using S apart by (simp_all only: raise_if_def if_False simp_thms)
  show ?thesis
  proof (cases "S = T")
    case True
    then show ?thesis
      unfolding replace_active_component_closure_def Let_def valid p S_def [symmetric] T_def [symmetric] guards res_bind_Inr
      by (simp only: if_True simp_thms)
  next
    case False
    let ?q = "replaced_partition p S T"
    obtain comps' members' where rows:
      "insert_rows (filter (\<lambda>(k, e). k \<notin> key_of ` S) (mt_components mt)) (map (\<lambda>c. (key_of c, pt_revision p + 1)) (sorted_list_of_set T)) = Inr comps'"
      "insert_rows (filter (\<lambda>(n, k). k \<notin> key_of ` S) (mt_members mt)) (member_rows (sorted_list_of_set T)) = Inr members'"
      and q: "primary_keys \<lparr>mt_state = [(1, pt_revision p + 1)], mt_components = comps', mt_members = members'\<rparr>"
        "represents \<lparr>mt_state = [(1, pt_revision p + 1)], mt_components = comps', mt_members = members'\<rparr> ?q"
      using replaced_rows [OF keys rep wf ok'] by blast
    let ?mt = "\<lparr>mt_state = [(1, pt_revision p + 1)], mt_components = comps', mt_members = members'\<rparr>"
    have rd: "read_active_component_partition ?mt = Inr (Some ?q)" using reader_exact [OF q(1)] q(2) wf_replaced [OF wf ok'] by blast
    have st: "mt_state mt = [(1, pt_revision p)]" using rep by (simp add: represents_def)
    have cnt: "raise_if (int (length (mt_members mt)) - int (length (filter (\<lambda>(n, k). k \<notin> key_of ` S) (mt_members mt))) \<noteq> (\<Sum>item\<in>S. int (length item))) e = Inr ()"
      "raise_if (int (length (mt_components mt)) - int (length (filter (\<lambda>(k, e). k \<notin> key_of ` S) (mt_components mt))) \<noteq> int (card S)) e = Inr ()" for e
      using removed_members [OF keys rep wf S] removed_components [OF keys rep wf S] by (simp_all only: raise_if_def if_False simp_thms)
    have st1: "filter (\<lambda>(singleton, r). singleton = 1 \<and> r = pt_revision p) (mt_state mt) = [(1, pt_revision p)]"
      "map (\<lambda>(singleton, r). if singleton = 1 \<and> r = pt_revision p then (singleton, pt_revision p + 1) else (singleton, r)) (mt_state mt) =
        [(1, pt_revision p + 1)]"
      "raise_if (length [(1 :: int, pt_revision p)] \<noteq> 1) e = Inr ()" for e
      using st by simp_all
    have mem: "set (map ac_members (pt_components ?q)) = (?known - S) \<union> T" 
    proof -
      have "ac_members ` {item \<in> set (pt_components p). ac_members item \<notin> S} = ?known - S" by auto
      then show ?thesis unfolding set_map set_replaced [OF fin] image_Un image_image active_component.simps by simp
    qed
    have "replace_active_component_closure nx True mt change = Inr (?mt, ?q)"
      unfolding replace_active_component_closure_def Let_def valid p S_def [symmetric] T_def [symmetric] guards res_bind_Inr cnt rows st1
        if_not_P [OF False] rd option.case mem
      by (simp add: replaced_partition_def)
    then show ?thesis using False q(1) rd by (simp only: if_False) blast
  qed
qed

section \<open>Observed changes\<close>

lemma observed_change:
  assumes active: "wf_partition active" and snap: "wf_snapshot snap" and hist: "wf_history historical"
    and observed: "observe_membership_change active snap requested_components historical = Inr change"
  shows "mc_requested change \<noteq> [] \<and> set (mc_requested change) \<subseteq> set (snapshot_components snap) \<and>
    ordered_components requested_components = Inr (mc_requested change) \<and>
    change = region_change (change_region active snap (mc_requested change) historical) active snap (mc_requested change)
      (sort_key history_key historical)"
proof -
  obtain requested target where c: "shape_json snap \<noteq> []" "distinct (map history_key historical)"
    "ordered_components requested_components = Inr requested" "requested \<noteq> []"
    "ordered_components (snapshot_components snap) = Inr target" "set requested \<subseteq> set target"
    using observe_conditions [OF observed] by blast
  have t: "ordered_components (snapshot_components snap) = Inr (snapshot_components snap)"
    using snap snapshot_valid [OF snap] by (simp add: ordered_components_valid wf_snapshot_def)
  then have sub: "set requested \<subseteq> set (snapshot_components snap)" using c(5,6) by simp
  have "change = region_change (change_region active snap requested historical) active snap requested (sort_key history_key historical)"
    using observe_spec [OF active snap c(1) hist c(2,3,4) sub] observed by simp
  moreover from this have "mc_requested change = requested" by (simp add: region_change_def Let_def)
  ultimately show ?thesis using c(3,4) sub by simp
qed

lemma observed_replaceable:
  assumes active: "wf_partition active" and snap: "wf_snapshot snap" and hist: "wf_history historical"
    and observed: "observe_membership_change active snap requested_components historical = Inr change"
  shows "mc_source change = active \<and> replaceable active (set (mc_source_components change)) (set (mc_target_components change))"
proof -
  let ?R = "change_region active snap (mc_requested change) historical"
  have change: "change = region_change ?R active snap (mc_requested change) (sort_key history_key historical)"
    using observed_change [OF assms] by blast
  have s: "mc_source change = active" "mc_source_components change = filter (meets ?R) (map ac_members (pt_components active))"
    "mc_target_components change = filter (meets ?R) (snapshot_components snap)"
    by (subst change, simp add: region_change_def Let_def)+
  have "set c \<subseteq> ?R" if "c \<in> set (mc_target_components change)" for c
    using that unfolding s(3) by (intro region_closed) (auto simp: overlapping_def)
  then have "nodes_in (set (mc_target_components change)) \<subseteq> ?R" by (auto simp: nodes_in_def)
  moreover have "?R \<inter> nodes_in (set (map ac_members (pt_components active)) - set (mc_source_components change)) = {}"
    unfolding s(2) by (auto simp: nodes_in_def meets_def)
  ultimately show ?thesis using s snapshot_valid [OF snap] snap by (auto simp: replaceable_def wf_snapshot_def)
qed

end
