(* ===== verification/Membership_Properties.thy ===== *)
theory Membership_Properties
  imports Membership_Changes
begin

text \<open>
  Properties of the active membership: the region an observation selects, the exact effect of its replacement, the
  retirement of removed components, and the tables after any sequence of writes.
\<close>

section \<open>The component of a node\<close>

lemma filter_key: "distinct (map fst xs) \<Longrightarrow> filter (\<lambda>(k', e). k' = k) xs = (case map_of xs k of None \<Rightarrow> [] | Some e \<Rightarrow> [(k, e)])"
proof (induction xs)
  case (Cons x xs)
  obtain a b where x: "x = (a, b)" by force
  have "filter (\<lambda>(k', e). k' = a) xs = []" using Cons.prems x by (force simp: filter_empty_conv)
  then show ?case using Cons x by (auto split: option.splits)
qed simp

lemma lookup_for_node:
  assumes keys: "primary_keys mt" and wf: "wf_partition p" and rep: "represents mt p" and n: "validate_node_name n = Inr n"
  shows "read_active_component_for_node mt n = (case find (\<lambda>item. n \<in> set (ac_members item)) (pt_components p) of
      None \<Rightarrow> Inl (RuntimeError ''Raw node has no active component membership'')
    | Some item \<Rightarrow> Inr (Some (ac_members item)))"
proof -
  have state: "read_partition_revision mt = Inr (Some (pt_revision p))"
    using rep wf by (simp add: read_partition_revision_def represents_def wf_partition_def)
  have dk: "distinct (map fst (mt_members mt))" "distinct (map fst (mt_components mt))" using keys by (simp_all add: primary_keys_def)
  have rows: "filter (\<lambda>(m, k). m = n) (mt_members mt) = (case map_of (mt_members mt) n of None \<Rightarrow> [] | Some k \<Rightarrow> [(n, k)])"
    by (rule filter_key [OF dk(1)])
  show ?thesis
  proof (cases "find (\<lambda>item. n \<in> set (ac_members item)) (pt_components p)")
    case None
    then have "\<forall>item\<in>set (pt_components p). n \<notin> set (ac_members item)" by (auto simp: find_None_iff)
    then have "n \<notin> fst ` set (mt_members mt)" using rep by (auto simp: represents_def)
    then have "map_of (mt_members mt) n = None" by (simp add: map_of_eq_None_iff)
    then show ?thesis using None rows state n by (simp add: read_active_component_for_node_def)
  next
    case (Some item)
    then have item: "item \<in> set (pt_components p)" "n \<in> set (ac_members item)" by (auto simp: find_Some_iff)
    have "(n, key_of (ac_members item)) \<in> set (mt_members mt)" "(key_of (ac_members item), ac_established item) \<in> set (mt_components mt)"
      using rep item by (auto simp: represents_def)
    then have "map_of (mt_members mt) n = Some (key_of (ac_members item))"
      "map_of (mt_components mt) (key_of (ac_members item)) = Some (ac_established item)"
      using dk by simp_all
    then have "concat (map (\<lambda>(m, k). filter (\<lambda>(k', e). k' = k) (mt_components mt)) (filter (\<lambda>(m, k). m = n) (mt_members mt))) =
        [(key_of (ac_members item), ac_established item)]"
      unfolding rows using filter_key [OF dk(2), of "key_of (ac_members item)"] by simp
    then show ?thesis
      using Some state n item decode_represented [OF keys rep wf item(1)] by (simp add: read_active_component_for_node_def)
  qed
qed

section \<open>Sequences of writes\<close>

text \<open>The tables after any sequence of successful initializations and replacements; a failed one is rolled back.\<close>

inductive membership_reachable :: "networkx_api \<Rightarrow> membership_tables \<Rightarrow> bool" for nx where
  fresh: "membership_reachable nx \<lparr>mt_state = [], mt_components = [], mt_members = []\<rparr>"
| initialized: "membership_reachable nx mt \<Longrightarrow> initialize_active_component_partition in_transaction components mt = Inr (mt', p) \<Longrightarrow>
    membership_reachable nx mt'"
| replaced: "membership_reachable nx mt \<Longrightarrow> replace_active_component_closure nx in_transaction mt change = Inr (mt', p) \<Longrightarrow>
    membership_reachable nx mt'"

lemma insert_rows_Inr: "insert_rows rows new = Inr rows' \<longleftrightarrow> rows' = rows @ new \<and> distinct (map fst (rows @ new))"
  by (auto simp: insert_rows_def)

lemma initialize_Inr:
  assumes "initialize_active_component_partition in_transaction components mt = Inr (mt', p)"
  shows "primary_keys mt' \<and> read_active_component_partition mt' = Inr (Some p)"
  using assms unfolding initialize_active_component_partition_def Let_def
  by (auto simp: res_bind_eq_Inr insert_rows_Inr primary_keys_def split: option.splits)

lemma replace_Inr:
  assumes "primary_keys mt" and rep: "replace_active_component_closure nx in_transaction mt change = Inr (mt', p)"
  shows "primary_keys mt' \<and> read_active_component_partition mt' = Inr (Some p)"
proof -
  have valid: "validate_membership_change nx mt change = Inr ()"
    using rep by (auto simp: replace_active_component_closure_def res_bind_eq_Inr)
  then have read: "read_active_component_partition mt = Inr (Some (mc_source change))"
    by (auto simp: validate_membership_change_def res_bind_eq_Inr)
  have fst_state: "map fst (map (\<lambda>(singleton, r). if singleton = 1 \<and> r = v then (singleton, v + 1) else (singleton, r)) xs) = map fst xs"
    for v :: int and xs :: "(int \<times> int) list" by auto
  show ?thesis
  proof (cases "set (mc_source_components change) = set (mc_target_components change)")
    case True
    then have "mt' = mt" "p = mc_source change"
      using rep by (auto simp: replace_active_component_closure_def res_bind_eq_Inr Let_def)
    then show ?thesis using assms(1) read by simp
  next
    case False
    obtain comps' members' state' where mt': "mt' = \<lparr>mt_state = state', mt_components = comps', mt_members = members'\<rparr>"
      and st: "map fst state' = map fst (mt_state mt)" and "distinct (map fst comps')" "distinct (map fst members')"
      and "read_active_component_partition mt' = Inr (Some p)"
      using rep False fst_state unfolding replace_active_component_closure_def Let_def
      by (auto simp: res_bind_eq_Inr insert_rows_Inr split: option.splits if_splits)
    then show ?thesis using assms(1) by (simp add: primary_keys_def)
  qed
qed

lemma reachable_read:
  assumes "membership_reachable nx mt"
  shows "primary_keys mt \<and> (mt = \<lparr>mt_state = [], mt_components = [], mt_members = []\<rparr> \<or> (\<exists>p. read_active_component_partition mt = Inr (Some p)))"
  using assms
proof (induction rule: membership_reachable.induct)
  case fresh
  then show ?case by (simp add: primary_keys_def)
next
  case (initialized mt in_transaction components mt' p)
  then show ?case using initialize_Inr by blast
next
  case (replaced mt in_transaction change mt' p)
  then show ?case using replace_Inr by blast
qed

section \<open>Tables of a given partition\<close>

definition store_partition :: "active_partition \<Rightarrow> membership_tables" where
  "store_partition p = \<lparr>mt_state = [(1, pt_revision p)],
     mt_components = map (\<lambda>item. (key_of (ac_members item), ac_established item)) (pt_components p),
     mt_members = member_rows (map ac_members (pt_components p))\<rparr>"

lemma store_partition_represents:
  assumes wf: "wf_partition p"
  shows "primary_keys (store_partition p) \<and> represents (store_partition p) p"
proof -
  let ?cs = "map ac_members (pt_components p)"
  have valid: "\<forall>c\<in>set ?cs. valid_members c" by (rule partition_valid [OF wf])
  have dc: "distinct ?cs" using wf by (simp add: wf_partition_def)
  have "inj_on key_of (set ?cs)" using valid valid_key_inject unfolding inj_on_def by blast
  then have "distinct (map key_of ?cs)" using dc by (simp only: distinct_map)
  moreover have "distinct (concat ?cs)" using wf by (intro distinct_concat_disjoint dc valid) (auto simp: wf_partition_def)
  ultimately have "primary_keys (store_partition p)"
    by (simp add: primary_keys_def store_partition_def map_fst_member_rows comp_def)
  moreover have "represents (store_partition p) p"
    by (auto simp: represents_def store_partition_def set_member_rows)
  ultimately show ?thesis by blast
qed

section \<open>Properties\<close>

text \<open>
  C13. The region of a membership change: for an established partition, a target graph and a history of memberships, the
  observation succeeds for every nonempty selection of different target components. It returns exactly the active
  components, the target components and the history that meet the region, the smallest set of nodes with the requested
  components that is closed under overlap with active, target and reusable memberships; it prepares the requested
  components and those of the region that share a node with reusable work, each with the highest generation that was
  ever used on its nodes; and observing again with the history it returned gives the same change.
\<close>

theorem membership_change_exact:
  assumes "wf_partition active" and "wf_snapshot snap" and "shape_json snap \<noteq> []" and "wf_history history"
    and "distinct (map history_key history)" and "requested \<noteq> []" and "distinct requested"
    and "set requested \<subseteq> set (snapshot_components snap)"
  shows "\<exists>change R. observe_membership_change active snap requested history = Inr change \<and>
     R = region (set requested) (overlapping (snapshot_components snap) (map ac_members (pt_components active)) history) \<and>
     (\<forall>X. (\<forall>c\<in>set requested. set c \<subseteq> X) \<and>
          (\<forall>c\<in>overlapping (snapshot_components snap) (map ac_members (pt_components active)) history. meets X c \<longrightarrow> set c \<subseteq> X) \<longrightarrow> R \<subseteq> X) \<and>
     mc_source_components change = filter (meets R) (map ac_members (pt_components active)) \<and>
     mc_target_components change = filter (meets R) (snapshot_components snap) \<and>
     set (mc_history change) = {item \<in> set history. meets R (hm_members item)} \<and>
     set (mc_removed change) = R - nodes_in (set (snapshot_components snap)) \<and>
     (\<forall>c. c \<in> set (preparation_components change) \<longleftrightarrow> c \<in> set requested \<or> c \<in> set (mc_target_components change) \<and>
        (\<exists>item\<in>set (mc_history change). hm_reusable item \<and> meets (set c) (hm_members item))) \<and>
     (\<forall>scope\<in>set (mc_preparation change). ps_floor scope = generation_floor (mc_history change) (ps_members scope)) \<and>
     observe_membership_change active snap (mc_requested change) (mc_history change) = Inr change"
proof -
  let ?o = "overlapping (snapshot_components snap) (map ac_members (pt_components active)) history"
  let ?R = "region (set requested) ?o"
  let ?change = "region_change ?R active snap requested (sort_key history_key history)"
  have req: "ordered_components requested = Inr requested"
    using snapshot_valid [OF assms(2)] assms(7,8) by (intro ordered_components_valid) auto
  have observed: "observe_membership_change active snap requested history = Inr ?change"
    by (rule observe_spec [OF assms(1-5) req assms(6,8)])
  have f: "mc_source_components ?change = filter (meets ?R) (map ac_members (pt_components active))"
    "mc_target_components ?change = filter (meets ?R) (snapshot_components snap)"
    "set (mc_history ?change) = {item \<in> set history. meets ?R (hm_members item)}"
    "\<forall>scope\<in>set (mc_preparation ?change). ps_floor scope = generation_floor (mc_history ?change) (ps_members scope)"
    by (simp_all add: region_change_def Let_def)
  have "finite ?R" by (intro finite_region) (simp_all add: overlapping_def reusable_members_def)
  then have removed: "set (mc_removed ?change) = ?R - nodes_in (set (snapshot_components snap))"
    by (simp add: region_change_def Let_def)
  have reuse: "meets (nodes_in (hm_members ` {item \<in> set (mc_history ?change). hm_reusable item})) c \<longleftrightarrow>
      (\<exists>item\<in>set (mc_history ?change). hm_reusable item \<and> meets (set c) (hm_members item))" for c
    by (auto simp: meets_def nodes_in_def)
  have prep: "preparation_components ?change = filter (\<lambda>c. c \<in> set requested \<or> meets ?R c \<and>
      meets (nodes_in (hm_members ` {item \<in> set (mc_history ?change). hm_reusable item})) c) (snapshot_components snap)"
    by (simp add: preparation_components_def region_change_def Let_def comp_def)
  have p: "\<forall>c. c \<in> set (preparation_components ?change) \<longleftrightarrow> c \<in> set requested \<or> c \<in> set (mc_target_components ?change) \<and>
      (\<exists>item\<in>set (mc_history ?change). hm_reusable item \<and> meets (set c) (hm_members item))"
    unfolding prep reuse f(2) using assms(8) by auto
  have least: "\<forall>X. (\<forall>c\<in>set requested. set c \<subseteq> X) \<and> (\<forall>c\<in>?o. meets X c \<longrightarrow> set c \<subseteq> X) \<longrightarrow> ?R \<subseteq> X"
  proof (intro allI impI)
    fix X assume "(\<forall>c\<in>set requested. set c \<subseteq> X) \<and> (\<forall>c\<in>?o. meets X c \<longrightarrow> set c \<subseteq> X)"
    then show "?R \<subseteq> X" by (intro region_least) simp_all
  qed
  have again: "observe_membership_change active snap (mc_requested ?change) (mc_history ?change) = Inr ?change"
    using observation_stable [OF assms(1,2,4) observed] by blast
  show ?thesis by (rule exI [of _ ?change], rule exI [of _ ?R]) (intro conjI observed refl least f removed p again)
qed

text \<open>A partition that was established before the graph changed, with reusable work of a component that is gone.\<close>

definition demo_active :: active_partition where
  "demo_active = \<lparr>pt_revision = 2, pt_components = [\<lparr>ac_members = [''a''], ac_established = 0\<rparr>,
     \<lparr>ac_members = [''b''], ac_established = 1\<rparr>, \<lparr>ac_members = [''c'', ''d''], ac_established = 2\<rparr>]\<rparr>"

definition demo_history :: "historical_membership list" where
  "demo_history = [\<lparr>hm_members = [''d'', ''e''], hm_shape_id = 1, hm_generation = 4, hm_reusable = True\<rparr>,
     \<lparr>hm_members = [''a''], hm_shape_id = 1, hm_generation = 7, hm_reusable = True\<rparr>]"

definition demo_snapshot :: topology_snapshot where
  "demo_snapshot = snapshot ref_networkx demo_topology"

lemma demo_facts:
  "wf_partition demo_active" "wf_snapshot demo_snapshot" "shape_json demo_snapshot \<noteq> []" "wf_history demo_history"
  "distinct (map history_key demo_history)" "snapshot_components demo_snapshot = [[''a''], [''b'', ''c''], [''d'']]"
  "component_snapshot_from_shape ref_networkx (shape_json demo_snapshot) = Inr demo_snapshot"
proof -
  have names: "\<forall>n\<in>nodes_of demo_topology. validate_node_name n = Inr n" by code_simp
  show "wf_partition demo_active" by (simp add: demo_active_def wf_partition_def valid_members_def validate_node_name_def; code_simp)
  show "wf_snapshot demo_snapshot" unfolding demo_snapshot_def
    by (rule networkx.wf_snapshot_snapshot [OF refnx.networkx_axioms wf_demo_topology names])
  show "shape_json demo_snapshot \<noteq> []" by (simp add: demo_snapshot_def snapshot_def graph_shape_def)
  show "wf_history demo_history" by code_simp
  show "distinct (map history_key demo_history)" by code_simp
  show "snapshot_components demo_snapshot = [[''a''], [''b'', ''c''], [''d'']]" by code_simp
  show "component_snapshot_from_shape ref_networkx (shape_json demo_snapshot) = Inr demo_snapshot"
    using shape_reads_back [OF refnx.networkx_axioms wf_demo_topology names] by (simp add: demo_snapshot_def snapshot_def)
qed

theorem membership_change_exact_witness:
  "\<exists>change. observe_membership_change demo_active demo_snapshot [[''b'', ''c'']] demo_history = Inr change \<and>
     [''c'', ''d''] \<in> set (mc_source_components change) \<and> [''a''] \<notin> set (preparation_components change) - set (mc_target_components change)"
proof -
  have r: "[[''b'', ''c'']] \<noteq> []" "distinct [[''b'', ''c'']]" "set [[''b'', ''c'']] \<subseteq> set (snapshot_components demo_snapshot)"
    by (simp_all add: demo_facts(6))
  obtain change R where c: "observe_membership_change demo_active demo_snapshot [[''b'', ''c'']] demo_history = Inr change"
    "R = region (set [[''b'', ''c'']]) (overlapping (snapshot_components demo_snapshot) (map ac_members (pt_components demo_active)) demo_history)"
    "mc_source_components change = filter (meets R) (map ac_members (pt_components demo_active))"
    "\<forall>c. c \<in> set (preparation_components change) \<longleftrightarrow> c \<in> set [[''b'', ''c'']] \<or> c \<in> set (mc_target_components change) \<and>
        (\<exists>item\<in>set (mc_history change). hm_reusable item \<and> meets (set c) (hm_members item))"
    using membership_change_exact [OF demo_facts(1-5) r] by (elim exE conjE)
  have "''c'' \<in> R" unfolding c(2) by (rule region.start [of "[''b'', ''c'']"]) simp_all
  then have "meets R [''c'', ''d'']" by (auto simp: meets_def)
  then have "[''c'', ''d''] \<in> set (mc_source_components change)" by (simp add: c(3) demo_active_def)
  then show ?thesis using c(1,4) by auto
qed

text \<open>The active components of a partition do not overlap.\<close>

lemma partition_find:
  assumes "wf_partition p" and "item \<in> set (pt_components p)" and "n \<in> set (ac_members item)"
  shows "find (\<lambda>item. n \<in> set (ac_members item)) (pt_components p) = Some item"
proof -
  have "find (\<lambda>item. n \<in> set (ac_members item)) (pt_components p) \<noteq> None" using assms(2,3) by (auto simp: find_None_iff)
  then obtain b where b: "find (\<lambda>item. n \<in> set (ac_members item)) (pt_components p) = Some b" by blast
  then have b': "b \<in> set (pt_components p)" "n \<in> set (ac_members b)" by (auto simp: find_Some_iff)
  have "set (ac_members b) \<inter> set (ac_members item) \<noteq> {}" using b'(2) assms(3) by blast
  then have "ac_members b = ac_members item" using assms(1,2) b'(1) unfolding wf_partition_def by blast
  moreover have "inj_on ac_members (set (pt_components p))" using assms(1) by (simp add: wf_partition_def distinct_map)
  ultimately show ?thesis using b b'(1) assms(2) by (simp add: inj_on_def)
qed

lemma lookup_member:
  assumes "primary_keys mt" and "read_active_component_partition mt = Inr (Some p)" and "c \<in> set (map ac_members (pt_components p))" and "n \<in> set c"
  shows "read_active_component_for_node mt n = Inr (Some c)"
proof -
  have wf: "wf_partition p" and rep: "represents mt p" using reader_exact [OF assms(1)] assms(2) by auto
  obtain item where item: "item \<in> set (pt_components p)" "c = ac_members item" using assms(3) by auto
  have "validate_node_name n = Inr n" using wf item assms(4) by (auto simp: wf_partition_def valid_members_def)
  from lookup_for_node [OF assms(1) wf rep this] show ?thesis
    using partition_find [OF wf item(1)] assms(4) item(2) by simp
qed

text \<open>
  C12. The replacement of an observed region never fails and changes exactly the region: with the tables still holding the
  partition that was observed, it writes tables that read back as the new partition. If the region keeps its components,
  nothing changes. Otherwise the revision is increased by one, every component outside the region keeps its row and the
  revision at which it was established, and the region's components are replaced by the target components, established at
  the new revision. In either case every node of the region's target components is then found in its target component.
\<close>

theorem membership_replacement_exact:
  assumes nx: "networkx nx" and canonical: "component_snapshot_from_shape nx (shape_json snap) = Inr snap"
    and keys: "primary_keys mt" and read: "read_active_component_partition mt = Inr (Some p)" and hist: "wf_history history"
    and observed: "observe_membership_change p snap requested history = Inr change"
  shows "\<exists>mt' p'. replace_active_component_closure nx True mt change = Inr (mt', p') \<and>
     primary_keys mt' \<and> read_active_component_partition mt' = Inr (Some p') \<and>
     (if changes_active_membership change
      then pt_revision p' = pt_revision p + 1 \<and> set (pt_components p') =
        {item \<in> set (pt_components p). ac_members item \<notin> set (mc_source_components change)} \<union>
        (\<lambda>c. \<lparr>ac_members = c, ac_established = pt_revision p + 1\<rparr>) ` set (mc_target_components change)
      else mt' = mt \<and> p' = p) \<and>
     (\<forall>c\<in>set (mc_target_components change). \<forall>n\<in>set c. read_active_component_for_node mt' n = Inr (Some c))"
proof -
  have wf: "wf_partition p" using reader_exact [OF keys] read by blast
  have snap: "wf_snapshot snap" using accepted_shape_wf [OF nx canonical] by blast
  have source: "mc_source change = p" and ok: "replaceable p (set (mc_source_components change)) (set (mc_target_components change))"
    using observed_replaceable [OF wf snap hist observed] by auto
  have shape: "mc_target_shape change = shape_json snap"
  proof -
    obtain R h where e: "change = region_change R p snap (mc_requested change) h"
      using observed_change [OF wf snap hist observed] by blast
    show ?thesis by (rule trans [OF arg_cong [OF e, of mc_target_shape]]) (simp add: region_change_def Let_def)
  qed
  have "observe_membership_change p snap (mc_requested change) (mc_history change) = Inr change" "mc_requested change \<noteq> []"
    using observation_stable [OF wf snap hist observed] by auto
  then have valid: "validate_membership_change nx mt change = Inr ()"
    by (simp add: validate_membership_change_def read source shape canonical)
  let ?S = "set (mc_source_components change)" and ?T = "set (mc_target_components change)"
  note replace = replace_ok [OF keys read valid source ok]
  show ?thesis
  proof (cases "?S = ?T")
    case True
    have T: "?T \<subseteq> set (map ac_members (pt_components p))" using ok True unfolding replaceable_def by simp
    have look: "\<forall>c\<in>?T. \<forall>n\<in>set c. read_active_component_for_node mt n = Inr (Some c)"
      using lookup_member [OF keys read] T by blast
    have "replace_active_component_closure nx True mt change = Inr (mt, p)" using replace unfolding if_P [OF True] .
    then show ?thesis using keys read look True by (auto simp: changes_active_membership_def)
  next
    case False
    let ?q = "replaced_partition p ?S ?T"
    obtain mt' where r: "replace_active_component_closure nx True mt change = Inr (mt', ?q)" "primary_keys mt'"
      "read_active_component_partition mt' = Inr (Some ?q)"
      using replace unfolding if_not_P [OF False] by blast
    have q: "set (pt_components ?q) = {item \<in> set (pt_components p). ac_members item \<notin> ?S} \<union>
        (\<lambda>c. \<lparr>ac_members = c, ac_established = pt_revision p + 1\<rparr>) ` ?T" by (rule set_replaced) simp
    have "?T \<subseteq> set (map ac_members (pt_components ?q))" unfolding set_map q image_Un image_image by auto
    then have look: "\<forall>c\<in>?T. \<forall>n\<in>set c. read_active_component_for_node mt' n = Inr (Some c)"
      using lookup_member [OF r(2,3)] by blast
    have "pt_revision ?q = pt_revision p + 1" by (simp add: replaced_partition_def)
    then show ?thesis using r q look False by (intro exI [of _ mt'] exI [of _ ?q]) (simp add: changes_active_membership_def)
  qed
qed

lemma demo_tables:
  "primary_keys (store_partition demo_active)"
  "read_active_component_partition (store_partition demo_active) = Inr (Some demo_active)"
  using store_partition_represents [OF demo_facts(1)] reader_exact demo_facts(1) by blast+

theorem membership_replacement_exact_witness:
  "\<exists>change mt' p'. observe_membership_change demo_active demo_snapshot [[''b'', ''c'']] demo_history = Inr change \<and>
     replace_active_component_closure ref_networkx True (store_partition demo_active) change = Inr (mt', p') \<and>
     read_active_component_for_node mt' ''b'' = Inr (Some [''b'', ''c''])"
proof -
  let ?req = "[[''b'', ''c'']]"
  have req: "ordered_components ?req = Inr ?req" "?req \<noteq> []" "set ?req \<subseteq> set (snapshot_components demo_snapshot)"
    using snapshot_valid [OF demo_facts(2)] by (simp_all add: ordered_components_valid demo_facts(6))
  let ?R = "change_region demo_active demo_snapshot ?req demo_history"
  let ?change = "region_change ?R demo_active demo_snapshot ?req (sort_key history_key demo_history)"
  have observed: "observe_membership_change demo_active demo_snapshot ?req demo_history = Inr ?change"
    by (rule observe_spec [OF demo_facts(1-5) req])
  have "''b'' \<in> ?R" by (rule region.start [of "[''b'', ''c'']"]) simp_all
  then have "meets ?R [''b'', ''c'']" by (auto simp: meets_def)
  then have t: "[''b'', ''c''] \<in> set (mc_target_components ?change)" by (simp add: region_change_def Let_def demo_facts(6))
  obtain mt' p' where r: "replace_active_component_closure ref_networkx True (store_partition demo_active) ?change = Inr (mt', p')"
    "\<forall>c\<in>set (mc_target_components ?change). \<forall>n\<in>set c. read_active_component_for_node mt' n = Inr (Some c)"
    using membership_replacement_exact [OF refnx.networkx_axioms demo_facts(7) demo_tables demo_facts(4) observed] by blast
  have "read_active_component_for_node mt' ''b'' = Inr (Some [''b'', ''c''])" using bspec [OF bspec [OF r(2) t], of "''b''"] by simp
  then show ?thesis using observed r(1) by blast
qed

text \<open>
  C15. Retirement: with the tables holding the observed partition and a canonical target graph, the observation of removed
  memberships succeeds, and replacing what it returned retires exactly the active components without a node of the target
  graph whose nodes no reusable work touches; all others keep their rows.
\<close>

theorem membership_retirement_exact:
  assumes nx: "networkx nx" and canonical: "component_snapshot_from_shape nx (shape_json snap) = Inr snap"
    and keys: "primary_keys mt" and read: "read_active_component_partition mt = Inr (Some p)"
    and dist: "distinct (map history_key history)"
  shows "\<exists>change mt' p'. observe_removed_memberships nx p snap history = Inr change \<and>
     replace_active_component_closure nx True mt change = Inr (mt', p') \<and> read_active_component_partition mt' = Inr (Some p') \<and>
     set (pt_components p') = {item \<in> set (pt_components p). meets (nodes_in (set (snapshot_components snap))) (ac_members item) \<or>
        (\<exists>old\<in>set history. hm_reusable old \<and> meets (set (hm_members old)) (ac_members item))} \<and>
     mc_removed change = sort (concat (mc_source_components change))"
proof -
  let ?h = "sort_key history_key history" and ?nodes = "nodes_in (set (snapshot_components snap))"
  let ?gone = "\<lambda>members. \<not> meets ?nodes members \<and> \<not> (\<exists>old\<in>set history. hm_reusable old \<and> meets (set (hm_members old)) members)"
  let ?S = "filter ?gone (map ac_members (pt_components p))"
  let ?change = "\<lparr>mc_source = p, mc_target_shape = shape_json snap, mc_requested = [], mc_source_components = ?S,
    mc_target_components = [], mc_preparation = [], mc_history = ?h, mc_removed = sort (concat ?S)\<rparr>"
  have wf: "wf_partition p" using reader_exact [OF keys] read by blast
  have dh: "distinct (map history_key ?h)" "distinct (map history_key (sort_key history_key ?h))"
    using dist by (simp_all only: distinct_map_sort_key)
  have idem: "sort_key history_key ?h = ?h" by (simp add: sort_key_id_if_sorted)
  have observed: "observe_removed_memberships nx p snap history = Inr ?change"
    "observe_removed_memberships nx p snap ?h = Inr ?change"
    unfolding observe_removed_memberships_def canonical res_bind_Inr Let_def idem raise_if_simps(2) set_sort simp_thms
    using dh by (simp_all add: raise_if_def)
  define change where "change = ?change"
  have f: "mc_source change = p" "set (mc_source_components change) = set ?S" "set (mc_target_components change) = {}"
    "mc_removed change = sort (concat (mc_source_components change))" by (simp_all add: change_def)
  have valid: "validate_membership_change nx mt change = Inr ()"
    using observed(2) by (simp add: validate_membership_change_def read canonical change_def)
  have ok: "replaceable p (set (mc_source_components change)) (set (mc_target_components change))"
    unfolding f by (auto simp: replaceable_def nodes_in_def)
  note replace = replace_ok [OF keys read valid f(1) ok, unfolded f(2,3)]
  have kept: "{item \<in> set (pt_components p). ac_members item \<notin> set ?S} = {item \<in> set (pt_components p). \<not> ?gone (ac_members item)}" by auto
  have "\<exists>mt' p'. replace_active_component_closure nx True mt change = Inr (mt', p') \<and> read_active_component_partition mt' = Inr (Some p') \<and>
      set (pt_components p') = {item \<in> set (pt_components p). \<not> ?gone (ac_members item)}"
  proof (cases "set ?S = {}")
    case True
    have "{item \<in> set (pt_components p). \<not> ?gone (ac_members item)} = set (pt_components p)"
      unfolding kept [symmetric] True by simp
    moreover have "replace_active_component_closure nx True mt change = Inr (mt, p)" using replace unfolding if_P [OF True] .
    ultimately show ?thesis using read by blast
  next
    case False
    have "set (pt_components (replaced_partition p (set ?S) {})) = {item \<in> set (pt_components p). \<not> ?gone (ac_members item)}"
      unfolding set_replaced [OF finite.emptyI] kept by simp
    then show ?thesis using replace unfolding if_not_P [OF False] by blast
  qed
  then show ?thesis using observed(1) f(4) unfolding change_def [symmetric] de_Morgan_conj not_not by blast
qed

theorem membership_retirement_exact_witness:
  "\<exists>change mt' p'. observe_removed_memberships ref_networkx demo_active demo_snapshot demo_history = Inr change \<and>
     replace_active_component_closure ref_networkx True (store_partition demo_active) change = Inr (mt', p') \<and>
     \<lparr>ac_members = [''c'', ''d''], ac_established = 2\<rparr> \<in> set (pt_components p')"
proof -
  have "\<lparr>ac_members = [''c'', ''d''], ac_established = 2\<rparr> \<in> set (pt_components demo_active)" by (simp add: demo_active_def)
  moreover have "meets (nodes_in (set (snapshot_components demo_snapshot))) [''c'', ''d'']"
    by (simp add: demo_facts(6) meets_def nodes_in_def)
  ultimately show ?thesis
    using membership_retirement_exact [OF refnx.networkx_axioms demo_facts(7) demo_tables demo_facts(5)] by fastforce
qed

text \<open>
  C14. The tables after any sequence of initializations and replacements, with any arguments, hold no partition at all
  (and no rows) or exactly one valid partition: disjoint components of safe node names, each established no later than
  the partition's revision. The lookup of a node then answers with the one component that contains it, and refuses
  exactly the nodes that belong to none.
\<close>

theorem membership_always_valid:
  assumes "membership_reachable nx mt"
  shows "mt = \<lparr>mt_state = [], mt_components = [], mt_members = []\<rparr> \<and> read_active_component_partition mt = Inr None \<or>
    (\<exists>p. read_active_component_partition mt = Inr (Some p) \<and> wf_partition p \<and>
      (\<forall>n. validate_node_name n = Inr n \<longrightarrow>
        (\<forall>c. read_active_component_for_node mt n = Inr (Some c) \<longleftrightarrow> c \<in> set (map ac_members (pt_components p)) \<and> n \<in> set c) \<and>
        ((\<exists>e. read_active_component_for_node mt n = Inl e) \<longleftrightarrow> (\<forall>item\<in>set (pt_components p). n \<notin> set (ac_members item)))))"
proof -
  consider "mt = \<lparr>mt_state = [], mt_components = [], mt_members = []\<rparr>" | p where "read_active_component_partition mt = Inr (Some p)"
    using reachable_read [OF assms] by blast
  then show ?thesis
  proof cases
    case 1
    then show ?thesis by (simp add: read_active_component_partition_def read_partition_revision_def)
  next
    case 2
    have keys: "primary_keys mt" using reachable_read [OF assms] by blast
    have wf: "wf_partition p" and rep: "represents mt p" using reader_exact [OF keys] 2 by auto
    have "(\<forall>c. read_active_component_for_node mt n = Inr (Some c) \<longleftrightarrow> c \<in> set (map ac_members (pt_components p)) \<and> n \<in> set c) \<and>
        ((\<exists>e. read_active_component_for_node mt n = Inl e) \<longleftrightarrow> (\<forall>item\<in>set (pt_components p). n \<notin> set (ac_members item)))"
      if n: "validate_node_name n = Inr n" for n
    proof (cases "\<exists>item\<in>set (pt_components p). n \<in> set (ac_members item)")
      case True
      then obtain item where item: "item \<in> set (pt_components p)" "n \<in> set (ac_members item)" by blast
      have r: "read_active_component_for_node mt n = Inr (Some (ac_members item))"
        using lookup_for_node [OF keys wf rep n] partition_find [OF wf item] by simp
      have "read_active_component_for_node mt n = Inr (Some c) \<longleftrightarrow> c \<in> set (map ac_members (pt_components p)) \<and> n \<in> set c" for c
        using lookup_member [OF keys 2, of c n] r item by auto
      then show ?thesis using r item by auto
    next
      case False
      then have "find (\<lambda>item. n \<in> set (ac_members item)) (pt_components p) = None" by (simp add: find_None_iff)
      then show ?thesis using lookup_for_node [OF keys wf rep n] False by auto
    qed
    then show ?thesis using 2 wf by blast
  qed
qed

theorem membership_always_valid_witness:
  "\<exists>mt p. initialize_active_component_partition True [[''b''], [''a'']] \<lparr>mt_state = [], mt_components = [], mt_members = []\<rparr> = Inr (mt, p) \<and>
     read_active_component_for_node mt ''a'' = Inr (Some [''a''])"
proof -
  let ?init = "initialize_active_component_partition True [[''b''], [''a'']] \<lparr>mt_state = [], mt_components = [], mt_members = []\<rparr>"
  have "case ?init of Inl _ \<Rightarrow> False | Inr (mt, p) \<Rightarrow> map ac_members (pt_components p) = [[''a''], [''b'']]" by code_simp
  then obtain mt p where init: "?init = Inr (mt, p)" and p: "map ac_members (pt_components p) = [[''a''], [''b'']]"
    by (auto split: sum.splits)
  have reach: "membership_reachable ref_networkx mt" by (rule membership_reachable.initialized [OF membership_reachable.fresh init])
  have read: "read_active_component_partition mt = Inr (Some p)" using initialize_Inr [OF init] by blast
  have "validate_node_name ''a'' = Inr ''a''" by code_simp
  with membership_always_valid [OF reach] read p have "read_active_component_for_node mt ''a'' = Inr (Some [''a''])" by auto
  with init show ?thesis by blast
qed

end
